(* ===== verification/Prelude.thy ===== *)
theory Prelude
  imports Main "HOL-Library.Sublist"
begin

text \<open>
  Shared vocabulary of the development: results as sums, the two named collections that the
  component theories extend, splitting and joining of lists, and the facts about them that
  carry the path, cookie and group-list lemmas. Nothing here is specific to one component.
\<close>

named_theorems text_simps \<open>how the string operations act on shorter strings\<close>

named_theorems frame_simps \<open>the parts of a state an operation leaves alone\<close>

section \<open>Results\<close>

text \<open>
  Rust's \<open>Result<'a, 'e>\<close> is the sum \<open>'e + 'a\<close>: \<open>Inl\<close> is \<open>Err\<close>, \<open>Inr\<close> is \<open>Ok\<close>. The
  operator \<open>?\<close> and the method \<open>and_then\<close> are \<open>and_then\<close> below.
\<close>

definition and_then :: "'e + 'a \<Rightarrow> ('a \<Rightarrow> 'e + 'b) \<Rightarrow> 'e + 'b" where
  "and_then r f = (case r of Inl e \<Rightarrow> Inl e | Inr a \<Rightarrow> f a)"

lemma and_then_simps [simp]:
  "and_then (Inl e) f = Inl e"
  "and_then (Inr a) f = f a"
  by (simp_all add: and_then_def)

lemma and_then_eq_Inr:
  "and_then r f = Inr b \<longleftrightarrow> (\<exists>a. r = Inr a \<and> f a = Inr b)"
  by (cases r) simp_all

definition is_ok :: "'e + 'a \<Rightarrow> bool" where
  "is_ok r = (case r of Inl _ \<Rightarrow> False | Inr _ \<Rightarrow> True)"

lemma is_ok_simps [simp]:
  "\<not> is_ok (Inl e)"
  "is_ok (Inr a)"
  by (simp_all add: is_ok_def)

lemma is_ok_iff: "is_ok r \<longleftrightarrow> (\<exists>a. r = Inr a)"
  by (cases r) simp_all

section \<open>Splitting and joining\<close>

text \<open>
  \<open>str::split(c)\<close> yields at least one piece; \<open>[T]::join(sep)\<close> is its left inverse, and its
  right inverse on pieces that do not hold the separator.
\<close>

fun split_on :: "'a \<Rightarrow> 'a list \<Rightarrow> 'a list list" where
  "split_on c [] = [[]]"
| "split_on c (x # xs) =
     (if x = c then [] # split_on c xs
      else (case split_on c xs of [] \<Rightarrow> [[x]] | s # ss \<Rightarrow> (x # s) # ss))"

fun join_on :: "'a \<Rightarrow> 'a list list \<Rightarrow> 'a list" where
  "join_on c [] = []"
| "join_on c [s] = s"
| "join_on c (s # t # ss) = s @ c # join_on c (t # ss)"

text \<open>The first piece: \<open>s.split(c).next().unwrap_or_default()\<close>.\<close>

definition first_piece :: "'a \<Rightarrow> 'a list \<Rightarrow> 'a list" where
  "first_piece c s = (case split_on c s of [] \<Rightarrow> [] | p # _ \<Rightarrow> p)"

lemma split_on_not_Nil [simp]: "split_on c s \<noteq> []" "[] \<noteq> split_on c s"
  by (cases s; auto split: list.splits)+

lemma split_on_no_sep [text_simps]: "c \<notin> set s \<Longrightarrow> split_on c s = [s]"
  by (induction s) auto

lemma split_on_sep_append [text_simps]:
  "split_on c (a @ c # b) = split_on c a @ split_on c b"
  by (induction a) (auto split: list.splits)

lemma split_on_pieces: "p \<in> set (split_on c s) \<Longrightarrow> c \<notin> set p"
  by (induction s arbitrary: p) (auto split: if_splits list.splits)

lemma split_on_set: "p \<in> set (split_on c s) \<Longrightarrow> set p \<subseteq> set s"
  by (induction s arbitrary: p) (fastforce split: if_splits list.splits)+

lemma join_on_Cons: "ss \<noteq> [] \<Longrightarrow> join_on c (s # ss) = s @ c # join_on c ss"
  by (cases ss) auto

lemma join_split [simp]: "join_on c (split_on c s) = s"
proof (induction s)
  case (Cons x xs)
  then show ?case
    by (cases "split_on c xs"; cases "tl (split_on c xs)") (auto simp: join_on_Cons neq_Nil_conv)
qed simp

lemma split_join:
  "ss \<noteq> [] \<Longrightarrow> (\<And>p. p \<in> set ss \<Longrightarrow> c \<notin> set p) \<Longrightarrow> split_on c (join_on c ss) = ss"
  by (induction c ss rule: join_on.induct) (auto simp: text_simps)

lemma split_on_inject: "split_on c a = split_on c b \<Longrightarrow> a = b"
  by (metis join_split)

lemma set_join_on: "set (join_on c ss) \<subseteq> insert c (\<Union>(set ` set ss))"
  by (induction c ss rule: join_on.induct) auto

lemma join_on_append:
  "as \<noteq> [] \<Longrightarrow> bs \<noteq> [] \<Longrightarrow> join_on c (as @ bs) = join_on c as @ c # join_on c bs"
  by (induction c as rule: join_on.induct) (auto simp: join_on_Cons neq_Nil_conv)

lemma first_piece_takeWhile: "first_piece c s = takeWhile (\<lambda>x. x \<noteq> c) s"
proof -
  have "split_on c s = takeWhile (\<lambda>x. x \<noteq> c) s # tl (split_on c s)"
    by (induction s) (auto split: list.splits)
  then show ?thesis
    by (metis first_piece_def list.simps(5))
qed

lemma first_piece_no_sep [text_simps]: "c \<notin> set s \<Longrightarrow> first_piece c s = s"
  by (simp add: first_piece_def text_simps)

lemma first_piece_append_sep [text_simps]:
  "c \<notin> set a \<Longrightarrow> first_piece c (a @ c # b) = a"
  by (induction a) (auto simp: first_piece_takeWhile)

lemma sep_not_in_first_piece [simp]: "c \<notin> set (first_piece c s)"
  by (auto simp: first_piece_takeWhile dest: set_takeWhileD)

lemma set_first_piece: "set (first_piece c s) \<subseteq> set s"
  by (auto simp: first_piece_takeWhile dest: set_takeWhileD)

text \<open>Prefixing up to a separator is prefixing of the pieces.\<close>

lemma prefix_split_on_append:
  "prefix (split_on c a) (split_on c b) \<longleftrightarrow> a = b \<or> (\<exists>r. b = a @ c # r)"
proof
  assume "prefix (split_on c a) (split_on c b)"
  then obtain zs where zs: "split_on c b = split_on c a @ zs"
    by (auto simp: prefix_def)
  show "a = b \<or> (\<exists>r. b = a @ c # r)"
  proof (cases "zs = []")
    case True
    with zs show ?thesis by (metis append_Nil2 split_on_inject)
  next
    case False
    have "b = join_on c (split_on c a @ zs)"
      using zs by (metis join_split)
    also have "\<dots> = a @ c # join_on c zs"
      using False by (simp add: join_on_append)
    finally show ?thesis by blast
  qed
next
  assume "a = b \<or> (\<exists>r. b = a @ c # r)"
  then show "prefix (split_on c a) (split_on c b)"
    by (auto simp: text_simps)
qed

section \<open>Trimming\<close>

text \<open>\<open>str::trim_end_matches(c)\<close> and \<open>str::trim_matches\<close> of a predicate.\<close>

definition trim_end_on :: "('a \<Rightarrow> bool) \<Rightarrow> 'a list \<Rightarrow> 'a list" where
  "trim_end_on P s = rev (dropWhile P (rev s))"

definition trim_on :: "('a \<Rightarrow> bool) \<Rightarrow> 'a list \<Rightarrow> 'a list" where
  "trim_on P s = trim_end_on P (dropWhile P s)"

lemma trim_end_on_snoc [simp]:
  "trim_end_on P (s @ [x]) = (if P x then trim_end_on P s else s @ [x])"
  by (simp add: trim_end_on_def)

lemma trim_end_on_Nil [simp]: "trim_end_on P [] = []"
  by (simp add: trim_end_on_def)

lemma trim_end_on_keeps: "s = [] \<or> \<not> P (last s) \<Longrightarrow> trim_end_on P s = s"
  by (cases s rule: rev_cases) auto

lemma set_trim_end_on: "set (trim_end_on P s) \<subseteq> set s"
  by (auto simp: trim_end_on_def dest: set_dropWhileD)

lemma set_trim_on: "set (trim_on P s) \<subseteq> set s"
  using set_trim_end_on by (force simp: trim_on_def dest: set_dropWhileD)

section \<open>Lists\<close>

lemma find_eq_None: "find P xs = None \<longleftrightarrow> (\<forall>x\<in>set xs. \<not> P x)"
  by (induction xs) auto

lemma find_SomeD: "find P xs = Some x \<Longrightarrow> x \<in> set xs \<and> P x"
  by (induction xs) (auto split: if_splits)

lemma list_ex_iff_filter: "list_ex Q (filter P xs) \<longleftrightarrow> (\<exists>x\<in>set xs. P x \<and> Q x)"
  by (auto simp: list_ex_iff)

lemma suffix_sep_iff:
  assumes "c \<notin> set s"
  shows "suffix (c # s) t \<longleftrightarrow> (\<exists>ss. ss \<noteq> [] \<and> split_on c t = ss @ [s])"
proof
  assume "suffix (c # s) t"
  then obtain u where "t = u @ c # s" by (auto simp: suffix_def)
  with assms show "\<exists>ss. ss \<noteq> [] \<and> split_on c t = ss @ [s]" by (auto simp: text_simps)
next
  assume "\<exists>ss. ss \<noteq> [] \<and> split_on c t = ss @ [s]"
  then obtain ss where "ss \<noteq> []" "split_on c t = ss @ [s]" by blast
  then have "t = join_on c ss @ c # s"
    using join_split [of c t] join_on_append [of ss "[s]" c] by simp
  then show "suffix (c # s) t" by (simp add: suffix_def)
qed

lemma length_split_on_sep: "c \<in> set t \<Longrightarrow> \<exists>a b. t = a @ c # b \<and> c \<notin> set b"
  by (metis split_list_last)

lemma set_map_filter: "x \<in> set (List.map_filter f xs) \<longleftrightarrow> (\<exists>y\<in>set xs. f y = Some x)"
  by (induction xs) (auto split: option.splits)

lemma map_filter_append: "List.map_filter f (xs @ ys) = List.map_filter f xs @ List.map_filter f ys"
  by (induction xs) (auto split: option.splits)

end
