(* ===== verification/Rust_Str.thy ===== *)
theory Rust_Str
  imports Prelude
begin

text \<open>
  The part of Rust's \<open>str\<close> the backend uses. A \<open>str\<close> is the list of its UTF-8 bytes, that is a
  HOL \<open>string\<close> (a \<open>char\<close> of HOL is a byte), so \<open>split\<close>, \<open>starts_with\<close>, \<open>strip_prefix\<close> and the
  ASCII case fold act on bytes, while \<open>chars\<close>, \<open>char::is_control\<close> and \<open>trim\<close> go through the
  decoded code points. \<open>String::from_utf8\<close> is the check that the bytes decode.
\<close>

abbreviation byte :: "char \<Rightarrow> nat" where
  "byte \<equiv> of_char"

section \<open>Bytes\<close>

definition is_ascii_digit :: "char \<Rightarrow> bool" where
  "is_ascii_digit c \<longleftrightarrow> 48 \<le> byte c \<and> byte c \<le> 57"

definition is_ascii_lowercase :: "char \<Rightarrow> bool" where
  "is_ascii_lowercase c \<longleftrightarrow> 97 \<le> byte c \<and> byte c \<le> 122"

definition is_ascii_uppercase :: "char \<Rightarrow> bool" where
  "is_ascii_uppercase c \<longleftrightarrow> 65 \<le> byte c \<and> byte c \<le> 90"

text \<open>\<open>u8::to_ascii_lowercase\<close> and its string version \<open>make_ascii_lowercase\<close>.\<close>

definition lower_byte :: "char \<Rightarrow> char" where
  "lower_byte c = (if is_ascii_uppercase c then char_of (byte c + 32) else c)"

definition to_ascii_lowercase :: "string \<Rightarrow> string" where
  "to_ascii_lowercase s = map lower_byte s"

text \<open>\<open>(b as char).to_digit(16)\<close>.\<close>

definition to_digit16 :: "char \<Rightarrow> nat option" where
  "to_digit16 c =
     (let n = byte c in
      if 48 \<le> n \<and> n \<le> 57 then Some (n - 48)
      else if 97 \<le> n \<and> n \<le> 102 then Some (n - 87)
      else if 65 \<le> n \<and> n \<le> 70 then Some (n - 55)
      else None)"

lemma byte_less_256 [simp]: "byte c < 256"
  by simp

lemma byte_char_of [simp]: "n < 256 \<Longrightarrow> byte (char_of n) = n"
  by (simp add: of_char_of)

lemma byte_inject [simp]: "byte c = byte d \<longleftrightarrow> c = d"
  by (metis char_of_char)

lemma byte_lower:
  "byte (lower_byte c) = (if is_ascii_uppercase c then byte c + 32 else byte c)"
  by (simp add: lower_byte_def is_ascii_uppercase_def)

lemma lower_byte_idem [simp]: "lower_byte (lower_byte c) = lower_byte c"
  by (simp add: lower_byte_def is_ascii_uppercase_def)

lemma lower_byte_not_upper [simp]: "\<not> is_ascii_uppercase (lower_byte c)"
  by (simp add: is_ascii_uppercase_def byte_lower)

lemma lower_byte_eq_iff:
  "\<not> is_ascii_lowercase d \<Longrightarrow> \<not> is_ascii_uppercase d \<Longrightarrow> lower_byte c = d \<longleftrightarrow> c = d"
  by (auto simp: lower_byte_def is_ascii_uppercase_def is_ascii_lowercase_def)

lemma lower_byte_id: "\<not> is_ascii_uppercase c \<Longrightarrow> lower_byte c = c"
  by (simp add: lower_byte_def)

lemma to_digit16_less: "to_digit16 c = Some d \<Longrightarrow> d < 16"
  by (auto simp: to_digit16_def Let_def split: if_splits)

lemma length_to_ascii_lowercase [simp]: "length (to_ascii_lowercase s) = length s"
  by (simp add: to_ascii_lowercase_def)

lemma to_ascii_lowercase_simps [simp]:
  "to_ascii_lowercase [] = []"
  "to_ascii_lowercase (c # s) = lower_byte c # to_ascii_lowercase s"
  "to_ascii_lowercase (s @ t) = to_ascii_lowercase s @ to_ascii_lowercase t"
  "to_ascii_lowercase (to_ascii_lowercase s) = to_ascii_lowercase s"
  by (simp_all add: to_ascii_lowercase_def o_def)

lemma to_ascii_lowercase_Nil_iff [simp]: "to_ascii_lowercase s = [] \<longleftrightarrow> s = []"
  by (simp add: to_ascii_lowercase_def)

lemma to_ascii_lowercase_id:
  "(\<And>c. c \<in> set s \<Longrightarrow> \<not> is_ascii_uppercase c) \<Longrightarrow> to_ascii_lowercase s = s"
  by (simp add: to_ascii_lowercase_def map_idI lower_byte_id)

lemma no_upper_to_ascii_lowercase:
  "c \<in> set (to_ascii_lowercase s) \<Longrightarrow> \<not> is_ascii_uppercase c"
  by (auto simp: to_ascii_lowercase_def)

text \<open>The separators the path code looks for are no letters, so folding leaves them alone.\<close>

lemma sep_in_lowercase_iff:
  "\<not> is_ascii_lowercase d \<Longrightarrow> \<not> is_ascii_uppercase d \<Longrightarrow>
   d \<in> set (to_ascii_lowercase s) \<longleftrightarrow> d \<in> set s"
  unfolding to_ascii_lowercase_def set_map image_iff
  by (metis lower_byte_eq_iff)

lemma split_on_lowercase:
  assumes "\<not> is_ascii_lowercase d" "\<not> is_ascii_uppercase d"
  shows "split_on d (to_ascii_lowercase s) = map to_ascii_lowercase (split_on d s)"
  by (induction s) (auto simp: lower_byte_eq_iff [OF assms] split: list.splits)

lemma join_on_lowercase:
  assumes "\<not> is_ascii_uppercase d"
  shows "to_ascii_lowercase (join_on d ss) = join_on d (map to_ascii_lowercase ss)"
  using assms by (induction d ss rule: join_on.induct) (simp_all add: lower_byte_id)

section \<open>UTF-8\<close>

text \<open>
  The decoder follows the well-formedness table of RFC 3629, which is what \<open>from_utf8\<close>
  accepts: no overlong form, no surrogate, nothing above \<open>0x10FFFF\<close>.
\<close>

definition is_cont :: "char \<Rightarrow> bool" where
  "is_cont c \<longleftrightarrow> 128 \<le> byte c \<and> byte c < 192"

definition utf8_step :: "string \<Rightarrow> (nat \<times> string) option" where
  "utf8_step s =
     (case s of
        [] \<Rightarrow> None
      | b # bs \<Rightarrow>
          if byte b < 128 then Some (byte b, bs)
          else if 194 \<le> byte b \<and> byte b \<le> 223 then
            (case bs of
               c1 # r \<Rightarrow>
                 if is_cont c1 then Some ((byte b - 192) * 64 + (byte c1 - 128), r) else None
             | _ \<Rightarrow> None)
          else if 224 \<le> byte b \<and> byte b \<le> 239 then
            (case bs of
               c1 # c2 # r \<Rightarrow>
                 if is_cont c1 \<and> is_cont c2 \<and> (byte b = 224 \<longrightarrow> 160 \<le> byte c1)
                    \<and> (byte b = 237 \<longrightarrow> byte c1 < 160)
                 then Some (((byte b - 224) * 64 + (byte c1 - 128)) * 64 + (byte c2 - 128), r)
                 else None
             | _ \<Rightarrow> None)
          else if 240 \<le> byte b \<and> byte b \<le> 244 then
            (case bs of
               c1 # c2 # c3 # r \<Rightarrow>
                 if is_cont c1 \<and> is_cont c2 \<and> is_cont c3 \<and> (byte b = 240 \<longrightarrow> 144 \<le> byte c1)
                    \<and> (byte b = 244 \<longrightarrow> byte c1 < 144)
                 then Some ((((byte b - 240) * 64 + (byte c1 - 128)) * 64 + (byte c2 - 128)) * 64
                              + (byte c3 - 128), r)
                 else None
             | _ \<Rightarrow> None)
          else None)"

lemma utf8_step_shorter: "utf8_step s = Some (n, r) \<Longrightarrow> length r < length s"
  by (auto simp: utf8_step_def split: list.splits if_splits)

function utf8_decode :: "string \<Rightarrow> nat list option" where
  "utf8_decode s =
     (if s = [] then Some []
      else (case utf8_step s of
              None \<Rightarrow> None
            | Some (n, r) \<Rightarrow> map_option ((#) n) (utf8_decode r)))"
  by pat_completeness auto
termination
  by (relation "measure length") (auto dest: utf8_step_shorter)

declare utf8_decode.simps [simp del]

definition is_utf8 :: "string \<Rightarrow> bool" where
  "is_utf8 s \<longleftrightarrow> utf8_decode s \<noteq> None"

text \<open>\<open>str::chars\<close>, as code points; a \<open>str\<close> always decodes.\<close>

definition chars_of :: "string \<Rightarrow> nat list" where
  "chars_of s = (case utf8_decode s of None \<Rightarrow> [] | Some cs \<Rightarrow> cs)"

definition encode_char :: "nat \<Rightarrow> string" where
  "encode_char n =
     (if n < 128 then [char_of n]
      else if n < 2048 then [char_of (192 + n div 64), char_of (128 + n mod 64)]
      else if n < 65536 then
        [char_of (224 + n div 4096), char_of (128 + n div 64 mod 64), char_of (128 + n mod 64)]
      else
        [char_of (240 + n div 262144), char_of (128 + n div 4096 mod 64),
         char_of (128 + n div 64 mod 64), char_of (128 + n mod 64)])"

definition utf8_encode :: "nat list \<Rightarrow> string" where
  "utf8_encode cs = concat (map encode_char cs)"

text \<open>Unicode scalar values, the values a Rust \<open>char\<close> can have.\<close>

definition is_scalar :: "nat \<Rightarrow> bool" where
  "is_scalar n \<longleftrightarrow> n < 55296 \<or> (57344 \<le> n \<and> n < 1114112)"

text \<open>\<open>char::is_control\<close>: the general category Cc.\<close>

definition is_control :: "nat \<Rightarrow> bool" where
  "is_control n \<longleftrightarrow> n < 32 \<or> (127 \<le> n \<and> n < 160)"

text \<open>\<open>char::is_whitespace\<close>: the property White\_Space.\<close>

definition is_whitespace :: "nat \<Rightarrow> bool" where
  "is_whitespace n \<longleftrightarrow>
     (9 \<le> n \<and> n \<le> 13) \<or> n = 32 \<or> n = 133 \<or> n = 160 \<or> n = 5760 \<or>
     (8192 \<le> n \<and> n \<le> 8202) \<or> n = 8232 \<or> n = 8233 \<or> n = 8239 \<or> n = 8287 \<or> n = 12288"

definition str_trim :: "string \<Rightarrow> string" where
  "str_trim s = utf8_encode (trim_on is_whitespace (chars_of s))"

subsection \<open>Where an ASCII byte stands, the bytes around it decode on their own\<close>

lemma is_cont_not_ascii: "byte x < 128 \<Longrightarrow> \<not> is_cont x"
  by (simp add: is_cont_def)

lemma utf8_step_append:
  assumes "byte x < 128" "a \<noteq> []"
  shows "utf8_step (a @ x # b) = map_option (\<lambda>(n, r). (n, r @ x # b)) (utf8_step a)"
proof -
  note cont = is_cont_not_ascii [OF assms(1)]
  have none: "(case b of [] \<Rightarrow> None | c # r \<Rightarrow> None) = None"
    "(case b of [] \<Rightarrow> None | [c] \<Rightarrow> None | c # d # r \<Rightarrow> None) = None" for b :: string
    by (simp_all split: list.split)
  consider (one) b0 where "a = [b0]" | (two) b0 b1 where "a = [b0, b1]"
    | (three) b0 b1 b2 where "a = [b0, b1, b2]"
    | (more) b0 b1 b2 b3 r where "a = b0 # b1 # b2 # b3 # r"
    using assms(2) by (metis neq_Nil_conv)
  then show ?thesis
    by cases (simp_all add: utf8_step_def cont none if_distrib [of "map_option _"] cong: if_cong
        split del: if_split)
qed

lemma utf8_decode_Nil [simp]: "utf8_decode [] = Some []"
  by (simp add: utf8_decode.simps)

lemma utf8_decode_ascii_Cons [simp]:
  "byte x < 128 \<Longrightarrow> utf8_decode (x # s) = map_option ((#) (byte x)) (utf8_decode s)"
  by (subst utf8_decode.simps) (simp add: utf8_step_def)

lemma utf8_decode_ascii_append [text_simps]:
  assumes "byte x < 128"
  shows "utf8_decode (a @ x # b) =
    (case utf8_decode a of
       None \<Rightarrow> None
     | Some u \<Rightarrow> map_option (\<lambda>v. u @ byte x # v) (utf8_decode b))"
proof (induction a rule: utf8_decode.induct)
  case (1 a)
  show ?case
  proof (cases "a = []")
    case True
    with assms show ?thesis by (simp add: map_option_case split: option.split)
  next
    case False
    then show ?thesis
      using 1 assms
      by (simp add: utf8_decode.simps [of "a @ x # b"] utf8_decode.simps [of a] utf8_step_append
          split: option.split prod.split)
        (auto simp: map_option_case split: option.splits)
  qed
qed

subsection \<open>Encoding is the inverse of decoding\<close>

lemma low_digit: "q < 64 \<Longrightarrow> (x * 64 + q) div 64 = x" "q < 64 \<Longrightarrow> (x * 64 + q) mod 64 = q" for q :: nat
  by simp_all

lemma encode_two:
  assumes "2 \<le> p" "p < 32" "q < 64" and n: "n = p * 64 + q"
  shows "encode_char n = [char_of (192 + p), char_of (128 + q)] \<and> is_scalar n"
proof -
  have "n div 64 = p" "n mod 64 = q" using assms by simp_all
  then show ?thesis using assms by (simp add: encode_char_def is_scalar_def)
qed

lemma encode_three:
  assumes "p < 16" "q < 64" "r < 64" "p = 0 \<longrightarrow> 32 \<le> q" "p = 13 \<longrightarrow> q < 32"
    and n: "n = (p * 64 + q) * 64 + r"
  shows "encode_char n = [char_of (224 + p), char_of (128 + q), char_of (128 + r)] \<and> is_scalar n"
proof -
  have "n div 64 = p * 64 + q" "n mod 64 = r"
    unfolding n using assms(3) by (rule low_digit)+
  moreover from this have "n div 64 mod 64 = q" "n div 64 div 64 = p" by (simp_all only: low_digit [OF assms(2)])
  moreover have "n div 4096 = n div 64 div 64" by (simp flip: div_mult2_eq)
  moreover have "2048 \<le> n" using assms by (cases "p = 0") auto
  moreover have "n < 65536" using assms by simp
  moreover have "n < 55296 \<or> 57344 \<le> n" using assms by (cases "p < 13"; cases "p = 13") auto
  ultimately show ?thesis by (simp add: encode_char_def is_scalar_def)
qed

lemma encode_four:
  assumes "p < 5" "q < 64" "r < 64" "t < 64" "p = 0 \<longrightarrow> 16 \<le> q" "p = 4 \<longrightarrow> q < 16"
    and n: "n = ((p * 64 + q) * 64 + r) * 64 + t"
  shows "encode_char n =
    [char_of (240 + p), char_of (128 + q), char_of (128 + r), char_of (128 + t)] \<and> is_scalar n"
proof -
  have "n div 64 = (p * 64 + q) * 64 + r" "n mod 64 = t"
    unfolding n using assms(4) by (rule low_digit)+
  moreover from this have "n div 64 mod 64 = r" "n div 64 div 64 = p * 64 + q"
    by (simp_all only: low_digit [OF assms(3)])
  moreover from this have "n div 64 div 64 mod 64 = q" "n div 64 div 64 div 64 = p"
    by (simp_all only: low_digit [OF assms(2)])
  moreover have "n div 4096 = n div 64 div 64" "n div 262144 = n div 64 div 64 div 64"
    by (simp_all flip: div_mult2_eq)
  moreover have "65536 \<le> n" using assms by (cases "p = 0") auto
  moreover have "n < 1114112" using assms by (cases "p = 4") auto
  ultimately show ?thesis by (simp add: encode_char_def is_scalar_def)
qed

lemma utf8_step_encode:
  assumes "is_scalar n"
  shows "utf8_step (encode_char n @ s) = Some (n, s)"
proof -
  define q r t u where "q = n div 64 div 64 div 64" and "r = n div 64 div 64 mod 64"
    and "t = n div 64 mod 64" and "u = n mod 64"
  have n: "n = ((q * 64 + r) * 64 + t) * 64 + u" and less: "r < 64" "t < 64" "u < 64"
    by (simp_all add: q_def r_def t_def u_def)
  have n': "n = 262144 * q + 4096 * r + 64 * t + u" using n by simp
  have max: "n < 55296 \<or> (57344 \<le> n \<and> n < 1114112)" using assms by (simp add: is_scalar_def)
  note step = utf8_step_def is_cont_def
  show ?thesis
  proof (cases "n < 128")
    case True
    then show ?thesis by (simp add: encode_char_def step)
  next
    case n128: False
    show ?thesis
    proof (cases "n < 2048")
      case True
      then have "q = 0" "r = 0" "t < 32" using n' less by auto
      moreover from this have "2 \<le> t" using n' less n128 by linarith
      ultimately have z: "q = 0" "r = 0" "t < 32" "2 \<le> t" .
      from encode_two [OF z(4,3) less(3), of n] n z(1,2) have
        "encode_char n = [char_of (192 + t), char_of (128 + u)]" by simp
      then show ?thesis using n less z by (simp add: step)
    next
      case n2048: False
      show ?thesis
      proof (cases "n < 65536")
        case True
        then have z: "q = 0" "r < 16" using n' less by auto
        have h: "r = 0 \<longrightarrow> 32 \<le> t" "r = 13 \<longrightarrow> t < 32"
          using n' less n2048 z max by auto
        from encode_three [OF z(2) less(2,3) h, of n] n z(1) have
          "encode_char n = [char_of (224 + r), char_of (128 + t), char_of (128 + u)]" by simp
        then show ?thesis using n less z h by (simp add: step)
      next
        case False
        then have z: "q < 5" using n' less max by auto
        have h: "q = 0 \<longrightarrow> 16 \<le> r" "q = 4 \<longrightarrow> r < 16"
          using n' less False max by auto
        from encode_four [OF z less h n] have "encode_char n =
          [char_of (240 + q), char_of (128 + r), char_of (128 + t), char_of (128 + u)]" by simp
        then show ?thesis using n less z h by (simp add: step)
      qed
    qed
  qed
qed

lemma utf8_step_decodes:
  assumes "utf8_step s = Some (n, r)"
  shows "s = encode_char n @ r \<and> is_scalar n"
proof -
  obtain b bs where s: "s = b # bs" using assms by (auto simp: utf8_step_def split: list.splits)
  consider (one) "byte b < 128" | (two) "194 \<le> byte b" "byte b \<le> 223"
    | (three) "224 \<le> byte b" "byte b \<le> 239" | (four) "240 \<le> byte b" "byte b \<le> 244"
    using assms by (simp add: s utf8_step_def split: if_splits)
  then show ?thesis
  proof cases
    case one
    then show ?thesis using assms by (auto simp: s utf8_step_def encode_char_def is_scalar_def)
  next
    case two
    with assms obtain c where c: "bs = c # r" "is_cont c"
      "n = (byte b - 192) * 64 + (byte c - 128)"
      by (auto simp: s utf8_step_def split: list.splits if_splits)
    with two have "encode_char n = [char_of (192 + (byte b - 192)), char_of (128 + (byte c - 128))]
      \<and> is_scalar n"
      by (intro encode_two) (auto simp: is_cont_def)
    with two c show ?thesis by (simp add: s is_cont_def)
  next
    case three
    with assms obtain c d where c: "bs = c # d # r" "is_cont c" "is_cont d"
      "byte b = 224 \<longrightarrow> 160 \<le> byte c" "byte b = 237 \<longrightarrow> byte c < 160"
      "n = ((byte b - 224) * 64 + (byte c - 128)) * 64 + (byte d - 128)"
      by (simp add: s utf8_step_def split: list.splits if_splits)
    with three have "encode_char n = [char_of (224 + (byte b - 224)), char_of (128 + (byte c - 128)),
      char_of (128 + (byte d - 128))] \<and> is_scalar n"
      by (intro encode_three) (auto simp: is_cont_def)
    with three c show ?thesis by (simp add: s is_cont_def)
  next
    case four
    with assms obtain c d e where c: "bs = c # d # e # r" "is_cont c" "is_cont d" "is_cont e"
      "byte b = 240 \<longrightarrow> 144 \<le> byte c" "byte b = 244 \<longrightarrow> byte c < 144"
      "n = (((byte b - 240) * 64 + (byte c - 128)) * 64 + (byte d - 128)) * 64 + (byte e - 128)"
      by (simp add: s utf8_step_def split: list.splits if_splits)
    with four have "encode_char n = [char_of (240 + (byte b - 240)), char_of (128 + (byte c - 128)),
      char_of (128 + (byte d - 128)), char_of (128 + (byte e - 128))] \<and> is_scalar n"
      by (intro encode_four) (auto simp: is_cont_def)
    with four c show ?thesis by (simp add: s is_cont_def)
  qed
qed

lemma utf8_decode_encode:
  "(\<And>n. n \<in> set cs \<Longrightarrow> is_scalar n) \<Longrightarrow> utf8_decode (utf8_encode cs) = Some cs"
proof (induction cs)
  case (Cons n cs)
  have "encode_char n \<noteq> []" by (simp add: encode_char_def)
  with Cons show ?case
    by (subst utf8_decode.simps) (simp add: utf8_step_encode utf8_encode_def)
qed (simp add: utf8_encode_def)

lemma utf8_decode_SomeD:
  "utf8_decode s = Some cs \<Longrightarrow> s = utf8_encode cs \<and> (\<forall>n\<in>set cs. is_scalar n)"
proof (induction s arbitrary: cs rule: utf8_decode.induct)
  case (1 s)
  show ?case
  proof (cases "s = []")
    case True
    with 1 show ?thesis by (simp add: utf8_encode_def)
  next
    case False
    with "1.prems" obtain n r ns where step: "utf8_step s = Some (n, r)"
      and rest: "utf8_decode r = Some ns" and cs: "cs = n # ns"
      by (subst (asm) utf8_decode.simps) (auto split: option.splits)
    from "1.IH" [OF False step refl rest] utf8_step_decodes [OF step]
    show ?thesis by (simp add: cs utf8_encode_def)
  qed
qed

section \<open>Text without control characters\<close>

text \<open>
  What the path code asks of a decoded string: well-formed, and no control character. ASCII
  separators cut it into pieces that are clean on their own, and mapping ASCII bytes to ASCII
  bytes maps the code points the same way.
\<close>

definition clean :: "string \<Rightarrow> bool" where
  "clean s \<longleftrightarrow> is_utf8 s \<and> \<not> list_ex is_control (chars_of s)"

lemma is_utf8_Nil [simp]: "is_utf8 []"
  by (simp add: is_utf8_def)

lemma is_utf8_append [text_simps]:
  "byte x < 128 \<Longrightarrow> is_utf8 (a @ x # b) \<longleftrightarrow> is_utf8 a \<and> is_utf8 b"
  by (auto simp: is_utf8_def text_simps split: option.splits)

lemma chars_of_append [text_simps]:
  "byte x < 128 \<Longrightarrow> is_utf8 a \<Longrightarrow> is_utf8 b \<Longrightarrow>
   chars_of (a @ x # b) = chars_of a @ byte x # chars_of b"
  by (auto simp: chars_of_def is_utf8_def text_simps)

lemma is_utf8_join_on:
  "byte x < 128 \<Longrightarrow> is_utf8 (join_on x ss) \<longleftrightarrow> (\<forall>s\<in>set ss. is_utf8 s)"
  by (induction x ss rule: join_on.induct) (simp_all add: text_simps)

lemma clean_Nil [simp]: "clean []"
  by (simp add: clean_def chars_of_def)

lemma clean_append [text_simps]:
  "byte x < 128 \<Longrightarrow> \<not> is_control (byte x) \<Longrightarrow> clean (a @ x # b) \<longleftrightarrow> clean a \<and> clean b"
  by (auto simp: clean_def text_simps)

lemma clean_Cons [text_simps]:
  "byte x < 128 \<Longrightarrow> \<not> is_control (byte x) \<Longrightarrow> clean (x # b) \<longleftrightarrow> clean b"
  using clean_append [of x "[]" b] by simp

lemma clean_join_on:
  "byte x < 128 \<Longrightarrow> \<not> is_control (byte x) \<Longrightarrow> clean (join_on x ss) \<longleftrightarrow> (\<forall>s\<in>set ss. clean s)"
  by (induction x ss rule: join_on.induct) (simp_all add: text_simps)

lemma clean_split_on:
  "byte x < 128 \<Longrightarrow> \<not> is_control (byte x) \<Longrightarrow> clean s \<longleftrightarrow> (\<forall>p\<in>set (split_on x s). clean p)"
  using clean_join_on [of x "split_on x s"] by simp

definition lift_ascii :: "(char \<Rightarrow> char) \<Rightarrow> nat \<Rightarrow> nat" where
  "lift_ascii f n = (if n < 128 then byte (f (char_of n)) else n)"

lemma encode_char_high:
  "is_scalar n \<Longrightarrow> 128 \<le> n \<Longrightarrow> c \<in> set (encode_char n) \<Longrightarrow> 128 \<le> byte c"
  by (auto simp: encode_char_def is_scalar_def of_char_of split: if_splits)

lemma map_encode_char:
  assumes "\<And>c. byte c < 128 \<Longrightarrow> byte (f c) < 128" "\<And>c. 128 \<le> byte c \<Longrightarrow> f c = c" "is_scalar n"
  shows "map f (encode_char n) = encode_char (lift_ascii f n)"
proof (cases "n < 128")
  case True
  with assms(1) show ?thesis by (simp add: encode_char_def lift_ascii_def)
next
  case False
  then have "map f (encode_char n) = encode_char n"
    using assms(2) encode_char_high [OF assms(3)] by (intro map_idI) auto
  with False show ?thesis by (simp add: lift_ascii_def)
qed

lemma utf8_decode_map:
  assumes ascii: "\<And>c. byte c < 128 \<Longrightarrow> byte (f c) < 128" and high: "\<And>c. 128 \<le> byte c \<Longrightarrow> f c = c"
    and s: "utf8_decode s = Some cs"
  shows "utf8_decode (map f s) = Some (map (lift_ascii f) cs)"
proof -
  have cs: "s = utf8_encode cs" "\<forall>n\<in>set cs. is_scalar n" using utf8_decode_SomeD [OF s] by simp_all
  have "is_scalar (lift_ascii f n)" if "is_scalar n" for n
    using that ascii [of "char_of n"] by (auto simp: lift_ascii_def is_scalar_def)
  moreover have "map f s = utf8_encode (map (lift_ascii f) cs)"
    unfolding cs(1) using cs(2)
    by (induction cs) (simp_all add: utf8_encode_def map_encode_char [OF ascii high])
  ultimately show ?thesis
    using cs(2) utf8_decode_encode [of "map (lift_ascii f) cs"] by (auto simp: image_iff)
qed

lemma clean_map:
  assumes "\<And>c. byte c < 128 \<Longrightarrow> byte (f c) < 128" "\<And>c. 128 \<le> byte c \<Longrightarrow> f c = c"
    "\<And>c. byte c < 128 \<Longrightarrow> is_control (byte (f c)) \<Longrightarrow> is_control (byte c)" "clean s"
  shows "clean (map f s)"
proof -
  obtain cs where cs: "utf8_decode s = Some cs" "\<not> list_ex is_control cs"
    using assms(4) by (auto simp: clean_def is_utf8_def chars_of_def)
  have "utf8_decode (map f s) = Some (map (lift_ascii f) cs)"
    using utf8_decode_map [of f, OF assms(1,2) cs(1)] by blast
  moreover have "is_control (lift_ascii f n) \<Longrightarrow> is_control n" for n
    using assms(3) [of "char_of n"] by (auto simp: lift_ascii_def split: if_splits)
  ultimately show ?thesis using cs(2)
    by (auto simp: clean_def is_utf8_def chars_of_def list_ex_iff)
qed

lemma clean_to_ascii_lowercase: "clean s \<Longrightarrow> clean (to_ascii_lowercase s)"
  unfolding to_ascii_lowercase_def
  by (rule clean_map)
    (auto simp: byte_lower is_ascii_uppercase_def is_control_def split: if_splits
      intro!: lower_byte_id)

subsection \<open>ASCII\<close>

lemma decode_ascii: "\<forall>c\<in>set s. byte c < 128 \<Longrightarrow> utf8_decode s = Some (map byte s)"
  by (induction s) (simp_all add: utf8_decode.simps utf8_step_def)

lemma str_trim_ascii: "\<forall>c\<in>set s. byte c < 128 \<Longrightarrow> str_trim s = trim_on (\<lambda>c. is_whitespace (byte c)) s"
proof -
  assume s: "\<forall>c\<in>set s. byte c < 128"
  have maps: "trim_on P (map byte t) = map byte (trim_on (\<lambda>c. P (byte c)) t)" for P t
    by (simp add: trim_on_def trim_end_on_def dropWhile_map rev_map o_def)
  have again: "utf8_encode (map byte t) = t" if "\<forall>c\<in>set t. byte c < 128" for t
    using that by (induction t) (simp_all add: utf8_encode_def encode_char_def)
  have "\<forall>c\<in>set (trim_on (\<lambda>c. is_whitespace (byte c)) s). byte c < 128" using s set_trim_on [of "\<lambda>c. is_whitespace (byte c)" s] by auto
  then show ?thesis using s by (simp add: str_trim_def chars_of_def decode_ascii maps again)
qed

lemmas trims = str_trim_ascii trim_on_def trim_end_on_def is_whitespace_def

end
