(* ===== verification/Uri.thy ===== *)
theory Uri
  imports Rust_Str
begin

text \<open>
  The first half of \<open>policy.rs\<close>: the vocabulary of refusals and what a request path means.
  \<open>normalise\<close> is the reading the deny rules are matched against, \<open>readings\<close> the three readings
  a decision is taken under. The lemmas say what a normalised path looks like, that resolving
  is idempotent, that the three readings stand or fall together, and that rewriting a path
  the way an attacker would does not change its normal form.
\<close>

section \<open>Refusals and decisions\<close>

datatype deny =
    MalformedUri
  | ApplicationDisabled
  | ExplicitDeny
  | NoMatchingGrant
  | MissingContext
  | AmbiguousSession
  | StoreUnavailable
  | AuthUnavailable

definition deny_all :: "deny list" where
  "deny_all = [MalformedUri, ApplicationDisabled, ExplicitDeny, NoMatchingGrant,
     MissingContext, AmbiguousSession, StoreUnavailable, AuthUnavailable]"

text \<open>The discriminant, \<open>reason as usize\<close>: the position in the declaration.\<close>

fun deny_index :: "deny \<Rightarrow> nat" where
  "deny_index MalformedUri = 0"
| "deny_index ApplicationDisabled = 1"
| "deny_index ExplicitDeny = 2"
| "deny_index NoMatchingGrant = 3"
| "deny_index MissingContext = 4"
| "deny_index AmbiguousSession = 5"
| "deny_index StoreUnavailable = 6"
| "deny_index AuthUnavailable = 7"

fun deny_str :: "deny \<Rightarrow> string" where
  "deny_str MalformedUri = ''malformed_uri''"
| "deny_str ApplicationDisabled = ''application_disabled''"
| "deny_str ExplicitDeny = ''explicit_deny''"
| "deny_str NoMatchingGrant = ''no_matching_grant''"
| "deny_str MissingContext = ''missing_context''"
| "deny_str AmbiguousSession = ''ambiguous_session''"
| "deny_str StoreUnavailable = ''store_unavailable''"
| "deny_str AuthUnavailable = ''auth_unavailable''"

datatype decision = Allow | Deny deny

fun as_pair :: "decision \<Rightarrow> string \<times> string" where
  "as_pair Allow = (''allow'', ''allowed'')"
| "as_pair (Deny reason) = (''deny'', deny_str reason)"

section \<open>Percent decoding\<close>

fun percent_decode :: "string \<Rightarrow> deny + string" where
  "percent_decode [] = Inr []"
| "percent_decode (c # cs) =
     (if c \<noteq> CHR ''%'' then and_then (percent_decode cs) (\<lambda>out. Inr (c # out))
      else (case cs of
              h # l # rest \<Rightarrow>
                (case to_digit16 h of
                   None \<Rightarrow> Inl MalformedUri
                 | Some hi \<Rightarrow>
                     (case to_digit16 l of
                        None \<Rightarrow> Inl MalformedUri
                      | Some lo \<Rightarrow>
                          and_then (percent_decode rest)
                            (\<lambda>out. Inr (char_of (hi * 16 + lo) # out))))
            | _ \<Rightarrow> Inl MalformedUri))"

text \<open>\<open>String::from_utf8(bytes).map_err(|_| Deny::MalformedUri)\<close>.\<close>

definition text_of_bytes :: "string \<Rightarrow> deny + string" where
  "text_of_bytes b = (if is_utf8 b then Inr b else Inl MalformedUri)"

section \<open>Resolving dot segments\<close>

definition resolve_step :: "string list \<Rightarrow> string \<Rightarrow> string list" where
  "resolve_step segments segment =
     (if segment = '''' \<or> segment = ''.'' then segments
      else if segment = ''..'' then butlast segments
      else segments @ [segment])"

definition resolve_segments :: "string \<Rightarrow> string list" where
  "resolve_segments path = foldl resolve_step [] (split_on CHR ''/'' path)"

definition resolve :: "string \<Rightarrow> string" where
  "resolve path =
     (let segments = resolve_segments path;
          out = ''/'' @ join_on CHR ''/'' segments
      in if segments \<noteq> []
            \<and> (suffix ''/'' path \<or> suffix ''/.'' path \<or> suffix ''/..'' path)
         then out @ ''/'' else out)"

section \<open>The readings of a request path\<close>

definition replace_backslash :: "string \<Rightarrow> string" where
  "replace_backslash s = map (\<lambda>c. if c = CHR 0x5C then CHR ''/'' else c) s"

definition normalise :: "string \<Rightarrow> deny + string" where
  "normalise raw_uri =
     (let path = first_piece CHR ''?'' raw_uri
      in if \<not> prefix ''/'' path \<or> List.member path CHR ''#'' then Inl MalformedUri
         else and_then (and_then (percent_decode path) text_of_bytes) (\<lambda>decoded.
           if List.member decoded CHR ''%'' then Inl MalformedUri
           else if list_ex is_control (chars_of decoded) then Inl MalformedUri
           else Inr (to_ascii_lowercase (resolve (replace_backslash decoded)))))"

text \<open>The closure \<open>decode\<close> of \<open>readings\<close>.\<close>

definition decode_resolved :: "string \<Rightarrow> deny + string" where
  "decode_resolved resolved =
     and_then (and_then (percent_decode resolved) text_of_bytes)
       (\<lambda>out. Inr (to_ascii_lowercase out))"

definition readings :: "string \<Rightarrow> deny + string list" where
  "readings raw_uri =
     and_then (normalise raw_uri) (\<lambda>decoded.
       let path = first_piece CHR ''?'' raw_uri;
           unparametered = map (first_piece CHR '';'') (split_on CHR ''/'' path)
       in and_then (decode_resolved (resolve path)) (\<lambda>second.
            and_then (decode_resolved (resolve (join_on CHR ''/'' unparametered))) (\<lambda>third.
              Inr [decoded, second, third])))"

section \<open>Percent decoding, piece by piece\<close>

text \<open>An escape never reaches across a byte that is neither \<open>%\<close> nor a hexadecimal digit.\<close>

definition is_separator :: "char \<Rightarrow> bool" where
  "is_separator x \<longleftrightarrow> x \<noteq> CHR ''%'' \<and> to_digit16 x = None \<and> byte x < 128"

lemma is_separator_simps [simp]: "is_separator CHR ''/''" "is_separator CHR '';''"
  by (simp_all add: is_separator_def to_digit16_def)

lemma percent_decode_error: "percent_decode s = Inl e \<Longrightarrow> e = MalformedUri"
proof (induction s rule: percent_decode.induct)
  case (2 c cs)
  show ?case
  proof (cases "c = CHR ''%''")
    case False
    with 2 show ?thesis by (cases "percent_decode cs") auto
  next
    case True
    show ?thesis
    proof (cases "\<exists>h l rest hi lo. cs = h # l # rest \<and> to_digit16 h = Some hi \<and> to_digit16 l = Some lo")
      case hex: True
      with 2 True show ?thesis by (cases "percent_decode (tl (tl cs))") auto
    next
      case False
      with "2.prems" True show ?thesis by (auto split: list.splits option.splits)
    qed
  qed
qed simp

lemma percent_decode_plain [text_simps]:
  "CHR ''%'' \<notin> set s \<Longrightarrow> percent_decode s = Inr s"
  by (induction s) auto

lemma percent_decode_append [text_simps]:
  "percent_decode a = Inr u \<Longrightarrow>
   percent_decode (a @ b) = and_then (percent_decode b) (\<lambda>v. Inr (u @ v))"
proof (induction a arbitrary: u rule: percent_decode.induct)
  case (2 c cs)
  then show ?case
    by (cases "percent_decode b")
      (auto simp: and_then_eq_Inr split: if_splits list.splits option.splits)
qed (cases "percent_decode b"; simp)

lemma percent_decode_error_append:
  assumes "is_separator x"
  shows "percent_decode a = Inl e \<Longrightarrow> percent_decode (a @ x # b) = Inl MalformedUri"
proof (induction a rule: percent_decode.induct)
  case (2 c cs)
  have x: "to_digit16 x = None" using assms by (simp add: is_separator_def)
  show ?case
  proof (cases "c = CHR ''%''")
    case False
    with 2 show ?thesis by (cases "percent_decode cs") auto
  next
    case True
    show ?thesis
    proof (cases "\<exists>h l rest. cs = h # l # rest")
      case long: True
      then obtain h l rest where cs: "cs = h # l # rest" by blast
      show ?thesis
      proof (cases "(\<exists>hi. to_digit16 h = Some hi) \<and> (\<exists>lo. to_digit16 l = Some lo)")
        case hex: True
        with 2 True cs show ?thesis by (cases "percent_decode rest") auto
      next
        case False
        with True cs show ?thesis by (auto split: option.splits)
      qed
    next
      case False
      then have "cs = [] \<or> (\<exists>h. cs = [h])" by (metis neq_Nil_conv)
      with True x show ?thesis by (auto split: list.split option.split)
    qed
  qed
qed simp

lemma percent_decode_sep_append [text_simps]:
  assumes "is_separator x"
  shows "percent_decode (a @ x # b) =
    and_then (percent_decode a) (\<lambda>u. and_then (percent_decode b) (\<lambda>v. Inr (u @ x # v)))"
proof (cases "percent_decode a")
  case (Inl e)
  with percent_decode_error [OF Inl] percent_decode_error_append [OF assms Inl] show ?thesis by simp
next
  case (Inr u)
  from assms have "percent_decode (x # b) = and_then (percent_decode b) (\<lambda>v. Inr (x # v))"
    by (simp add: is_separator_def)
  with percent_decode_append [OF Inr, of "x # b"] Inr show ?thesis
    by (cases "percent_decode b") simp_all
qed

text \<open>Escaping every byte is undone by decoding, whatever follows.\<close>

definition hex_char :: "nat \<Rightarrow> char" where
  "hex_char d = (if d < 10 then char_of (48 + d) else char_of (87 + d))"

definition percent_encode :: "string \<Rightarrow> string" where
  "percent_encode s =
     concat (map (\<lambda>c. [CHR ''%'', hex_char (byte c div 16), hex_char (byte c mod 16)]) s)"

lemma to_digit16_hex_char [simp]: "d < 16 \<Longrightarrow> to_digit16 (hex_char d) = Some d"
  by (auto simp: to_digit16_def hex_char_def Let_def)

lemma percent_decode_encode:
  "percent_decode (percent_encode s @ t) = and_then (percent_decode t) (\<lambda>v. Inr (s @ v))"
proof (induction s)
  case Nil
  then show ?case by (cases "percent_decode t") (simp_all add: percent_encode_def)
next
  case (Cons c s)
  have "byte c div 16 < 16" by (simp add: less_mult_imp_div_less)
  then show ?case using Cons
    by (cases "percent_decode t") (simp_all add: percent_encode_def)
qed

text \<open>A piece that decodes to text, and how the property distributes over a path.\<close>

definition decodes :: "string \<Rightarrow> bool" where
  "decodes p \<longleftrightarrow> is_ok (and_then (percent_decode p) text_of_bytes)"

lemma decodes_alt: "decodes p \<longleftrightarrow> (\<exists>u. percent_decode p = Inr u \<and> is_utf8 u)"
  by (cases "percent_decode p") (auto simp: decodes_def text_of_bytes_def)

lemma decodes_Nil [simp]: "decodes []"
  by (simp add: decodes_alt)

lemma decodes_append [text_simps]:
  assumes "is_separator x"
  shows "decodes (a @ x # b) \<longleftrightarrow> decodes a \<and> decodes b"
proof -
  have "byte x < 128" using assms by (simp add: is_separator_def)
  then show ?thesis
    by (cases "percent_decode a"; cases "percent_decode b")
      (auto simp: decodes_alt percent_decode_sep_append [OF assms] is_utf8_append)
qed

lemma decodes_Cons [text_simps]: "is_separator x \<Longrightarrow> decodes (x # b) \<longleftrightarrow> decodes b"
  using decodes_append [of x "[]" b] by simp

lemma decodes_join_on: "is_separator x \<Longrightarrow> decodes (join_on x ss) \<longleftrightarrow> (\<forall>s\<in>set ss. decodes s)"
  by (induction x ss rule: join_on.induct) (simp_all add: text_simps)

lemma decodes_split_on: "is_separator x \<Longrightarrow> decodes s \<longleftrightarrow> (\<forall>p\<in>set (split_on x s). decodes p)"
  using decodes_join_on [of x "split_on x s"] by simp

lemma decodes_first_piece: "is_separator x \<Longrightarrow> decodes s \<Longrightarrow> decodes (first_piece x s)"
  by (cases "split_on x s") (auto simp: decodes_split_on [of x s] first_piece_def)

section \<open>What resolving leaves\<close>

definition good_segment :: "string \<Rightarrow> bool" where
  "good_segment s \<longleftrightarrow> s \<noteq> '''' \<and> s \<noteq> ''.'' \<and> s \<noteq> ''..'' \<and> CHR ''/'' \<notin> set s"

lemma resolve_step_good:
  "\<forall>s\<in>set acc. good_segment s \<Longrightarrow> CHR ''/'' \<notin> set p \<Longrightarrow>
   \<forall>s\<in>set (resolve_step acc p). good_segment s"
  by (auto simp: resolve_step_def good_segment_def dest: in_set_butlastD)

lemma foldl_resolve_good:
  "\<forall>p\<in>set ps. CHR ''/'' \<notin> set p \<Longrightarrow> \<forall>s\<in>set acc. good_segment s \<Longrightarrow>
   \<forall>s\<in>set (foldl resolve_step acc ps). good_segment s"
proof (induction ps arbitrary: acc)
  case (Cons p ps)
  have "\<forall>s\<in>set (resolve_step acc p). good_segment s"
    by (rule resolve_step_good) (use Cons.prems in simp_all)
  then show ?case using Cons.IH Cons.prems by simp
qed simp

lemma resolve_segments_good: "s \<in> set (resolve_segments path) \<Longrightarrow> good_segment s"
  using foldl_resolve_good [of "split_on CHR ''/'' path" "[]"] split_on_pieces
  by (fastforce simp: resolve_segments_def)

lemma foldl_resolve_subset:
  "set (foldl resolve_step acc ps) \<subseteq> set acc \<union> set ps"
proof (induction ps arbitrary: acc)
  case (Cons p ps)
  have "set (resolve_step acc p) \<subseteq> insert p (set acc)"
    by (auto simp: resolve_step_def dest: in_set_butlastD)
  with Cons [of "resolve_step acc p"] show ?case by auto
qed simp

lemma resolve_segments_subset: "set (resolve_segments path) \<subseteq> set (split_on CHR ''/'' path)"
  using foldl_resolve_subset [of "[]"] by (simp add: resolve_segments_def)

lemma resolve_step_id: "good_segment g \<Longrightarrow> resolve_step acc g = acc @ [g]"
  by (simp add: resolve_step_def good_segment_def)

lemma foldl_resolve_id:
  "\<forall>g\<in>set gs. good_segment g \<Longrightarrow> foldl resolve_step acc gs = acc @ gs"
  by (induction gs arbitrary: acc) (simp_all add: resolve_step_id)

text \<open>
  A path names a directory when its last piece is empty, \<open>.\<close> or \<open>..\<close>: then \<open>resolve\<close> keeps a
  trailing slash.
\<close>

definition is_directory :: "string \<Rightarrow> bool" where
  "is_directory path \<longleftrightarrow> suffix ''/'' path \<or> suffix ''/.'' path \<or> suffix ''/..'' path"

lemma is_directory_append [text_simps]:
  assumes "c = CHR ''/''"
  shows "is_directory (u @ c # v) \<longleftrightarrow> last (split_on CHR ''/'' v) \<in> {'''', ''.'', ''..''}"
proof -
  have "suffix (CHR ''/'' # s) (u @ CHR ''/'' # v) \<longleftrightarrow> last (split_on CHR ''/'' v) = s"
    if "CHR ''/'' \<notin> set s" for s
  proof -
    obtain ss x where v: "split_on CHR ''/'' v = ss @ [x]"
      by (metis rev_exhaust split_on_not_Nil(1))
    then show ?thesis using that by (auto simp: suffix_sep_iff text_simps)
  qed
  from this [of "[]"] this [of "''.''"] this [of "''..''"] assms show ?thesis
    by (auto simp: is_directory_def)
qed

lemma resolve_alt:
  "resolve path = ''/'' @ join_on CHR ''/'' (resolve_segments path) @
     (if resolve_segments path \<noteq> [] \<and> is_directory path then ''/'' else '''')"
  by (simp add: resolve_def is_directory_def Let_def)

lemma prefix_resolve [simp]: "prefix ''/'' (resolve path)"
  by (simp add: resolve_alt)

lemma resolve_segments_append [text_simps]:
  "resolve_segments (u @ CHR ''/'' # v) =
     foldl resolve_step (resolve_segments u) (split_on CHR ''/'' v)"
  by (simp add: resolve_segments_def text_simps)

lemma resolve_segments_join_good:
  "\<forall>g\<in>set gs. good_segment g \<Longrightarrow> resolve_segments (join_on CHR ''/'' gs) = gs"
proof (cases "gs = []")
  case True
  then show ?thesis by (simp add: resolve_segments_def resolve_step_def)
next
  case False
  assume "\<forall>g\<in>set gs. good_segment g"
  moreover from this have "split_on CHR ''/'' (join_on CHR ''/'' gs) = gs"
    using False by (intro split_join) (auto simp: good_segment_def)
  ultimately show ?thesis by (simp add: resolve_segments_def foldl_resolve_id)
qed

lemma resolve_step_empty [simp]: "resolve_step segs '''' = segs"
  by (simp add: resolve_step_def)

lemma resolve_segments_Cons [simp]:
  "resolve_segments (CHR ''/'' # v) = resolve_segments v"
  by (simp add: resolve_segments_def)

lemma resolve_segments_snoc [simp]:
  "resolve_segments (v @ ''/'') = resolve_segments v"
  using resolve_segments_append [of v "[]"] by simp

lemma resolve_segments_resolve [simp]:
  "resolve_segments (resolve path) = resolve_segments path"
proof -
  have "\<forall>g\<in>set (resolve_segments path). good_segment g" using resolve_segments_good by blast
  then show ?thesis
    using resolve_segments_snoc [of "join_on CHR ''/'' (resolve_segments path)"]
    by (simp add: resolve_alt resolve_segments_join_good)
qed

lemma is_directory_resolve:
  assumes "resolve_segments path \<noteq> []"
  shows "is_directory (resolve path) \<longleftrightarrow> is_directory path"
proof -
  let ?s = "resolve_segments path"
  let ?j = "join_on CHR ''/'' ?s"
  have good: "\<forall>g\<in>set ?s. good_segment g" using resolve_segments_good by blast
  have "split_on CHR ''/'' ?j = ?s"
    using assms good by (intro split_join) (auto simp: good_segment_def)
  moreover have "good_segment (last ?s)" using good assms by simp
  ultimately have "\<not> is_directory (CHR ''/'' # ?j)"
    using is_directory_append [OF refl, of "[]" ?j] by (simp add: good_segment_def)
  moreover have "is_directory (CHR ''/'' # ?j @ ''/'')"
    using is_directory_append [OF refl, of "CHR ''/'' # ?j" "[]"] by simp
  ultimately show ?thesis using assms by (simp add: resolve_alt)
qed

lemma resolve_idem [simp]: "resolve (resolve path) = resolve path"
  by (cases "resolve_segments path = []")
    (simp_all add: resolve_alt [of "resolve path"] is_directory_resolve,
     simp_all add: resolve_alt)

text \<open>What resolving preserves: the alphabet, well-formedness, decodability, the case fold.\<close>

lemma set_resolve: "set (resolve path) \<subseteq> insert CHR ''/'' (set path)"
proof -
  have "set g \<subseteq> set path" if "g \<in> set (resolve_segments path)" for g
    using that resolve_segments_subset split_on_set by fastforce
  then show ?thesis
    using set_join_on [of "CHR ''/''" "resolve_segments path"] by (fastforce simp: resolve_alt)
qed

lemma slash_plain [simp]: "byte CHR ''/'' < 128" "\<not> is_control (byte CHR ''/'')"
  "\<not> is_ascii_uppercase CHR ''/''" "\<not> is_ascii_lowercase CHR ''/''"
  by (simp_all add: is_control_def is_ascii_uppercase_def is_ascii_lowercase_def)

lemma clean_resolve: "clean path \<Longrightarrow> clean (resolve path)"
proof -
  assume "clean path"
  then have "\<forall>p\<in>set (split_on CHR ''/'' path). clean p"
    using clean_split_on [OF slash_plain(1,2)] by blast
  then have "clean (join_on CHR ''/'' (resolve_segments path))"
    using resolve_segments_subset clean_join_on [OF slash_plain(1,2)] by blast
  then show ?thesis
    using clean_append [OF slash_plain(1,2), of "CHR ''/'' # join_on CHR ''/'' (resolve_segments path)" "[]"]
    by (simp add: resolve_alt clean_Cons [OF slash_plain(1,2)])
qed

lemma decodes_resolve: "decodes path \<Longrightarrow> decodes (resolve path)"
proof -
  assume "decodes path"
  then have "\<forall>p\<in>set (split_on CHR ''/'' path). decodes p"
    using decodes_split_on [OF is_separator_simps(1)] by blast
  then have "decodes (join_on CHR ''/'' (resolve_segments path))"
    using resolve_segments_subset decodes_join_on [OF is_separator_simps(1)] by blast
  then show ?thesis
    using decodes_append [of "CHR ''/''" "CHR ''/'' # join_on CHR ''/'' (resolve_segments path)" "[]"]
    by (simp add: resolve_alt decodes_Cons)
qed

lemma lower_is_dot [simp]:
  "to_ascii_lowercase s = ''.'' \<longleftrightarrow> s = ''.''"
  "to_ascii_lowercase s = ''..'' \<longleftrightarrow> s = ''..''"
proof -
  have "lower_byte c = CHR ''.'' \<longleftrightarrow> c = CHR ''.''" for c
    by (rule lower_byte_eq_iff) (simp_all add: is_ascii_uppercase_def is_ascii_lowercase_def)
  then show "to_ascii_lowercase s = ''.'' \<longleftrightarrow> s = ''.''"
    "to_ascii_lowercase s = ''..'' \<longleftrightarrow> s = ''..''"
    by (auto simp: to_ascii_lowercase_def map_eq_Cons_conv)
qed

lemma foldl_resolve_lower:
  "foldl resolve_step (map to_ascii_lowercase acc) (map to_ascii_lowercase ps) =
   map to_ascii_lowercase (foldl resolve_step acc ps)"
proof (induction ps arbitrary: acc)
  case (Cons p ps)
  have "resolve_step (map to_ascii_lowercase acc) (to_ascii_lowercase p) =
      map to_ascii_lowercase (resolve_step acc p)"
    by (simp add: resolve_step_def map_butlast)
  with Cons show ?case by simp
qed simp

lemma resolve_segments_lower:
  "resolve_segments (to_ascii_lowercase path) = map to_ascii_lowercase (resolve_segments path)"
  using foldl_resolve_lower [of "[]" "split_on CHR ''/'' path"]
  by (simp add: resolve_segments_def split_on_lowercase)

lemma is_directory_lower: "is_directory (to_ascii_lowercase path) \<longleftrightarrow> is_directory path"
proof (cases "CHR ''/'' \<in> set path")
  case True
  then obtain u v where p: "path = u @ CHR ''/'' # v" by (meson split_list)
  have low: "lower_byte CHR ''/'' = CHR ''/''" by (simp add: lower_byte_id)
  have "last (split_on CHR ''/'' (to_ascii_lowercase v)) = to_ascii_lowercase (last (split_on CHR ''/'' v))"
    by (simp add: split_on_lowercase last_map)
  then show ?thesis using low by (simp add: p is_directory_append)
next
  case False
  moreover from this have "CHR ''/'' \<notin> set (to_ascii_lowercase path)"
    by (simp add: sep_in_lowercase_iff)
  ultimately show ?thesis
    by (auto simp: is_directory_def suffix_def)
qed

lemma resolve_lower: "resolve (to_ascii_lowercase path) = to_ascii_lowercase (resolve path)"
  by (simp add: resolve_alt resolve_segments_lower is_directory_lower join_on_lowercase lower_byte_id)

section \<open>The normal form\<close>

definition norm_text :: "string \<Rightarrow> string" where
  "norm_text decoded = to_ascii_lowercase (resolve (replace_backslash decoded))"

lemma set_replace_backslash: "set (replace_backslash s) \<subseteq> insert CHR ''/'' (set s - {CHR 0x5C})"
  by (auto simp: replace_backslash_def)

lemma replace_backslash_id: "CHR 0x5C \<notin> set s \<Longrightarrow> replace_backslash s = s"
  by (auto simp: replace_backslash_def intro: map_idI)

lemma replace_backslash_simps [simp]:
  "replace_backslash (s @ t) = replace_backslash s @ replace_backslash t"
  "replace_backslash (c # s) = (if c = CHR 0x5C then CHR ''/'' else c) # replace_backslash s"
  "replace_backslash [] = []"
  by (simp_all add: replace_backslash_def)

lemma clean_replace_backslash: "clean s \<Longrightarrow> clean (replace_backslash s)"
  unfolding replace_backslash_def
  by (rule clean_map) (auto simp: is_control_def split: if_splits)

lemma clean_norm_text: "clean d \<Longrightarrow> clean (norm_text d)"
  by (simp add: norm_text_def clean_to_ascii_lowercase clean_resolve clean_replace_backslash)

text \<open>
  \<open>normalise\<close> in one line: the path before the query starts with a slash, holds no \<open>#\<close>, and
  decodes to clean text without a \<open>%\<close>; the answer is then the normal form of that text.
\<close>

lemma normalise_eq_Inr:
  "normalise raw = Inr q \<longleftrightarrow>
     (\<exists>d. prefix ''/'' (first_piece CHR ''?'' raw) \<and> CHR ''#'' \<notin> set (first_piece CHR ''?'' raw)
        \<and> percent_decode (first_piece CHR ''?'' raw) = Inr d
        \<and> clean d \<and> CHR ''%'' \<notin> set d \<and> q = norm_text d)"
  by (cases "percent_decode (first_piece CHR ''?'' raw)")
    (auto simp: normalise_def Let_def text_of_bytes_def clean_def norm_text_def)

lemma normalise_error: "normalise raw = Inl e \<Longrightarrow> e = MalformedUri"
  by (cases "percent_decode (first_piece CHR ''?'' raw)")
    (auto simp: normalise_def Let_def text_of_bytes_def dest: percent_decode_error split: if_splits)

definition canonical :: "string \<Rightarrow> bool" where
  "canonical q \<longleftrightarrow> prefix ''/'' q \<and> resolve q = q \<and> to_ascii_lowercase q = q \<and> clean q
     \<and> CHR ''%'' \<notin> set q \<and> CHR 0x5C \<notin> set q"

lemma symbol_in_lower [simp]:
  "CHR ''%'' \<in> set (to_ascii_lowercase s) \<longleftrightarrow> CHR ''%'' \<in> set s"
  "CHR 0x5C \<in> set (to_ascii_lowercase s) \<longleftrightarrow> CHR 0x5C \<in> set s"
  by (rule sep_in_lowercase_iff; simp add: is_ascii_uppercase_def is_ascii_lowercase_def)+

lemma canonical_norm_text:
  assumes "clean d" "CHR ''%'' \<notin> set d"
  shows "canonical (norm_text d)"
proof -
  have "prefix ''/'' (norm_text d)"
    by (simp add: norm_text_def resolve_alt lower_byte_id)
  moreover have "resolve (norm_text d) = norm_text d"
    by (simp add: norm_text_def resolve_lower)
  moreover have "set (resolve (replace_backslash d)) \<subseteq> insert CHR ''/'' (set d - {CHR 0x5C})"
    using set_resolve set_replace_backslash by fastforce
  ultimately show ?thesis
    using assms by (auto simp: canonical_def norm_text_def clean_norm_text [unfolded norm_text_def])
qed

lemma normalise_canonical: "normalise raw = Inr q \<Longrightarrow> canonical q"
  by (auto simp: normalise_eq_Inr canonical_norm_text)

lemma norm_text_canonical: "canonical q \<Longrightarrow> norm_text q = q"
  by (simp add: canonical_def norm_text_def replace_backslash_id)

lemma normalise_fixpoint:
  "canonical q \<Longrightarrow> CHR ''?'' \<notin> set q \<Longrightarrow> CHR ''#'' \<notin> set q \<Longrightarrow> normalise q = Inr q"
  using norm_text_canonical [of q] percent_decode_plain [of q] first_piece_no_sep [of "CHR ''?''" q]
  by (auto simp: normalise_eq_Inr canonical_def)

section \<open>The three readings\<close>

lemma decode_resolved_ok: "is_ok (decode_resolved p) \<longleftrightarrow> decodes p"
  by (cases "percent_decode p") (auto simp: decode_resolved_def decodes_def text_of_bytes_def)

lemma normalise_decodes: "normalise raw = Inr q \<Longrightarrow> decodes (first_piece CHR ''?'' raw)"
  by (auto simp: normalise_eq_Inr decodes_alt clean_def)

lemma decodes_unparametered:
  assumes "decodes path"
  shows "decodes (join_on CHR ''/'' (map (first_piece CHR '';'') (split_on CHR ''/'' path)))"
proof -
  have "\<forall>p\<in>set (split_on CHR ''/'' path). decodes (first_piece CHR '';'' p)"
    using assms decodes_split_on [OF is_separator_simps(1)]
      decodes_first_piece [OF is_separator_simps(2)] by blast
  then show ?thesis by (simp add: decodes_join_on)
qed

text \<open>
  The second and third reading never fail on their own: cutting at \<open>/\<close> and \<open>;\<close> and dropping
  segments keeps every escape and every encoded character whole.
\<close>

lemma readings_total:
  assumes "normalise raw = Inr q"
  obtains second third where "readings raw = Inr [q, second, third]"
    "decode_resolved (resolve (first_piece CHR ''?'' raw)) = Inr second"
    "decode_resolved (resolve (join_on CHR ''/''
       (map (first_piece CHR '';'') (split_on CHR ''/'' (first_piece CHR ''?'' raw))))) = Inr third"
proof -
  have d: "decodes (first_piece CHR ''?'' raw)" using assms by (rule normalise_decodes)
  have "is_ok (decode_resolved (resolve (first_piece CHR ''?'' raw)))"
    "is_ok (decode_resolved (resolve (join_on CHR ''/''
       (map (first_piece CHR '';'') (split_on CHR ''/'' (first_piece CHR ''?'' raw))))))"
    by (simp_all add: decode_resolved_ok decodes_resolve decodes_unparametered d)
  with assms that show ?thesis
    by (auto simp: is_ok_iff readings_def Let_def)
qed

lemma readings_eq_Inr:
  "readings raw = Inr ps \<Longrightarrow> \<exists>q second third. ps = [q, second, third] \<and> normalise raw = Inr q"
  by (auto simp: readings_def and_then_eq_Inr Let_def)

lemma readings_error:
  "readings raw = Inl e \<longleftrightarrow> normalise raw = Inl e"
proof (cases "normalise raw")
  case (Inl f)
  then show ?thesis by (simp add: readings_def)
next
  case (Inr q)
  then show ?thesis using readings_total [OF Inr] by (metis sum.distinct(1))
qed

section \<open>Rewriting a path\<close>

text \<open>
  The ways one path can be written differently, as steps on the raw request path: a byte is
  percent-encoded, a letter changes case, a slash is doubled, becomes a backslash, or is
  followed by \<open>./\<close> or by a segment that \<open>../\<close> takes back. Each step happens at a place that is
  not inside an escape (\<open>a\<close> decodes on its own) and brings in neither \<open>?\<close> nor \<open>#\<close>, which end
  the path.
\<close>

definition outside_escape :: "string \<Rightarrow> bool" where
  "outside_escape a \<longleftrightarrow> is_ok (percent_decode a)"

definition path_byte :: "char \<Rightarrow> bool" where
  "path_byte c \<longleftrightarrow> c \<noteq> CHR ''?'' \<and> c \<noteq> CHR ''#'' \<and> c \<noteq> CHR ''%''"

inductive rewritten :: "string \<Rightarrow> string \<Rightarrow> bool" where
  encode_byte: "outside_escape a \<Longrightarrow> a \<noteq> [] \<Longrightarrow> path_byte c \<Longrightarrow>
    rewritten (a @ c # b) (a @ percent_encode [c] @ b)"
| change_case: "outside_escape a \<Longrightarrow> path_byte c \<Longrightarrow> path_byte d \<Longrightarrow> lower_byte c = lower_byte d \<Longrightarrow>
    rewritten (a @ c # b) (a @ d # b)"
| backslash: "outside_escape a \<Longrightarrow> a \<noteq> [] \<Longrightarrow>
    rewritten (a @ CHR ''/'' # b) (a @ CHR 0x5C # b)"
| double_slash: "outside_escape a \<Longrightarrow>
    rewritten (a @ CHR ''/'' # b) (a @ ''//'' @ b)"
| dot_segment: "outside_escape a \<Longrightarrow>
    rewritten (a @ CHR ''/'' # b) (a @ ''/./'' @ b)"
| parent_segment: "outside_escape a \<Longrightarrow> good_segment x \<Longrightarrow> \<forall>c\<in>set x. path_byte c \<and> c \<noteq> CHR 0x5C \<Longrightarrow>
    clean x \<Longrightarrow>
    rewritten (a @ CHR ''/'' # b) (a @ ''/'' @ x @ ''/../'' @ b)"

text \<open>The same steps on the decoded text leave its normal form alone.\<close>

lemma resolve_insert:
  assumes "\<And>segs. foldl resolve_step segs (split_on CHR ''/'' w) = segs"
  shows "resolve (u @ CHR ''/'' # w @ CHR ''/'' # v) = resolve (u @ CHR ''/'' # v)"
proof -
  have "resolve_segments (u @ CHR ''/'' # w @ CHR ''/'' # v) = resolve_segments (u @ CHR ''/'' # v)"
    using assms by (simp add: resolve_segments_append split_on_sep_append)
  moreover have "is_directory (u @ CHR ''/'' # w @ CHR ''/'' # v) = is_directory (u @ CHR ''/'' # v)"
    using is_directory_append [OF refl, of "u @ CHR ''/'' # w" v] is_directory_append [OF refl, of u v]
    by simp
  ultimately show ?thesis by (simp add: resolve_alt)
qed

lemma norm_text_insert:
  assumes "\<And>segs. foldl resolve_step segs (split_on CHR ''/'' w) = segs" "CHR 0x5C \<notin> set w"
  shows "norm_text (u @ CHR ''/'' # w @ CHR ''/'' # v) = norm_text (u @ CHR ''/'' # v)"
  using resolve_insert [OF assms(1), of "replace_backslash u" "replace_backslash v"]
  by (simp add: norm_text_def replace_backslash_id [OF assms(2)])

lemma norm_text_case:
  assumes "lower_byte c = lower_byte d" "c \<noteq> CHR 0x5C" "d \<noteq> CHR 0x5C"
  shows "norm_text (u @ c # v) = norm_text (u @ d # v)"
  using assms by (simp add: norm_text_def flip: resolve_lower)

lemma percent_decode_in_context:
  assumes "outside_escape a" "percent_decode m = Inr w" "percent_decode m' = Inr w'"
    "percent_decode (a @ m @ b) = Inr d"
  obtains u v where "d = u @ w @ v" "percent_decode (a @ m' @ b) = Inr (u @ w' @ v)"
    "percent_decode a = Inr u"
proof -
  obtain u where u: "percent_decode a = Inr u" using assms(1) by (auto simp: outside_escape_def is_ok_iff)
  have split: "percent_decode (a @ k @ b) = and_then (percent_decode b) (\<lambda>v. Inr (u @ x @ v))"
    if "percent_decode k = Inr x" for k x
    using percent_decode_append [OF u, of "k @ b"] percent_decode_append [OF that, of b]
    by (cases "percent_decode b") simp_all
  obtain v where "percent_decode b = Inr v" "d = u @ w @ v"
    using split [OF assms(2)] assms(4) by (cases "percent_decode b") auto
  with split [OF assms(3)] u that show ?thesis by simp
qed

lemma first_piece_context:
  "c \<notin> set m \<Longrightarrow> first_piece c (a @ m @ b) =
     (if c \<in> set a then first_piece c a else a @ m @ first_piece c b)"
proof (cases "c \<in> set a")
  case True
  then obtain a1 a2 where "a = a1 @ c # a2" "c \<notin> set a1" by (meson split_list_first)
  with True show ?thesis by (simp add: first_piece_append_sep)
next
  case False
  assume "c \<notin> set m"
  with False have "takeWhile (\<lambda>x. x \<noteq> c) (a @ m @ b) = a @ m @ takeWhile (\<lambda>x. x \<noteq> c) b"
    by (metis (mono_tags, lifting) takeWhile_append2)
  with False show ?thesis by (simp add: first_piece_takeWhile)
qed

lemma normalise_rewrite:
  assumes "normalise (a @ m @ b) = Inr q" "outside_escape a"
    "percent_decode m = Inr w" "percent_decode m' = Inr w'"
    "CHR ''?'' \<notin> set m" "CHR ''?'' \<notin> set m'" "CHR ''#'' \<notin> set m'"
    "a = [] \<Longrightarrow> prefix ''/'' m'"
    and keep: "\<And>u v. clean (u @ w @ v) \<Longrightarrow> clean (u @ w' @ v) \<and> norm_text (u @ w' @ v) = norm_text (u @ w @ v)"
    and percent: "CHR ''%'' \<notin> set w'"
  shows "normalise (a @ m' @ b) = Inr q"
proof (cases "CHR ''?'' \<in> set a")
  case True
  then have "first_piece CHR ''?'' (a @ m' @ b) = first_piece CHR ''?'' (a @ m @ b)"
    using assms by (simp add: first_piece_context)
  then show ?thesis using assms(1) by (simp add: normalise_eq_Inr)
next
  case False
  let ?b = "first_piece CHR ''?'' b"
  have path: "first_piece CHR ''?'' (a @ m @ b) = a @ m @ ?b"
    "first_piece CHR ''?'' (a @ m' @ b) = a @ m' @ ?b"
    using False assms by (simp_all add: first_piece_context)
  obtain d where d: "prefix ''/'' (a @ m @ ?b)" "CHR ''#'' \<notin> set (a @ m @ ?b)"
    "percent_decode (a @ m @ ?b) = Inr d" "clean d" "CHR ''%'' \<notin> set d" "q = norm_text d"
    using assms(1) unfolding normalise_eq_Inr path by blast
  obtain u v where uv: "d = u @ w @ v" "percent_decode (a @ m' @ ?b) = Inr (u @ w' @ v)"
    using percent_decode_in_context [OF assms(2-4) d(3)] by blast
  have "prefix ''/'' (a @ m' @ ?b)"
    using d(1) assms(8) by (cases a) (auto simp: prefix_def)
  then show ?thesis
    using uv d keep [of u v] percent assms(7) unfolding normalise_eq_Inr path
    by (intro exI [of _ "u @ w' @ v"]) auto
qed

lemma hex_char_plain: "d < 16 \<Longrightarrow> hex_char d \<noteq> CHR ''?'' \<and> hex_char d \<noteq> CHR ''#''"
proof -
  assume "d < 16"
  then have "byte (hex_char d) \<noteq> 63" "byte (hex_char d) \<noteq> 35" by (auto simp: hex_char_def)
  then show ?thesis by auto
qed

lemma percent_encode_plain:
  "CHR ''?'' \<notin> set (percent_encode s)" "CHR ''#'' \<notin> set (percent_encode s)"
proof -
  have "byte c div 16 < 16" for c by (simp add: less_mult_imp_div_less)
  then show "CHR ''?'' \<notin> set (percent_encode s)" "CHR ''#'' \<notin> set (percent_encode s)"
    using hex_char_plain by (auto simp: percent_encode_def) (metis mod_less_divisor zero_less_numeral)+
qed

lemma same_lower_cases:
  assumes "lower_byte c = lower_byte d"
  shows "c = d \<or> (byte c < 128 \<and> byte d < 128 \<and> \<not> is_control (byte c) \<and> \<not> is_control (byte d)
     \<and> c \<noteq> CHR 0x5C \<and> d \<noteq> CHR 0x5C)"
proof (cases "is_ascii_uppercase c \<or> is_ascii_uppercase d")
  case False
  then show ?thesis using assms by (simp add: lower_byte_id)
next
  case True
  have "byte (lower_byte c) = byte (lower_byte d)" using assms by simp
  moreover have "byte CHR 0x5C = 92" by simp
  ultimately show ?thesis using True
    by (auto simp: byte_lower is_ascii_uppercase_def is_control_def split: if_splits)
qed

lemma clean_replace:
  "byte c < 128 \<Longrightarrow> byte d < 128 \<Longrightarrow> \<not> is_control (byte c) \<Longrightarrow> \<not> is_control (byte d) \<Longrightarrow>
   clean (u @ c # v) \<Longrightarrow> clean (u @ d # v)"
  by (simp add: clean_append)

theorem normalise_rewritten:
  assumes "rewritten r r'" "normalise r = Inr q"
  shows "normalise r' = Inr q"
  using assms
proof (induction rule: rewritten.induct)
  case (encode_byte a c b)
  have "percent_decode [c] = Inr [c]" using encode_byte by (simp add: path_byte_def)
  moreover have "percent_decode (percent_encode [c]) = Inr [c]"
    using percent_decode_encode [of "[c]" "[]"] by simp
  ultimately show ?case
    using encode_byte normalise_rewrite [of a "[c]" b q "[c]" "percent_encode [c]" "[c]"]
    by (auto simp: percent_encode_plain path_byte_def)
next
  case (change_case a c d b)
  have "percent_decode [c] = Inr [c]" "percent_decode [d] = Inr [d]"
    using change_case by (simp_all add: path_byte_def)
  moreover have "clean (u @ [d] @ v) \<and> norm_text (u @ [d] @ v) = norm_text (u @ [c] @ v)"
    if "clean (u @ [c] @ v)" for u v
    using that same_lower_cases [OF change_case(4)] clean_replace [of c d u v]
      norm_text_case [OF change_case(4), of u v] by auto
  moreover have "a = [] \<Longrightarrow> prefix ''/'' [d]"
  proof -
    assume "a = []"
    then have "c = CHR ''/''"
      using change_case by (auto simp: normalise_eq_Inr first_piece_takeWhile path_byte_def)
    then have "lower_byte d = CHR ''/''" using change_case(4) by (simp add: lower_byte_id)
    then have "d = CHR ''/''" by (subst (asm) lower_byte_eq_iff) simp_all
    then show ?thesis by simp
  qed
  ultimately show ?case
    using change_case normalise_rewrite [of a "[c]" b q "[c]" "[d]" "[d]"]
    by (auto simp: path_byte_def)
next
  case (backslash a b)
  have "clean (u @ CHR 0x5C # v) \<and> norm_text (u @ CHR 0x5C # v) = norm_text (u @ CHR ''/'' # v)"
    if "clean (u @ CHR ''/'' # v)" for u v
    using that clean_replace [of "CHR ''/''" "CHR 0x5C" u v]
    by (simp add: norm_text_def is_control_def)
  then show ?case
    using backslash normalise_rewrite [of a "''/''" b q "''/''" "[CHR 0x5C]" "[CHR 0x5C]"] by simp
next
  case (double_slash a b)
  have "clean (u @ ''//'' @ v) \<and> norm_text (u @ ''//'' @ v) = norm_text (u @ ''/'' @ v)"
    if "clean (u @ ''/'' @ v)" for u v
    using that norm_text_insert [of "[]" u v] clean_append [OF slash_plain(1,2)]
      clean_Cons [OF slash_plain(1,2)] by simp
  then show ?case
    using double_slash normalise_rewrite [of a "''/''" b q "''/''" "''//''" "''//''"] by simp
next
  case (dot_segment a b)
  have "clean (u @ ''/./'' @ v) \<and> norm_text (u @ ''/./'' @ v) = norm_text (u @ ''/'' @ v)"
    if "clean (u @ ''/'' @ v)" for u v
    using that norm_text_insert [of "''.''" u v] clean_append [OF slash_plain(1,2)]
      clean_append [of "CHR ''.''" "[]"]  clean_Cons [OF slash_plain(1,2)]
    by (simp add: resolve_step_def clean_Cons is_control_def)
  then show ?case
    using dot_segment normalise_rewrite [of a "''/''" b q "''/''" "''/./''" "''/./''"] by simp
next
  case (parent_segment a x b)
  let ?m = "''/'' @ x @ ''/../''"
  have pct: "CHR ''%'' \<notin> set x" "CHR ''?'' \<notin> set x" "CHR ''#'' \<notin> set x" "CHR 0x5C \<notin> set x"
    using parent_segment by (auto simp: path_byte_def)
  have fold: "foldl resolve_step segs (split_on CHR ''/'' (x @ ''/..'')) = segs" for segs
    using parent_segment(2) split_on_sep_append [of "CHR ''/''" x "''..''"]
    by (simp add: good_segment_def resolve_step_def split_on_no_sep)
  have "clean (u @ ?m @ v) \<and> norm_text (u @ ?m @ v) = norm_text (u @ ''/'' @ v)"
    if "clean (u @ ''/'' @ v)" for u v
    using that parent_segment(4) norm_text_insert [OF fold, of u v] pct
      clean_append [OF slash_plain(1,2), of u "x @ ''/../'' @ v"] clean_append [OF slash_plain(1,2), of u v]
      clean_append [OF slash_plain(1,2), of x "''../'' @ v"]
    by (simp add: clean_Cons is_control_def)
  then show ?case
    using parent_segment pct normalise_rewrite [of a "''/''" b q "''/''" ?m ?m]
    by (simp add: percent_decode_plain)
qed

end
