(* ===== verification/Policy.thy ===== *)
theory Policy
  imports Uri
begin

text \<open>
  The second half of \<open>policy.rs\<close>: entitlement rules, the decision over the three readings of a
  path, the explain trace, and the group tests of the management plane. The matcher is refined
  to a prefix test on segments, the decision to a statement about the set of live rules.
\<close>

section \<open>Rules\<close>

text \<open>\<open>DateTime<Utc>\<close> is only compared: an instant is an integer number of nanoseconds.\<close>

type_synonym time = int

datatype effect = Effect_Allow | Effect_Deny

record rule =
  effect :: effect
  path_pattern :: string
  expires_at :: "time option"

text \<open>The closure \<open>live\<close> of \<open>decide_path\<close>: \<open>expires_at.is_none_or(|e| e > now)\<close>.\<close>

definition live :: "time \<Rightarrow> rule \<Rightarrow> bool" where
  "live now r = (case expires_at r of None \<Rightarrow> True | Some e \<Rightarrow> e > now)"

definition matches :: "string \<Rightarrow> string \<Rightarrow> bool" where
  "matches pattern path =
     (let base = trim_end_on (\<lambda>c. c = CHR ''/'')
            (to_ascii_lowercase (resolve (trim_end_on (\<lambda>c. c = CHR ''*'') pattern)))
      in base = '''' \<or> path = base
         \<or> (prefix base path \<and> prefix ''/'' (drop (length base) path)))"

definition decide_path :: "rule list \<Rightarrow> string \<Rightarrow> time \<Rightarrow> decision" where
  "decide_path rules path now =
     (if list_ex (\<lambda>r. effect r = Effect_Deny \<and> matches (path_pattern r) path)
           (filter (live now) rules) then Deny ExplicitDeny
      else if list_ex (\<lambda>r. effect r = Effect_Allow \<and> matches (path_pattern r) path)
           (filter (live now) rules) then Allow
      else Deny NoMatchingGrant)"

definition decide :: "bool \<Rightarrow> rule list \<Rightarrow> string \<Rightarrow> time \<Rightarrow> decision" where
  "decide app_enabled rules raw_uri now =
     (case readings raw_uri of
        Inl reason \<Rightarrow> Deny reason
      | Inr paths \<Rightarrow>
          if \<not> app_enabled then Deny ApplicationDisabled
          else (let decisions = map (\<lambda>path. decide_path rules path now) paths
                in case find (\<lambda>d. d = Deny ExplicitDeny) decisions of
                     Some d \<Rightarrow> d
                   | None \<Rightarrow> (case find (\<lambda>d. d \<noteq> Allow) decisions of
                                Some d \<Rightarrow> d
                              | None \<Rightarrow> Allow)))"

section \<open>The explain trace\<close>

record rule_trace =
  matched :: bool
  expired :: bool

record trace =
  trace_decision :: decision
  trace_path :: "string option"
  trace_rules :: "rule_trace list"

definition explain :: "bool \<Rightarrow> rule list \<Rightarrow> string \<Rightarrow> time \<Rightarrow> trace" where
  "explain app_enabled rules raw_uri now =
     (let path = (case normalise raw_uri of Inl _ \<Rightarrow> None | Inr p \<Rightarrow> Some p)
      in \<lparr>trace_decision = decide app_enabled rules raw_uri now,
          trace_path = path,
          trace_rules =
            map (\<lambda>r. \<lparr>matched = (case path of None \<Rightarrow> False
                                    | Some p \<Rightarrow> matches (path_pattern r) p),
                      expired = (case expires_at r of None \<Rightarrow> False | Some e \<Rightarrow> e \<le> now)\<rparr>)
              rules\<rparr>)"

section \<open>Groups\<close>

definition in_group :: "string list \<Rightarrow> string \<Rightarrow> bool" where
  "in_group groups name \<longleftrightarrow> name \<noteq> '''' \<and> list_ex (\<lambda>g. g = name) groups"

definition may_manage :: "string list \<Rightarrow> string \<Rightarrow> string \<Rightarrow> bool \<Rightarrow> bool" where
  "may_manage groups admin_group auditor_group reads \<longleftrightarrow>
     in_group groups admin_group \<or> (reads \<and> in_group groups auditor_group)"

definition may_reset_second_factor ::
  "string \<Rightarrow> string \<Rightarrow> string list \<Rightarrow> string \<Rightarrow> string \<Rightarrow> string + unit" where
  "may_reset_second_factor caller_sub target_sub target_groups admin_group auditor_group =
     (if caller_sub = target_sub then
        Inl ''an admin cannot reset their own second factor''
      else if in_group target_groups admin_group \<or> in_group target_groups auditor_group then
        Inl ''a management-plane account's second factor is reset at the Keycloak console, not here''
      else Inr ())"

section \<open>Matching is a prefix test on segments\<close>

definition pattern_segments :: "string \<Rightarrow> string list" where
  "pattern_segments pattern =
     map to_ascii_lowercase (resolve_segments (trim_end_on (\<lambda>c. c = CHR ''*'') pattern))"

text \<open>The segments of a path that starts with a slash.\<close>

definition path_segments :: "string \<Rightarrow> string list" where
  "path_segments path = tl (split_on CHR ''/'' path)"

definition covers :: "string \<Rightarrow> string \<Rightarrow> bool" where
  "covers pattern path \<longleftrightarrow> prefix (pattern_segments pattern) (path_segments path)"

lemma pattern_segments_good: "s \<in> set (pattern_segments pattern) \<Longrightarrow> good_segment s"
  by (auto simp: pattern_segments_def good_segment_def sep_in_lowercase_iff
      dest!: resolve_segments_good)

lemma last_join_good:
  "gs \<noteq> [] \<Longrightarrow> \<forall>g\<in>set gs. good_segment g \<Longrightarrow> last (CHR ''/'' # join_on CHR ''/'' gs) \<noteq> CHR ''/''"
proof -
  assume gs: "gs \<noteq> []" "\<forall>g\<in>set gs. good_segment g"
  obtain hs g where g: "gs = hs @ [g]" using gs(1) by (metis rev_exhaust)
  then have "good_segment g" using gs(2) by simp
  then have "g \<noteq> []" "last g \<noteq> CHR ''/''"
    by (simp add: good_segment_def, metis good_segment_def last_in_set)
  then show ?thesis using g by (cases "hs = []") (simp_all add: join_on_append)
qed

lemma matches_base:
  "trim_end_on (\<lambda>c. c = CHR ''/'')
     (to_ascii_lowercase (resolve (trim_end_on (\<lambda>c. c = CHR ''*'') pattern))) =
   (if pattern_segments pattern = [] then ''''
    else CHR ''/'' # join_on CHR ''/'' (pattern_segments pattern))"
proof (cases "pattern_segments pattern = []")
  case True
  then show ?thesis
    by (simp add: pattern_segments_def resolve_alt lower_byte_id trim_end_on_def)
next
  case False
  let ?j = "CHR ''/'' # join_on CHR ''/'' (pattern_segments pattern)"
  have "last ?j \<noteq> CHR ''/''"
    using False pattern_segments_good by (intro last_join_good) auto
  then have "trim_end_on (\<lambda>c. c = CHR ''/'') ?j = ?j"
    by (intro trim_end_on_keeps) simp
  moreover from this have "trim_end_on (\<lambda>c. c = CHR ''/'') (?j @ [CHR ''/'']) = ?j"
    by (simp only: trim_end_on_snoc if_True refl)
  ultimately show ?thesis using False
    by (simp add: pattern_segments_def resolve_alt lower_byte_id join_on_lowercase)
qed

lemma prefix_drop_iff:
  "prefix base path \<and> prefix ''/'' (drop (length base) path) \<longleftrightarrow> (\<exists>r. path = base @ CHR ''/'' # r)"
  by (auto simp: prefix_def)

lemma matches_covers:
  assumes "prefix ''/'' path"
  shows "matches pattern path \<longleftrightarrow> covers pattern path"
proof -
  obtain p where p: "path = CHR ''/'' # p" using assms by (auto simp: prefix_def)
  show ?thesis
  proof (cases "pattern_segments pattern = []")
    case True
    then show ?thesis by (simp add: matches_def matches_base covers_def)
  next
    case False
    let ?s = "pattern_segments pattern"
    let ?base = "CHR ''/'' # join_on CHR ''/'' ?s"
    have "split_on CHR ''/'' (join_on CHR ''/'' ?s) = ?s"
      using False pattern_segments_good by (intro split_join) (auto simp: good_segment_def)
    then have "prefix (split_on CHR ''/'' ?base) (split_on CHR ''/'' path) \<longleftrightarrow> covers pattern path"
      by (simp add: covers_def path_segments_def p)
    with False show ?thesis
      unfolding prefix_split_on_append
      by (auto simp: matches_def matches_base Let_def prefix_drop_iff)
  qed
qed
section \<open>The decision, declaratively\<close>

text \<open>
  What a set of rules says of one path: a live deny covers it, a live allow covers it. A path
  is permitted when the second holds and the first does not.
\<close>

definition denied :: "rule set \<Rightarrow> time \<Rightarrow> string \<Rightarrow> bool" where
  "denied R now path \<longleftrightarrow>
     (\<exists>r\<in>R. live now r \<and> effect r = Effect_Deny \<and> covers (path_pattern r) path)"

definition granted :: "rule set \<Rightarrow> time \<Rightarrow> string \<Rightarrow> bool" where
  "granted R now path \<longleftrightarrow>
     (\<exists>r\<in>R. live now r \<and> effect r = Effect_Allow \<and> covers (path_pattern r) path)"

definition permitted :: "rule set \<Rightarrow> time \<Rightarrow> string \<Rightarrow> bool" where
  "permitted R now path \<longleftrightarrow> granted R now path \<and> \<not> denied R now path"

lemma decide_path_spec:
  assumes "prefix ''/'' path"
  shows "decide_path rules path now =
    (if denied (set rules) now path then Deny ExplicitDeny
     else if granted (set rules) now path then Allow
     else Deny NoMatchingGrant)"
  by (auto simp: decide_path_def denied_def granted_def list_ex_iff matches_covers [OF assms])

lemma decode_resolved_slash: "decode_resolved (resolve p) = Inr q \<Longrightarrow> prefix ''/'' q"
proof -
  assume "decode_resolved (resolve p) = Inr q"
  moreover obtain r where "resolve p = CHR ''/'' # r" using prefix_resolve by (auto simp: prefix_def)
  ultimately show ?thesis
    by (auto simp: decode_resolved_def and_then_eq_Inr text_of_bytes_def lower_byte_id
        split: if_splits)
qed

lemma readings_slash: "readings raw = Inr ps \<Longrightarrow> p \<in> set ps \<Longrightarrow> prefix ''/'' p"
  by (auto simp: readings_def and_then_eq_Inr Let_def decode_resolved_slash
      dest!: normalise_canonical simp: canonical_def)

lemma readings_nonempty: "readings raw = Inr ps \<Longrightarrow> \<exists>q second third. ps = [q, second, third]"
  using readings_eq_Inr by blast

text \<open>The whole of \<open>decide\<close>, with the two scans over the readings read off as set membership.\<close>

lemma decide_spec:
  "decide app_enabled rules raw_uri now =
    (case readings raw_uri of
       Inl e \<Rightarrow> Deny MalformedUri
     | Inr ps \<Rightarrow>
         if \<not> app_enabled then Deny ApplicationDisabled
         else if \<exists>p\<in>set ps. denied (set rules) now p then Deny ExplicitDeny
         else if \<exists>p\<in>set ps. \<not> granted (set rules) now p then Deny NoMatchingGrant
         else Allow)"
proof (cases "readings raw_uri")
  case (Inl e)
  then have "e = MalformedUri" using readings_error normalise_error by blast
  with Inl show ?thesis by (simp add: decide_def)
next
  case (Inr ps)
  let ?d = "\<lambda>p. decide_path rules p now"
  have d: "?d p = (if denied (set rules) now p then Deny ExplicitDeny
      else if granted (set rules) now p then Allow else Deny NoMatchingGrant)" if "p \<in> set ps" for p
    using decide_path_spec readings_slash [OF Inr that] by blast
  have first: "find (\<lambda>x. x = Deny ExplicitDeny) (map ?d ps) =
      (if \<exists>p\<in>set ps. denied (set rules) now p then Some (Deny ExplicitDeny) else None)"
    using d by (cases "find (\<lambda>x. x = Deny ExplicitDeny) (map ?d ps)")
      (auto simp: find_eq_None dest!: find_SomeD split: if_splits)
  have second: "find (\<lambda>x. x \<noteq> Allow) (map ?d ps) =
      (if \<exists>p\<in>set ps. \<not> granted (set rules) now p then Some (Deny NoMatchingGrant) else None)"
    if "\<not> (\<exists>p\<in>set ps. denied (set rules) now p)"
    using d that by (cases "find (\<lambda>x. x \<noteq> Allow) (map ?d ps)")
      (auto simp: find_eq_None dest!: find_SomeD split: if_splits)
  show ?thesis
    using Inr first second by (simp add: decide_def Let_def)
qed

lemma decide_cong_set: "set rules = set rules' \<Longrightarrow> decide e rules raw now = decide e rules' raw now"
  by (cases "readings raw") (simp_all add: decide_spec)

lemma decide_Allow_iff:
  "decide e rules raw now = Allow \<longleftrightarrow>
     e \<and> (\<exists>ps. readings raw = Inr ps \<and> (\<forall>p\<in>set ps. permitted (set rules) now p))"
  by (auto simp: decide_spec permitted_def split: sum.splits)

lemma live_expired: "live now r \<longleftrightarrow> \<not> (case expires_at r of None \<Rightarrow> False | Some e \<Rightarrow> e \<le> now)"
  by (auto simp: live_def split: option.split)

lemma denied_mono: "denied R now p \<Longrightarrow> {r\<in>R. effect r = Effect_Deny} \<subseteq> S \<Longrightarrow> denied S now p"
  by (auto simp: denied_def)

lemma granted_mono: "granted R now p \<Longrightarrow> {r\<in>R. effect r = Effect_Allow} \<subseteq> S \<Longrightarrow> granted S now p"
  by (auto simp: granted_def)

lemma denied_live: "denied (set (filter (live now) rules)) now = denied (set rules) now"
  by (auto simp: denied_def fun_eq_iff)

lemma granted_live: "granted (set (filter (live now) rules)) now = granted (set rules) now"
  by (auto simp: granted_def fun_eq_iff)

lemma decide_filter_live: "decide e (filter (live now) rules) raw now = decide e rules raw now"
  by (simp only: decide_spec denied_live granted_live)

lemma decide_denied_reading:
  assumes "normalise raw = Inr q" "denied (set rules) now q"
  shows "decide e rules raw now = (if e then Deny ExplicitDeny else Deny ApplicationDisabled)"
proof -
  obtain second third where "readings raw = Inr [q, second, third]"
    using readings_total [OF assms(1)] by blast
  then show ?thesis using assms(2) by (simp add: decide_spec)
qed

lemma normalise_rewritten_star:
  "rewritten\<^sup>*\<^sup>* r r' \<Longrightarrow> normalise r = Inr q \<Longrightarrow> normalise r' = Inr q"
  by (induction rule: rtranclp_induct) (simp_all add: normalise_rewritten)

section \<open>Properties\<close>

text \<open>C1: a request is allowed exactly when the application is enabled and, under each of the
  three readings of its path, some live allow rule covers the path and no live deny rule does.\<close>

theorem decide_allows_iff:
  "decide app_enabled rules raw_uri now = Allow \<longleftrightarrow>
     app_enabled \<and> (\<exists>ps. readings raw_uri = Inr ps \<and> length ps = 3 \<and>
       (\<forall>p\<in>set ps. permitted (set rules) now p))"
proof -
  have "length ps = 3" if "readings raw_uri = Inr ps" for ps
    using readings_nonempty [OF that] by auto
  then show ?thesis unfolding decide_Allow_iff by blast
qed

definition example_rules :: "rule list" where
  "example_rules =
     [\<lparr>effect = Effect_Allow, path_pattern = '''', expires_at = None\<rparr>,
      \<lparr>effect = Effect_Deny, path_pattern = ''/admin/*'', expires_at = None\<rparr>]"

theorem decide_allows_iff_witness:
  "decide True example_rules ''/public/x'' 0 = Allow \<and>
   (\<exists>ps. readings ''/public/x'' = Inr ps \<and> (\<forall>p\<in>set ps. permitted (set example_rules) 0 p))"
proof -
  have "decide True example_rules ''/public/x'' 0 = Allow" by code_simp
  then show ?thesis
    using decide_allows_iff [of True example_rules "''/public/x''" 0] by blast
qed

text \<open>C5: no rewriting of a path gets past a deny rule: when a live deny rule covers the normal
  form of a path, every path that percent-encoding, case, doubled slashes, backslashes, dot
  segments and taken-back segments make of it is refused as well.\<close>

theorem deny_survives_rewriting:
  assumes "rewritten\<^sup>*\<^sup>* raw raw'" and "normalise raw = Inr q" and "denied (set rules) now q"
  shows "decide app_enabled rules raw' now =
    (if app_enabled then Deny ExplicitDeny else Deny ApplicationDisabled)"
  using normalise_rewritten_star [OF assms(1,2)] assms(3) by (rule decide_denied_reading)

theorem deny_survives_rewriting_witness:
  "decide True example_rules ''/%61dmin/users'' 0 = Deny ExplicitDeny"
proof -
  have "percent_encode ''a'' = ''%61''" by code_simp
  moreover have "rewritten (''/'' @ CHR ''a'' # ''dmin/users'') (''/'' @ percent_encode ''a'' @ ''dmin/users'')"
    by (rule rewritten.encode_byte) (simp_all add: outside_escape_def path_byte_def)
  ultimately have "rewritten ''/admin/users'' ''/%61dmin/users''" by simp
  then have r: "rewritten\<^sup>*\<^sup>* ''/admin/users'' ''/%61dmin/users''" by (rule r_into_rtranclp)
  have n: "normalise ''/admin/users'' = Inr ''/admin/users''" by code_simp
  have "covers ''/admin/*'' ''/admin/users''" by code_simp
  then have d: "denied (set example_rules) 0 ''/admin/users''"
    by (auto simp: denied_def example_rules_def live_def)
  show ?thesis using deny_survives_rewriting [OF r n d, of True] by simp
qed

text \<open>An allow rule over a subtree cannot be escaped by any reading of a path: if every allow
  rule is for the pattern \<open>P\<close> and the request is allowed, the path is inside \<open>P\<close> under each of the
  three readings.\<close>

theorem allow_confined:
  assumes "decide app_enabled rules raw_uri now = Allow"
    and "\<forall>r\<in>set rules. effect r = Effect_Allow \<longrightarrow> path_pattern r = P"
  shows "\<exists>q second third. readings raw_uri = Inr [q, second, third] \<and> normalise raw_uri = Inr q \<and>
    covers P q \<and> covers P second \<and> covers P third"
proof -
  obtain ps where ps: "readings raw_uri = Inr ps" "\<forall>p\<in>set ps. permitted (set rules) now p"
    using assms(1) by (auto simp: decide_Allow_iff)
  moreover have "covers P p" if "permitted (set rules) now p" for p
    using that assms(2) by (auto simp: permitted_def granted_def)
  moreover obtain q second third where "ps = [q, second, third]" "normalise raw_uri = Inr q"
    using readings_eq_Inr ps(1) by blast
  ultimately show ?thesis by simp
qed

definition public_rules :: "rule list" where
  "public_rules = [\<lparr>effect = Effect_Allow, path_pattern = ''/public/*'', expires_at = Some 10\<rparr>]"

theorem allow_confined_witness:
  "\<exists>q. normalise ''/public/a;jsessionid=1'' = Inr q \<and> covers ''/public/*'' q"
proof -
  have a: "decide True public_rules ''/public/a;jsessionid=1'' 0 = Allow" by code_simp
  have p: "\<forall>r\<in>set public_rules. effect r = Effect_Allow \<longrightarrow> path_pattern r = ''/public/*''"
    by (simp add: public_rules_def)
  show ?thesis using allow_confined [OF a p] by blast
qed

section \<open>Which rules a decision depends on\<close>

lemma granted_subset:
  "granted R now p \<Longrightarrow> {r\<in>R. effect r = Effect_Allow \<and> live now r} \<subseteq> S \<Longrightarrow> granted S now p"
  by (auto simp: granted_def)

lemma denied_subset:
  "denied R now p \<Longrightarrow> {r\<in>R. effect r = Effect_Deny \<and> live now r} \<subseteq> S \<Longrightarrow> denied S now p"
  by (auto simp: denied_def)

lemma decide_live_cong:
  assumes "{r\<in>set rules. live now r} = {r\<in>set rules'. live now r}"
  shows "decide e rules raw now = decide e rules' raw now"
proof -
  have "set (filter (live now) rules) = set (filter (live now) rules')" using assms by simp
  then have "decide e (filter (live now) rules) raw now = decide e (filter (live now) rules') raw now"
    by (rule decide_cong_set)
  then show ?thesis by (simp only: decide_filter_live)
qed

text \<open>A decision depends only on the set of rules still live at that instant: neither the order
  the store returned them in, nor a duplicate, nor an expired row can change it.\<close>

theorem decide_depends_on_live_rules:
  assumes "{r\<in>set rules. live now r} = {r\<in>set rules'. live now r}"
  shows "decide app_enabled rules raw_uri now = decide app_enabled rules' raw_uri now"
  using assms by (rule decide_live_cong)

theorem decide_depends_on_live_rules_witness:
  "decide True (rev example_rules @ public_rules) ''/Admin/x'' 20 =
   decide True example_rules ''/Admin/x'' 20"
proof -
  have "{r\<in>set (rev example_rules @ public_rules). live 20 r} = {r\<in>set example_rules. live 20 r}"
    by (auto simp: example_rules_def public_rules_def live_def)
  then show ?thesis by (rule decide_depends_on_live_rules)
qed

text \<open>Fail-closed monotonicity: from an allowed request, adding allow rules or removing deny
  rules keeps it allowed; read backwards, removing grants or adding denies never opens a path.\<close>

theorem decide_monotone:
  assumes "decide app_enabled rules raw_uri now = Allow"
    and "{r\<in>set rules. effect r = Effect_Allow \<and> live now r} \<subseteq> set rules'"
    and "{r\<in>set rules'. effect r = Effect_Deny \<and> live now r} \<subseteq> set rules"
  shows "decide app_enabled rules' raw_uri now = Allow"
proof -
  obtain ps where ps: "app_enabled" "readings raw_uri = Inr ps" "\<forall>p\<in>set ps. permitted (set rules) now p"
    using assms(1) by (auto simp: decide_Allow_iff)
  have "permitted (set rules') now p" if "permitted (set rules) now p" for p
    using that granted_subset [OF _ assms(2)] denied_subset [OF _ assms(3)]
    unfolding permitted_def by blast
  with ps show ?thesis unfolding decide_Allow_iff by blast
qed

theorem decide_monotone_witness:
  "decide True (public_rules @ example_rules) ''/public/x'' 0 = Allow"
proof -
  let ?d = "[\<lparr>effect = Effect_Deny, path_pattern = ''/admin/*'', expires_at = None\<rparr>]"
  have "decide True (public_rules @ ?d) ''/public/x'' 0 = Allow" by code_simp
  then show ?thesis
    by (rule decide_monotone) (auto simp: example_rules_def public_rules_def)
qed

text \<open>The optimised prefix test of \<open>matches\<close> is the segment-prefix test it stands for: on any
  absolute path, a pattern matches exactly when its resolved, lower-cased segments are the first
  segments of the path, so \<open>/admin/*\<close> never matches \<open>/adminx\<close>.\<close>

theorem matches_is_segment_prefix:
  assumes "prefix ''/'' path"
  shows "matches pattern path \<longleftrightarrow> prefix (pattern_segments pattern) (path_segments path)"
  using matches_covers [OF assms] by (simp add: covers_def)

theorem matches_is_segment_prefix_witness:
  "\<not> prefix (pattern_segments ''/admin/*'') (path_segments ''/adminx'')"
proof -
  have "\<not> matches ''/admin/*'' ''/adminx''" by code_simp
  then show ?thesis using matches_is_segment_prefix [of "''/adminx''" "''/admin/*''"] by simp
qed

section \<open>The normal form\<close>

text \<open>What \<open>normalise\<close> returns is canonical - absolute, resolved, lower case, valid text without
  control characters, \<open>%\<close> or backslash - and normalising it again changes nothing unless a decoded
  \<open>?\<close> or \<open>#\<close> is in it.\<close>

theorem normalise_result:
  assumes "normalise raw_uri = Inr q"
  shows "prefix ''/'' q \<and> resolve q = q \<and> to_ascii_lowercase q = q
    \<and> is_utf8 q \<and> (\<forall>c\<in>set (chars_of q). \<not> is_control c) \<and> CHR ''%'' \<notin> set q \<and> CHR 0x5C \<notin> set q
    \<and> (CHR ''?'' \<notin> set q \<longrightarrow> CHR ''#'' \<notin> set q \<longrightarrow> normalise q = Inr q)"
proof -
  have "canonical q" using assms by (rule normalise_canonical)
  moreover from this have "CHR ''?'' \<notin> set q \<Longrightarrow> CHR ''#'' \<notin> set q \<Longrightarrow> normalise q = Inr q"
    by (rule normalise_fixpoint)
  ultimately show ?thesis by (auto simp: canonical_def clean_def list_ex_iff)
qed

theorem normalise_result_witness: "resolve ''/admin/x/'' = ''/admin/x/''"
proof -
  have "normalise ''/a/..//%61dmin/X/./?q=1'' = Inr ''/admin/x/''" by code_simp
  from normalise_result [OF this] show ?thesis by blast
qed

text \<open>The second and third reading of a path never fail where the first succeeds, so
  \<open>readings\<close> fails exactly when \<open>normalise\<close> does, with \<open>malformed_uri\<close>, before any rule is read.\<close>

theorem readings_fail_with_normalise:
  "(readings raw_uri = Inl e \<longleftrightarrow> normalise raw_uri = Inl e) \<and>
   (is_ok (normalise raw_uri) \<or> decide app_enabled rules raw_uri now = Deny MalformedUri)"
proof (cases "normalise raw_uri")
  case (Inl f)
  then have f: "f = MalformedUri" "readings raw_uri = Inl f"
    using normalise_error readings_error by blast+
  with Inl show ?thesis by (auto simp: decide_def)
qed (simp add: readings_error)

section \<open>The explain trace\<close>

lemma explain_matched:
  assumes "normalise raw = Inr q" "i < length rules"
  shows "matched (trace_rules (explain e rules raw now) ! i) \<longleftrightarrow> covers (path_pattern (rules ! i)) q"
    "expired (trace_rules (explain e rules raw now) ! i) \<longleftrightarrow> \<not> live now (rules ! i)"
  using assms normalise_canonical [OF assms(1)]
  by (simp_all add: explain_def Let_def matches_covers canonical_def live_expired)

text \<open>The explain trace is sound for the first reading: it carries \<open>decide\<close>'s own verdict, one
  entry per rule in order, and on an enabled application an unexpired matching deny rule means
  \<open>explicit_deny\<close> while \<open>Allow\<close> means some unexpired allow rule matched and no unexpired deny did.\<close>

theorem explain_sound:
  assumes "normalise raw_uri = Inr q" and t_def: "t = explain True rules raw_uri now"
  shows "trace_decision t = decide True rules raw_uri now \<and> trace_path t = Some q
    \<and> length (trace_rules t) = length rules
    \<and> ((\<exists>i<length rules. effect (rules ! i) = Effect_Deny \<and> matched (trace_rules t ! i)
           \<and> \<not> expired (trace_rules t ! i)) \<longrightarrow> trace_decision t = Deny ExplicitDeny)
    \<and> (trace_decision t = Allow \<longrightarrow>
         (\<exists>i<length rules. effect (rules ! i) = Effect_Allow \<and> matched (trace_rules t ! i)
            \<and> \<not> expired (trace_rules t ! i)))"
proof -
  have d: "trace_decision t = decide True rules raw_uri now" "trace_path t = Some q"
    "length (trace_rules t) = length rules"
    using assms(1) by (simp_all add: t_def explain_def Let_def)
  note m = explain_matched [OF assms(1)]
  have first: "denied (set rules) now q \<Longrightarrow> decide True rules raw_uri now = Deny ExplicitDeny"
    using decide_denied_reading [OF assms(1)] by simp
  have "granted (set rules) now q" if "decide True rules raw_uri now = Allow"
    using that readings_eq_Inr assms(1) by (fastforce simp: decide_Allow_iff permitted_def)
  then have second: "\<exists>i<length rules. live now (rules ! i) \<and> effect (rules ! i) = Effect_Allow
      \<and> covers (path_pattern (rules ! i)) q" if "decide True rules raw_uri now = Allow"
    using that by (auto simp: granted_def in_set_conv_nth)
  have third: "i < length rules \<Longrightarrow> effect (rules ! i) = Effect_Deny \<Longrightarrow> live now (rules ! i) \<Longrightarrow>
      covers (path_pattern (rules ! i)) q \<Longrightarrow> decide True rules raw_uri now = Deny ExplicitDeny" for i
    using first nth_mem unfolding denied_def by blast
  have fourth: "matched (trace_rules t ! i) \<longleftrightarrow> covers (path_pattern (rules ! i)) q"
    "expired (trace_rules t ! i) \<longleftrightarrow> \<not> live now (rules ! i)" if "i < length rules" for i
    using m [OF that] t_def by simp_all
  show ?thesis
  proof (intro conjI impI)
    assume "trace_decision t = Allow"
    then obtain i where "i < length rules" "live now (rules ! i)" "effect (rules ! i) = Effect_Allow"
      "covers (path_pattern (rules ! i)) q" using second d(1) by metis
    then show "\<exists>i<length rules. effect (rules ! i) = Effect_Allow \<and> matched (trace_rules t ! i)
            \<and> \<not> expired (trace_rules t ! i)" using fourth by metis
  next
    assume "\<exists>i<length rules. effect (rules ! i) = Effect_Deny \<and> matched (trace_rules t ! i)
           \<and> \<not> expired (trace_rules t ! i)"
    then show "trace_decision t = Deny ExplicitDeny" using fourth third d(1) by metis
  qed (use d in simp_all)
qed

theorem explain_sound_witness:
  "trace_path (explain True example_rules ''/%41dmin/'' 0) = Some ''/admin/''"
proof -
  have "normalise ''/%41dmin/'' = Inr ''/admin/''" by code_simp
  from explain_sound [OF this refl] show ?thesis by blast
qed

text \<open>The trace is not complete: a request refused by a deny rule under the second or third
  reading is reported as \<open>explicit_deny\<close> with that very rule marked as not matching, because
  \<open>explain\<close> annotates the rules against the first reading only.\<close>

theorem explain_misses_other_readings:
  "\<exists>rules raw_uri. trace_decision (explain True rules raw_uri 0) = Deny ExplicitDeny
     \<and> filter (\<lambda>(r, t). effect r = Effect_Deny \<and> matched t)
          (zip rules (trace_rules (explain True rules raw_uri 0))) = []"
proof (intro exI conjI)
  show "trace_decision (explain True example_rules ''/admin;x/users'' 0) = Deny ExplicitDeny"
    by code_simp
  have "\<not> matches ''/admin/*'' ''/admin;x/users''" "normalise ''/admin;x/users'' = Inr ''/admin;x/users''"
    by code_simp+
  then show "filter (\<lambda>(r, t). effect r = Effect_Deny \<and> matched t)
      (zip example_rules (trace_rules (explain True example_rules ''/admin;x/users'' 0))) = []"
    by (simp add: explain_def example_rules_def)
qed

end
