(* ===== verification/Validate.thy ===== *)
theory Validate
  imports Policy "HOL-Library.Word"
begin

text \<open>
  \<open>validate.rs\<close>: what the management plane refuses to store. Path patterns, upstream URLs, slugs,
  hostnames, names and icons. The lemmas say that an accepted pattern means the subtree it spells
  and that its deny rule can fire, that \<open>labelled\<close> is the regular expression of the schema, and
  what an accepted hostname and upstream can be. The \<open>url\<close> crate is a parameter: a parser to a
  record of what its accessors return.
\<close>

unbundle bit_operations_syntax

section \<open>Path patterns\<close>

text \<open>\<open>s.strip_suffix(c).unwrap_or(s)\<close>.\<close>

definition strip_last :: "char \<Rightarrow> string \<Rightarrow> string" where
  "strip_last c s = (if s \<noteq> [] \<and> last s = c then butlast s else s)"

definition validate_path_pattern :: "string \<Rightarrow> string + unit" where
  "validate_path_pattern raw =
     (if raw = '''' then Inr ()
      else if \<not> suffix ''/*'' raw then
        (let base = trim_end_on (\<lambda>c. c = CHR ''*'' \<or> c = CHR ''/'') raw
         in Inl (if base = '''' then ''path_pattern for the whole application is empty, or /*''
                 else ''path_pattern is a subtree and has no exact-path form: write '' @ base
                   @ ''/*, which matches '' @ base @ '' and everything below it''))
      else
        (let probe = strip_last CHR ''*'' raw
         in if List.member probe CHR ''*'' then
              Inl ''path_pattern may only use * as its last character''
            else (case normalise probe of
                    Inr seen \<Rightarrow>
                      if seen = probe then Inr ()
                      else Inl (''path_pattern must be written the way it is matched: '' @ seen)
                  | Inl _ \<Rightarrow> Inl ''path_pattern must be empty or start with /'')))"

section \<open>Labels, slugs and hostnames\<close>

text \<open>\<open>str::split\<close> with a predicate on characters; every separator used is ASCII.\<close>

fun split_where :: "('a \<Rightarrow> bool) \<Rightarrow> 'a list \<Rightarrow> 'a list list" where
  "split_where P [] = [[]]"
| "split_where P (x # xs) =
     (if P x then [] # split_where P xs
      else (case split_where P xs of [] \<Rightarrow> [[x]] | s # ss \<Rightarrow> (x # s) # ss))"

definition label_byte :: "char \<Rightarrow> bool" where
  "label_byte b \<longleftrightarrow> is_ascii_lowercase b \<or> is_ascii_digit b"

definition labelled :: "string \<Rightarrow> char list \<Rightarrow> bool" where
  "labelled val separators \<longleftrightarrow>
     val \<noteq> '''' \<and>
     list_all (\<lambda>label. label \<noteq> '''' \<and> list_all label_byte label)
       (split_where (List.member separators) val)"

definition validate_slug :: "string \<Rightarrow> string + unit" where
  "validate_slug slug =
     (if labelled slug ''-'' then Inr ()
      else Inl ''slug must be lower-case letters and digits, separated by single hyphens'')"

section \<open>Upstreams\<close>

text \<open>
  An address as \<open>std::net\<close> has it: four octets, or eight 16-bit segments. The four tests are the
  documented ones of \<open>Ipv4Addr\<close> and \<open>Ipv6Addr\<close>.
\<close>

datatype ip_addr =
    V4 "8 word" "8 word" "8 word" "8 word"
  | V6 "16 word" "16 word" "16 word" "16 word" "16 word" "16 word" "16 word" "16 word"

fun is_loopback :: "ip_addr \<Rightarrow> bool" where
  "is_loopback (V4 a b c d) \<longleftrightarrow> a = 127"
| "is_loopback (V6 a b c d e f g h) \<longleftrightarrow> [a, b, c, d, e, f, g, h] = [0, 0, 0, 0, 0, 0, 0, 1]"

fun is_unspecified :: "ip_addr \<Rightarrow> bool" where
  "is_unspecified (V4 a b c d) \<longleftrightarrow> [a, b, c, d] = [0, 0, 0, 0]"
| "is_unspecified (V6 a b c d e f g h) \<longleftrightarrow> [a, b, c, d, e, f, g, h] = [0, 0, 0, 0, 0, 0, 0, 0]"

fun is_multicast :: "ip_addr \<Rightarrow> bool" where
  "is_multicast (V4 a b c d) \<longleftrightarrow> 224 \<le> a \<and> a \<le> 239"
| "is_multicast (V6 a b c d e f g h) \<longleftrightarrow> a AND 0xff00 = 0xff00"

fun is_link_local :: "ip_addr \<Rightarrow> bool" where
  "is_link_local (V4 a b c d) \<longleftrightarrow> a = 169 \<and> b = 254"
| "is_link_local (V6 a b c d e f g h) \<longleftrightarrow> a AND 0xffc0 = 0xfe80"

definition reject_reserved :: "ip_addr \<Rightarrow> string + unit" where
  "reject_reserved ip =
     (let bad = (case ip of
          V4 _ _ _ _ \<Rightarrow> is_loopback ip \<or> is_link_local ip \<or> is_unspecified ip \<or> is_multicast ip
        | V6 a _ _ _ _ _ _ _ \<Rightarrow>
            is_loopback ip \<or> is_unspecified ip \<or> is_multicast ip \<or> a AND 0xffc0 = 0xfe80)
      in if bad then Inl ''upstream_url names a loopback, link-local or multicast address''
         else Inr ())"

text \<open>
  What the accessors of \<open>url::Url\<close> return for a parsed URL. \<open>host_str\<close> is the serialised host,
  \<open>url_port\<close> is \<open>port()\<close> (absent when it is the scheme's default), \<open>url_known_port\<close> is
  \<open>port_or_known_default()\<close>.
\<close>

datatype host = Domain string | Ip ip_addr

record url =
  url_scheme :: string
  url_username :: string
  url_password :: "string option"
  url_host :: "host option"
  url_host_str :: "string option"
  url_port :: "nat option"
  url_known_port :: "nat option"
  url_path :: string
  url_query :: "string option"
  url_fragment :: "string option"

type_synonym url_parser = "string \<Rightarrow> url option"

definition infrastructure_ports :: "nat list" where
  "infrastructure_ports = [5432, 6379, 389, 636, 3268, 3269]"

definition infrastructure_names :: "string list" where
  "infrastructure_names = [''localhost'', ''postgres'', ''redis'', ''keycloak'', ''backend'',
     ''oauth2-proxy'', ''nginx'', ''samba-ad'', ''dc01'']"

definition validate_upstream :: "url_parser \<Rightarrow> string \<Rightarrow> string + unit" where
  "validate_upstream parse raw =
     (case parse raw of
        None \<Rightarrow> Inl ''upstream_url is not a URL''
      | Some url \<Rightarrow>
          if \<not> List.member [''http'', ''https''] (url_scheme url) then
            Inl ''upstream_url must be http or https''
          else if url_username url \<noteq> '''' \<or> url_password url \<noteq> None then
            Inl ''upstream_url must not carry credentials''
          else if \<not> List.member ['''', ''/''] (url_path url)
                  \<or> url_query url \<noteq> None \<or> url_fragment url \<noteq> None then
            Inl ''upstream_url must be scheme://host:port with no path''
          else if (case url_port url of None \<Rightarrow> False
                   | Some port \<Rightarrow> List.member infrastructure_ports port) then
            Inl ''upstream_url names an infrastructure port''
          else (case url_host url of
                  None \<Rightarrow> Inl ''upstream_url has no host''
                | Some (Domain name) \<Rightarrow>
                    (let name = to_ascii_lowercase name
                     in if \<not> labelled name ''.-'' then
                          Inl (''upstream_url host may hold only letters, digits, '.' and '-'' @ [CHR 0x27])
                        else if List.member infrastructure_names name then
                          Inl ''upstream_url names an infrastructure service''
                        else Inr ())
                | Some (Ip ip) \<Rightarrow> reject_reserved ip))"

definition validate_hostname :: "url_parser \<Rightarrow> string \<Rightarrow> string \<Rightarrow> string + string" where
  "validate_hostname parse typed portal_origin =
     (let hostname = to_ascii_lowercase typed
      in if \<not> labelled hostname ''.-'' then
           Inl ''external_hostname must be lower-case letters and digits, separated by single dots or hyphens''
         else if List.member [''portal'', ''auth''] (first_piece CHR ''.'' hostname) then
           Inl ''external_hostname uses a reserved name (portal, auth)''
         else if (case parse portal_origin of None \<Rightarrow> False
                  | Some u \<Rightarrow> (case url_host_str u of None \<Rightarrow> False
                              | Some portal \<Rightarrow> to_ascii_lowercase portal = hostname)) then
           Inl ''external_hostname is the portal's own hostname''
         else Inr hostname)"

section \<open>Names and icons\<close>

definition LABEL_MAX :: nat where
  "LABEL_MAX = 200"

definition validate_name :: "string \<Rightarrow> string + string" where
  "validate_name raw =
     (let name = str_trim raw
      in if name = '''' then Inl ''name is required''
         else if length (chars_of name) > LABEL_MAX then Inl ''name is at most 200 characters''
         else Inr name)"

definition validate_icon :: "string option \<Rightarrow> string + string option" where
  "validate_icon raw =
     (let icon = (case raw of None \<Rightarrow> None
                  | Some r \<Rightarrow> (let i = str_trim r in if i = '''' then None else Some i))
      in if (case icon of None \<Rightarrow> False | Some i \<Rightarrow> length (chars_of i) > LABEL_MAX)
         then Inl ''icon is at most 200 characters''
         else Inr icon)"

section \<open>An accepted pattern means the subtree it spells\<close>

lemma validate_path_pattern_ok:
  "validate_path_pattern p = Inr () \<longleftrightarrow>
     p = '''' \<or> (\<exists>b. p = b @ ''/*'' \<and> CHR ''*'' \<notin> set b \<and> normalise (b @ ''/'') = Inr (b @ ''/''))"
proof (cases "suffix ''/*'' p")
  case False
  then show ?thesis by (auto simp: validate_path_pattern_def Let_def suffix_def)
next
  case True
  then obtain b where b: "p = b @ ''/*''" by (auto simp: suffix_def)
  then have "strip_last CHR ''*'' p = b @ ''/''" by (simp add: strip_last_def butlast_append)
  then show ?thesis using b True
    by (cases "normalise (b @ ''/'')") (auto simp: validate_path_pattern_def Let_def)
qed

lemma resolved_directory_base:
  assumes "resolve (b @ ''/'') = b @ ''/''" "b \<noteq> []"
  shows "last b \<noteq> CHR ''/''"
proof -
  let ?s = "resolve_segments (b @ ''/'')"
  have "?s \<noteq> []" using assms by (auto simp: resolve_alt)
  moreover from this have "b = CHR ''/'' # join_on CHR ''/'' ?s"
    using assms(1) resolve_alt [of "b @ ''/''"] by (auto simp: is_directory_def split: if_splits)
  moreover have "\<forall>g\<in>set ?s. good_segment g" using resolve_segments_good by blast
  ultimately show ?thesis using last_join_good by metis
qed

lemma matches_subtree:
  assumes "normalise (b @ ''/'') = Inr (b @ ''/'')" "prefix ''/'' path"
  shows "matches (b @ ''/*'') path \<longleftrightarrow> path = b \<or> prefix (b @ ''/'') path"
proof -
  have c: "canonical (b @ ''/'')" using assms(1) by (rule normalise_canonical)
  then have r: "resolve (b @ ''/'') = b @ ''/''" "to_ascii_lowercase (b @ ''/'') = b @ ''/''"
    by (simp_all only: canonical_def)
  have star: "trim_end_on (\<lambda>c. c = CHR ''*'') (b @ ''/*'') = b @ ''/''"
    using trim_end_on_snoc [of "\<lambda>c. c = CHR ''*''" "b @ ''/''" "CHR ''*''"]
      trim_end_on_snoc [of "\<lambda>c. c = CHR ''*''" b "CHR ''/''"] by simp
  have base: "trim_end_on (\<lambda>c. c = CHR ''/'') (b @ ''/'') = b"
  proof (cases "b = []")
    case True
    then show ?thesis by (simp add: trim_end_on_def)
  next
    case False
    then show ?thesis
      using resolved_directory_base [OF r(1)] trim_end_on_keeps [of b "\<lambda>c. c = CHR ''/''"] by simp
  qed
  show ?thesis
    using assms(2) unfolding matches_def star r base Let_def
    by (auto simp: prefix_def)
qed

lemma subtree_denies:
  assumes "normalise (b @ ''/'') = Inr (b @ ''/'')" "r \<in> set rules" "effect r = Effect_Deny"
    "path_pattern r = b @ ''/*''" "live now r" "normalise raw = Inr q" "q = b \<or> prefix (b @ ''/'') q"
  shows "decide True rules raw now = Deny ExplicitDeny"
proof -
  have "prefix ''/'' q" using normalise_canonical [OF assms(6)] by (simp add: canonical_def)
  then have "covers (path_pattern r) q"
    using matches_subtree [OF assms(1)] matches_covers assms(4,7) by simp
  then have "denied (set rules) now q" using assms(2,3,5) unfolding denied_def by blast
  then show ?thesis using decide_denied_reading [OF assms(6)] by simp
qed

section \<open>Labels are the regular expression of the schema\<close>

text \<open>
  The CHECK constraints of \<open>0001_init.sql\<close> as a language: \<open>[a-z0-9]+([seps][a-z0-9]+)*\<close>.
\<close>

inductive schema_name :: "char list \<Rightarrow> string \<Rightarrow> bool" for separators where
  one: "l \<noteq> [] \<Longrightarrow> \<forall>c\<in>set l. label_byte c \<Longrightarrow> schema_name separators l"
| more: "schema_name separators v \<Longrightarrow> s \<in> set separators \<Longrightarrow> l \<noteq> [] \<Longrightarrow> \<forall>c\<in>set l. label_byte c \<Longrightarrow>
    schema_name separators (v @ s # l)"

lemma split_where_not_Nil [simp]: "split_where P s \<noteq> []" "[] \<noteq> split_where P s"
  by (cases s; auto split: list.splits)+

lemma split_where_no_sep [text_simps]: "\<forall>c\<in>set s. \<not> P c \<Longrightarrow> split_where P s = [s]"
  by (induction s) auto

lemma split_where_sep_append [text_simps]:
  "P c \<Longrightarrow> split_where P (a @ c # b) = split_where P a @ split_where P b"
  by (induction a) (auto split: list.splits)

lemma labelled_alt:
  "labelled v seps \<longleftrightarrow> v \<noteq> [] \<and>
     (\<forall>l\<in>set (split_where (\<lambda>c. c \<in> set seps) v). l \<noteq> [] \<and> (\<forall>c\<in>set l. label_byte c))"
proof -
  have "List.member seps = (\<lambda>c. c \<in> set seps)" by (simp add: fun_eq_iff)
  then show ?thesis by (simp add: labelled_def list_all_iff)
qed

lemma schema_name_labelled:
  assumes "schema_name seps v" "\<forall>s\<in>set seps. \<not> label_byte s"
  shows "labelled v seps"
  using assms
proof (induction rule: schema_name.induct)
  case (one l)
  then have "split_where (\<lambda>c. c \<in> set seps) l = [l]" by (intro split_where_no_sep) auto
  with one show ?case by (simp add: labelled_alt)
next
  case (more v s l)
  then have "split_where (\<lambda>c. c \<in> set seps) l = [l]" by (intro split_where_no_sep) auto
  with more show ?case by (simp add: labelled_alt split_where_sep_append ball_Un)
qed

lemma labelled_schema_name: "labelled v seps \<Longrightarrow> schema_name seps v"
proof (induction "length v" arbitrary: v rule: less_induct)
  case less
  show ?case
  proof (cases "\<exists>c\<in>set v. c \<in> set seps")
    case False
    then have "split_where (\<lambda>c. c \<in> set seps) v = [v]" by (intro split_where_no_sep) auto
    with less.prems show ?thesis by (auto simp: labelled_alt intro: schema_name.one)
  next
    case True
    then obtain a s l where v: "v = a @ s # l" "s \<in> set seps" "\<forall>c\<in>set l. c \<notin> set seps"
      using split_list_last_prop [of v "\<lambda>c. c \<in> set seps"] by blast
    then have l: "split_where (\<lambda>c. c \<in> set seps) v = split_where (\<lambda>c. c \<in> set seps) a @ [l]"
      by (simp add: split_where_sep_append split_where_no_sep)
    moreover from this less.prems have "a \<noteq> []" by (auto simp: labelled_alt)
    ultimately have "labelled a seps" "l \<noteq> []" "\<forall>c\<in>set l. label_byte c"
      using less.prems by (auto simp: labelled_alt)
    then show ?thesis using less.hyps [of a] v by (auto intro: schema_name.more)
  qed
qed

lemma separators_plain: "\<forall>s\<in>set ''-''. \<not> label_byte s" "\<forall>s\<in>set ''.-''. \<not> label_byte s"
  by (simp_all add: label_byte_def is_ascii_lowercase_def is_ascii_digit_def)

lemma schema_name_bytes: "schema_name seps v \<Longrightarrow> \<forall>c\<in>set v. label_byte c \<or> c \<in> set seps"
  by (induction rule: schema_name.induct) auto

lemma labelled_bytes: "labelled v seps \<Longrightarrow> c \<in> set v \<Longrightarrow> label_byte c \<or> c \<in> set seps"
  using schema_name_bytes labelled_schema_name by blast

lemma label_byte_lower: "label_byte c \<or> c \<in> set ''.-'' \<Longrightarrow> lower_byte c = c"
  by (rule lower_byte_id) (auto simp: label_byte_def is_ascii_lowercase_def is_ascii_digit_def is_ascii_uppercase_def)

lemma labelled_lower: "labelled v ''.-'' \<Longrightarrow> to_ascii_lowercase v = v"
  using labelled_bytes [of v "''.-''"] label_byte_lower
  by (auto simp: to_ascii_lowercase_def intro!: map_idI)

section \<open>What is accepted\<close>

lemma validate_slug_ok: "validate_slug s = Inr () \<longleftrightarrow> schema_name ''-'' s"
  using labelled_schema_name [of s "''-''"] schema_name_labelled [OF _ separators_plain(1)]
  by (auto simp: validate_slug_def)

definition portal_host :: "url_parser \<Rightarrow> string \<Rightarrow> string option" where
  "portal_host parse origin =
     (case parse origin of None \<Rightarrow> None | Some u \<Rightarrow> map_option to_ascii_lowercase (url_host_str u))"

lemma validate_hostname_ok:
  "validate_hostname parse h origin = Inr h' \<longleftrightarrow>
     h' = to_ascii_lowercase h \<and> schema_name ''.-'' h' \<and> first_piece CHR ''.'' h' \<notin> {''portal'', ''auth''}
     \<and> portal_host parse origin \<noteq> Some h'"
proof -
  have "labelled v ''.-'' \<longleftrightarrow> schema_name ''.-'' v" for v
    using labelled_schema_name schema_name_labelled [OF _ separators_plain(2)] by blast
  moreover have "(case parse origin of None \<Rightarrow> False
                  | Some u \<Rightarrow> (case url_host_str u of None \<Rightarrow> False
                              | Some portal \<Rightarrow> to_ascii_lowercase portal = g)) \<longleftrightarrow>
      portal_host parse origin = Some g" for g
    by (auto simp: portal_host_def split: option.splits)
  ultimately show ?thesis by (auto simp: validate_hostname_def Let_def)
qed

lemma schema_name_lower: "schema_name ''.-'' h \<Longrightarrow> to_ascii_lowercase h = h"
  by (intro labelled_lower schema_name_labelled [OF _ separators_plain(2)])

definition reserved_ip :: "ip_addr \<Rightarrow> bool" where
  "reserved_ip ip \<longleftrightarrow> is_loopback ip \<or> is_link_local ip \<or> is_unspecified ip \<or> is_multicast ip"

lemma reject_reserved_ok: "reject_reserved ip = Inr () \<longleftrightarrow> \<not> reserved_ip ip"
  by (cases ip) (auto simp: reject_reserved_def reserved_ip_def Let_def)

lemma validate_upstream_ok:
  "validate_upstream parse raw = Inr () \<longleftrightarrow>
     (\<exists>u. parse raw = Some u \<and> url_scheme u \<in> {''http'', ''https''} \<and> url_username u = ''''
        \<and> url_password u = None \<and> url_path u \<in> {'''', ''/''} \<and> url_query u = None \<and> url_fragment u = None
        \<and> (\<forall>p. url_port u = Some p \<longrightarrow> p \<notin> set infrastructure_ports)
        \<and> ((\<exists>d. url_host u = Some (Domain d) \<and> schema_name ''.-'' (to_ascii_lowercase d)
               \<and> to_ascii_lowercase d \<notin> set infrastructure_names)
           \<or> (\<exists>ip. url_host u = Some (Ip ip) \<and> \<not> reserved_ip ip)))"
proof -
  have "labelled v ''.-'' \<longleftrightarrow> schema_name ''.-'' v" for v
    using labelled_schema_name schema_name_labelled [OF _ separators_plain(2)] by blast
  then show ?thesis
    by (auto simp: validate_upstream_def Let_def reject_reserved_ok split: option.splits host.splits)
qed

section \<open>Trimming text\<close>

lemma trim_on_idem: "trim_on P (trim_on P xs) = trim_on P xs"
proof -
  have end_ok: "trim_end_on P ys = [] \<or> \<not> P (last (trim_end_on P ys))" for ys :: "'a list"
    by (induction ys rule: rev_induct) auto
  have head_ok: "dropWhile P (trim_end_on P ys) = trim_end_on P ys"
    if "ys = [] \<or> \<not> P (hd ys)" for ys :: "'a list"
    using that
  proof (induction ys rule: rev_induct)
    case (snoc y ys)
    then show ?case by (cases ys) (auto simp: trim_end_on_def)
  qed (simp add: trim_end_on_def)
  have "dropWhile P xs = [] \<or> \<not> P (hd (dropWhile P xs))"
    using hd_dropWhile [of P xs] by blast
  then have "dropWhile P (trim_on P xs) = trim_on P xs"
    unfolding trim_on_def by (rule head_ok)
  then show ?thesis
    using trim_end_on_keeps [of "trim_end_on P (dropWhile P xs)" P] end_ok [of "dropWhile P xs"]
    by (simp add: trim_on_def)
qed

lemma chars_of_scalar: "n \<in> set (chars_of s) \<Longrightarrow> is_scalar n"
  using utf8_decode_SomeD [of s] by (cases "utf8_decode s") (auto simp: chars_of_def)

lemma chars_of_str_trim: "chars_of (str_trim s) = trim_on is_whitespace (chars_of s)"
proof -
  have "is_scalar n" if "n \<in> set (trim_on is_whitespace (chars_of s))" for n
    using that set_trim_on [of is_whitespace "chars_of s"] by (intro chars_of_scalar [of n s]) auto
  then have "utf8_decode (utf8_encode (trim_on is_whitespace (chars_of s))) = Some (trim_on is_whitespace (chars_of s))"
    by (rule utf8_decode_encode)
  then show ?thesis unfolding str_trim_def by (simp only: chars_of_def option.case)
qed

lemma str_trim_idem: "str_trim (str_trim s) = str_trim s"
  unfolding str_trim_def [of "str_trim s"] chars_of_str_trim trim_on_idem by (simp only: str_trim_def)

lemma validate_name_ok:
  "validate_name raw = Inr n \<longleftrightarrow> n = str_trim raw \<and> n \<noteq> '''' \<and> length (chars_of n) \<le> 200"
  by (auto simp: validate_name_def Let_def LABEL_MAX_def)

section \<open>Properties\<close>



text \<open>C35: the hand-written label scanner is the regular expression of the schema's CHECK constraints:
  a slug is accepted exactly when it is in \<open>[a-z0-9]+(-[a-z0-9]+)*\<close>, and a hostname, in lower
  case, exactly when it is in \<open>[a-z0-9]+([.-][a-z0-9]+)*\<close>, does not start with a reserved label
  and is not the portal's own.\<close>

theorem labels_are_the_schema:
  "(validate_slug slug = Inr () \<longleftrightarrow> schema_name ''-'' slug) \<and>
   (validate_hostname parse hostname portal_origin = Inr stored \<longleftrightarrow>
      stored = to_ascii_lowercase hostname \<and> schema_name ''.-'' stored
      \<and> first_piece CHR ''.'' stored \<notin> {''portal'', ''auth''}
      \<and> portal_host parse portal_origin \<noteq> Some stored)"
  by (simp only: validate_slug_ok validate_hostname_ok)

text \<open>What \<open>validate_hostname\<close> answers with is what may be stored: validating the stored spelling
  again accepts it unchanged, so the generator accepts every row the API wrote.\<close>

lemma stored_hostname_is_stable:
  assumes "validate_hostname parse hostname portal_origin = Inr stored"
  shows "validate_hostname parse stored portal_origin = Inr stored"
  using assms schema_name_lower by (auto simp: validate_hostname_ok)

lemma stored_hostname_is_stable_witness:
  "validate_hostname (\<lambda>_. None) ''wiki.apps'' ''x'' = Inr ''wiki.apps''"
proof -
  have "validate_hostname (\<lambda>_. None) ''Wiki.APPS'' ''x'' = Inr ''wiki.apps''" by code_simp
  then show ?thesis by (rule stored_hostname_is_stable)
qed


definition sample_url :: url where
  "sample_url = \<lparr>url_scheme = ''http'', url_username = '''', url_password = None,
     url_host = Some (Domain ''wiki-app''), url_host_str = Some ''wiki-app'', url_port = Some 8080,
     url_known_port = Some 8080, url_path = ''/'', url_query = None, url_fragment = None\<rparr>"


text \<open>The address check looks at an IPv6 address as written: an IPv4-mapped address of any IPv4
  address is accepted, the ones whose IPv4 form is refused included (\<open>169.254.169.254\<close>,
  \<open>127.0.0.1\<close>).\<close>

theorem mapped_addresses_are_accepted:
  "reject_reserved (V6 0 0 0 0 0 0xffff hi lo) = Inr () \<and>
   reject_reserved (V4 169 254 169 254) \<noteq> Inr () \<and> reject_reserved (V4 127 0 0 1) \<noteq> Inr ()"
  by (simp add: reject_reserved_def)

text \<open>A stored name is trimmed, not empty and at most 200 characters, and is a fixed point: sending
  the stored name again stores the same name.\<close>

lemma stored_name_is_stable:
  assumes "validate_name raw = Inr name"
  shows "name \<noteq> '''' \<and> length (chars_of name) \<le> 200 \<and> validate_name name = Inr name"
  using assms by (auto simp: validate_name_ok str_trim_idem)

lemma stored_name_is_stable_witness: "validate_name ''Wiki'' = Inr ''Wiki''"
proof -
  have "chars_of ''  Wiki '' = [32, 32, 87, 105, 107, 105, 32]" "chars_of ''Wiki'' = [87, 105, 107, 105]"
    by (simp_all add: chars_of_def)
  then have "str_trim ''  Wiki '' = ''Wiki''"
    by (simp add: str_trim_def trim_on_def trim_end_on_def is_whitespace_def utf8_encode_def encode_char_def char_of_def bit_0)
  then have "validate_name ''  Wiki '' = Inr ''Wiki''"
    using \<open>chars_of ''Wiki'' = _\<close> by (simp add: validate_name_def LABEL_MAX_def)
  from stored_name_is_stable [OF this] show ?thesis by blast
qed

end
