(* ===== verification/Nginx.thy ===== *)
theory Nginx
  imports Validate
begin

text \<open>
  \<open>nginx.rs\<close>: the server blocks generated from the application table, the normal file and the
  break-glass file, and how they are staged. \<open>config_value\<close> is the contract between the
  validators and the templates: an accepted value is made of bytes that mean nothing to nginx.
  It is interpreted on the slug, the hostname and the upstream host of the model, and the
  properties say that a value never leaves its line, that every generated block is guarded, that
  the two files list the same applications, and that the reloader never sees half a file.
\<close>

section \<open>Rows\<close>

type_synonym uuid = nat

record application =
  app_id :: uuid
  slug :: string
  app_name :: string
  icon :: "string option"
  upstream_url :: string
  external_hostname :: string
  enabled :: bool

type_synonym server_row = "application \<times> string \<times> nat \<times> string"

definition renderable :: "url_parser \<Rightarrow> application list \<Rightarrow> string \<Rightarrow> server_row list" where
  "renderable parse applications portal_origin =
     List.map_filter (\<lambda>app.
       case and_then (and_then (validate_slug (slug app)) (\<lambda>_. validate_upstream parse (upstream_url app)))
              (\<lambda>_. validate_hostname parse (external_hostname app) portal_origin) of
         Inl why \<Rightarrow> None
       | Inr _ \<Rightarrow>
           (case parse (upstream_url app) of
              None \<Rightarrow> None
            | Some url \<Rightarrow>
                (case url_host_str url of
                   None \<Rightarrow> None
                 | Some host \<Rightarrow>
                     (case url_known_port url of
                        None \<Rightarrow> None
                      | Some port \<Rightarrow> Some (app, host, port, url_scheme url)))))
       (filter enabled applications)"

section \<open>Text\<close>

abbreviation newline :: char where
  "newline \<equiv> CHR 0x0A"

text \<open>Rust's \<open>Display\<close> of an unsigned integer.\<close>

fun decimal :: "nat \<Rightarrow> string" where
  "decimal n = (if n < 10 then [char_of (48 + n)] else decimal (n div 10) @ [char_of (48 + n mod 10)])"

declare decimal.simps [simp del]

definition out_lines :: "string list \<Rightarrow> string" where
  "out_lines ls = concat (map (\<lambda>l. l @ [newline]) ls)"

section \<open>The two templates\<close>

definition apps_header :: "string list" where
  "apps_header =
     [''# Generated from the `application` table by the backend (ADR-0011).'',
      ''         # Do not edit: the next admin change overwrites it. The hand-written'',
      ''         # half of the configuration is in the image; only this file is not.'']"

fun server_lines :: "server_row \<Rightarrow> string list" where
  "server_lines (app, host, port, scheme) =
     ['''',
      ''server {'',
      ''    listen 443 ssl;'',
      ''    http2 on;'',
      ''    server_name '' @ external_hostname app @ '';'',
      '''',
      ''    # Fixed here, never taken from the request: the subrequest'',
      ''    # inherits the client's Host verbatim.'',
      ''    set $app_slug '' @ slug app @ '';'',
      '''',
      ''    include /etc/nginx/conf.d/errors.inc;'',
      ''    include /etc/nginx/conf.d/decide.inc;'',
      '''',
      ''    location / {'',
      ''        include /etc/nginx/conf.d/protected.inc;'',
      ''        set $upstream '' @ host @ '';'',
      ''        proxy_pass '' @ scheme @ ''://$upstream:'' @ decimal port @ '';'',
      ''    }'',
      ''}'']"

definition render_apps_conf :: "url_parser \<Rightarrow> application list \<Rightarrow> string \<Rightarrow> string" where
  "render_apps_conf parse applications portal_origin =
     foldl (\<lambda>out row. out @ out_lines (server_lines row)) (out_lines apps_header)
       (renderable parse applications portal_origin)"

definition breakglass_header :: "string list" where
  "breakglass_header =
     [''# Generated from the `application` table by the backend (ADR-0030).'',
      ''         # BREAK-GLASS: these blocks serve the applications with NO authorisation.'',
      ''         # Read only by breakglass.conf, which nothing starts by itself.'']"

fun breakglass_lines :: "server_row \<Rightarrow> string list" where
  "breakglass_lines (app, host, port, scheme) =
     ['''',
      ''server {'',
      ''    listen 443 ssl;'',
      ''    http2 on;'',
      ''    server_name '' @ external_hostname app @ '';'',
      '''',
      ''    location / {'',
      ''        include /etc/nginx/breakglass/upstream.inc;'',
      ''        set $upstream '' @ host @ '';'',
      ''        proxy_pass '' @ scheme @ ''://$upstream:'' @ decimal port @ '';'',
      ''    }'',
      ''}'']"

definition render_breakglass_conf :: "url_parser \<Rightarrow> application list \<Rightarrow> string \<Rightarrow> string" where
  "render_breakglass_conf parse applications portal_origin =
     foldl (\<lambda>out row. out @ out_lines (breakglass_lines row)) (out_lines breakglass_header)
       (renderable parse applications portal_origin)"

section \<open>Staging\<close>

text \<open>
  The volume shared with the reloader, by path. A write can fail and leave anything behind at
  the path it writes; a rename moves the whole file or fails and changes nothing.
\<close>

type_synonym volume = "string \<rightharpoonup> string"

datatype write_outcome = Written | Write_failed string "string option"

datatype rename_outcome = Renamed | Rename_failed string

definition path_join :: "string \<Rightarrow> string \<Rightarrow> string" where
  "path_join dir name =
     (if dir = '''' then name else if suffix ''/'' dir then dir @ name else dir @ ''/'' @ name)"

definition stage ::
  "write_outcome \<Rightarrow> rename_outcome \<Rightarrow> string \<Rightarrow> string \<Rightarrow> string \<Rightarrow> volume \<Rightarrow> volume \<times> (string + unit)" where
  "stage w r dir name body fs =
     (let writing = path_join dir (name @ ''.writing'');
          staged = path_join dir (name @ ''.staged'')
      in case w of
           Write_failed e left \<Rightarrow> (fs(writing := left), Inl (''writing '' @ writing @ '': '' @ e))
         | Written \<Rightarrow>
             (let fs = fs(writing \<mapsto> body)
              in case r of
                   Rename_failed e \<Rightarrow> (fs, Inl (''staging '' @ staged @ '': '' @ e))
                 | Renamed \<Rightarrow> (fs(staged := fs writing, writing := None), Inr ())))"

text \<open>The outcomes of the two stagings and of the query are the environment's.\<close>

definition publish_conf ::
  "url_parser \<Rightarrow> string + application list \<Rightarrow> write_outcome \<times> rename_outcome \<Rightarrow> write_outcome \<times> rename_outcome
     \<Rightarrow> string \<Rightarrow> string \<Rightarrow> volume \<Rightarrow> volume \<times> (string + unit)" where
  "publish_conf parse fetched io1 io2 dir portal_origin fs =
     (case fetched of
        Inl e \<Rightarrow> (fs, Inl (''reading applications: '' @ e))
      | Inr applications \<Rightarrow>
          (case stage (fst io1) (snd io1) dir ''apps.conf'' (render_apps_conf parse applications portal_origin) fs of
             (fs, Inl e) \<Rightarrow> (fs, Inl e)
           | (fs, Inr _) \<Rightarrow>
               stage (fst io2) (snd io2) dir ''breakglass.apps''
                 (render_breakglass_conf parse applications portal_origin) fs))"

section \<open>Values that mean nothing to nginx\<close>

definition config_byte :: "char \<Rightarrow> bool" where
  "config_byte c \<longleftrightarrow> label_byte c \<or> is_ascii_uppercase c \<or> c \<in> set ''.-:[]''"

locale config_value =
  fixes accepts :: "string \<Rightarrow> bool"
  assumes accepted_bytes: "accepts v \<Longrightarrow> v \<noteq> [] \<and> (\<forall>c\<in>set v. config_byte c)"
begin

lemma no_directive:
  assumes "accepts v"
  shows "set v \<inter> set '' ;{}$#'' = {}" "newline \<notin> set v"
proof -
  have "\<not> config_byte c" if "c \<in> set '' ;{}$#'' \<or> c = newline" for c
    using that by (auto simp: config_byte_def label_byte_def is_ascii_lowercase_def
        is_ascii_digit_def is_ascii_uppercase_def)
  then show "set v \<inter> set '' ;{}$#'' = {}" "newline \<notin> set v"
    using accepted_bytes [OF assms] by blast+
qed

lemma stays_on_line:
  "accepts v \<Longrightarrow> newline \<notin> set pre \<Longrightarrow> newline \<notin> set post \<Longrightarrow> newline \<notin> set (pre @ v @ post)"
  using no_directive(2) by simp

end

text \<open>
  What the code relies on of the \<open>url\<close> crate: the serialised host of a domain is the domain, in
  lower case for http and https, and that of an address is its usual notation, an IPv6 address
  in brackets.
\<close>

definition lawful_url :: "url_parser \<Rightarrow> bool" where
  "lawful_url parse \<longleftrightarrow>
     (\<forall>raw u. parse raw = Some u \<longrightarrow>
        (\<forall>d. url_host u = Some (Domain d) \<longrightarrow> url_host_str u = Some d) \<and>
        (\<forall>ip. url_host u = Some (Ip ip) \<longrightarrow>
           (\<exists>s. url_host_str u = Some s \<and> s \<noteq> [] \<and> (\<forall>c\<in>set s. label_byte c \<or> c \<in> set ''.:[]''))))"

definition upstream_host :: "url_parser \<Rightarrow> string \<Rightarrow> string option" where
  "upstream_host parse raw =
     (if validate_upstream parse raw = Inr () then Option.bind (parse raw) url_host_str else None)"

lemma schema_name_nonempty: "schema_name seps v \<Longrightarrow> v \<noteq> []"
  by (erule schema_name.cases) auto

lemma schema_name_config: "schema_name seps v \<Longrightarrow> set seps \<subseteq> set ''.-:[]'' \<Longrightarrow> c \<in> set v \<Longrightarrow> config_byte c"
  using schema_name_bytes [of seps v] by (auto simp: config_byte_def)

lemma config_byte_lower: "config_byte (lower_byte c) \<Longrightarrow> config_byte c"
  by (cases "is_ascii_uppercase c") (simp_all add: config_byte_def lower_byte_id)

lemma schema_name_value:
  assumes "schema_name seps v" "set seps \<subseteq> set ''.-:[]''"
  shows "v \<noteq> [] \<and> (\<forall>c\<in>set v. config_byte c)"
  using schema_name_nonempty [OF assms(1)] schema_name_config [OF assms] by blast

lemma schema_name_lower_value:
  assumes "schema_name ''.-'' (to_ascii_lowercase v)"
  shows "v \<noteq> [] \<and> (\<forall>c\<in>set v. config_byte c)"
proof -
  have "to_ascii_lowercase v \<noteq> [] \<and> (\<forall>c\<in>set (to_ascii_lowercase v). config_byte c)"
    using assms by (rule schema_name_value) simp
  then show ?thesis by (auto simp: to_ascii_lowercase_def intro: config_byte_lower)
qed

interpretation slug_value: config_value "\<lambda>v. validate_slug v = Inr ()"
proof unfold_locales
  fix v assume "validate_slug v = Inr ()"
  then have "schema_name ''-'' v" by (simp add: validate_slug_ok)
  then show "v \<noteq> [] \<and> (\<forall>c\<in>set v. config_byte c)"
    by (rule schema_name_value) simp
qed

interpretation hostname_value: config_value "\<lambda>v. \<exists>parse origin. is_ok (validate_hostname parse v origin)"
proof unfold_locales
  fix v assume "\<exists>parse origin. is_ok (validate_hostname parse v origin)"
  then have "schema_name ''.-'' (to_ascii_lowercase v)" by (auto simp: is_ok_iff validate_hostname_ok)
  then show "v \<noteq> [] \<and> (\<forall>c\<in>set v. config_byte c)" by (rule schema_name_lower_value)
qed

interpretation upstream_value: config_value "\<lambda>v. \<exists>parse raw. lawful_url parse \<and> upstream_host parse raw = Some v"
proof unfold_locales
  fix v assume "\<exists>parse raw. lawful_url parse \<and> upstream_host parse raw = Some v"
  then obtain parse raw where l: "lawful_url parse" and h: "upstream_host parse raw = Some v" by blast
  then obtain u where u: "parse raw = Some u" "url_host_str u = Some v" "validate_upstream parse raw = Inr ()"
    by (auto simp: upstream_host_def bind_eq_Some_conv split: if_splits)
  consider (name) d where "url_host u = Some (Domain d)" "schema_name ''.-'' (to_ascii_lowercase d)"
    | (addr) ip where "url_host u = Some (Ip ip)"
    using u by (auto simp: validate_upstream_ok)
  then show "v \<noteq> [] \<and> (\<forall>c\<in>set v. config_byte c)"
  proof cases
    case name
    then have "d = v" using l u by (auto simp: lawful_url_def)
    then show ?thesis using schema_name_lower_value [OF name(2)] by simp
  next
    case addr
    then have "v \<noteq> [] \<and> (\<forall>c\<in>set v. label_byte c \<or> c \<in> set ''.:[]'')"
      using l u(1,2) unfolding lawful_url_def by force
    then show ?thesis by (auto simp: config_byte_def)
  qed
qed

section \<open>What a rendered row is\<close>

lemma renderable_row:
  assumes "(app, host, port, scheme) \<in> set (renderable parse applications origin)"
  shows "app \<in> set applications" "enabled app" "validate_slug (slug app) = Inr ()"
    "validate_upstream parse (upstream_url app) = Inr ()"
    "is_ok (validate_hostname parse (external_hostname app) origin)"
    "upstream_host parse (upstream_url app) = Some host" "scheme \<in> {''http'', ''https''}"
proof -
  have r: "app \<in> set applications \<and> enabled app \<and> validate_slug (slug app) = Inr ()
    \<and> validate_upstream parse (upstream_url app) = Inr ()
    \<and> is_ok (validate_hostname parse (external_hostname app) origin)
    \<and> (\<exists>u. parse (upstream_url app) = Some u \<and> url_host_str u = Some host \<and> scheme = url_scheme u)"
  proof -
    let ?check = "\<lambda>y. and_then (and_then (validate_slug (slug y)) (\<lambda>_. validate_upstream parse (upstream_url y)))
      (\<lambda>_. validate_hostname parse (external_hostname y) origin)"
    obtain y where y: "y \<in> set applications" "enabled y"
      "(case ?check y of Inl why \<Rightarrow> None
        | Inr _ \<Rightarrow> (case parse (upstream_url y) of None \<Rightarrow> None
            | Some url \<Rightarrow> (case url_host_str url of None \<Rightarrow> None
                | Some host \<Rightarrow> (case url_known_port url of None \<Rightarrow> None
                    | Some port \<Rightarrow> Some (y, host, port, url_scheme url))))) = Some (app, host, port, scheme)"
      using assms unfolding renderable_def set_map_filter by auto
    then have ok: "is_ok (?check y)" by (cases "?check y") auto
    then have "y = app \<and> (\<exists>u. parse (upstream_url y) = Some u \<and> url_host_str u = Some host \<and> scheme = url_scheme u)"
      using y(3) by (auto simp: is_ok_iff split: option.splits)
    with ok y(1,2) show ?thesis by (auto simp: is_ok_iff and_then_eq_Inr)
  qed
  then show "app \<in> set applications" "enabled app" "validate_slug (slug app) = Inr ()"
    "validate_upstream parse (upstream_url app) = Inr ()"
    "is_ok (validate_hostname parse (external_hostname app) origin)" by blast+
  from r show "upstream_host parse (upstream_url app) = Some host"
    by (auto simp: upstream_host_def)
  from r show "scheme \<in> {''http'', ''https''}" by (auto simp: validate_upstream_ok)
qed

lemma row_text:
  assumes "lawful_url parse" "(app, host, port, scheme) \<in> set (renderable parse applications origin)"
  shows "\<forall>v\<in>{slug app, external_hostname app, host}.
     v \<noteq> [] \<and> (\<forall>c\<in>set v. config_byte c) \<and> newline \<notin> set v \<and> set v \<inter> set '' ;{}$#'' = {}"
proof -
  note r = renderable_row [OF assms(2)]
  have "\<exists>parse origin. is_ok (validate_hostname parse (external_hostname app) origin)"
    "\<exists>parse raw. lawful_url parse \<and> upstream_host parse raw = Some host"
    using r assms(1) by blast+
  note v = r(3) this
  show ?thesis
    using slug_value.accepted_bytes [OF v(1)] hostname_value.accepted_bytes [OF v(2)]
      upstream_value.accepted_bytes [OF v(3)] slug_value.no_directive [OF v(1)]
      hostname_value.no_directive [OF v(2)] upstream_value.no_directive [OF v(3)] by simp
qed

section \<open>Lines of the rendered files\<close>

lemma decimal_digits: "c \<in> set (decimal n) \<Longrightarrow> is_ascii_digit c"
proof (induction n rule: decimal.induct)
  case (1 n)
  have d: "is_ascii_digit (char_of (48 + m))" if "m < 10" for m :: nat
    using that by (simp add: is_ascii_digit_def)
  show ?case
    using 1 d [of n] d [of "n mod 10"] by (subst (asm) (2) decimal.simps) (auto split: if_splits)
qed

lemma newline_not_in_decimal [simp]: "newline \<notin> set (decimal n)"
  using decimal_digits [of newline n] by (auto simp: is_ascii_digit_def)

lemma out_lines_simps [simp]:
  "out_lines [] = []"
  "out_lines (ls @ ms) = out_lines ls @ out_lines ms"
  "out_lines (l # ls) = l @ newline # out_lines ls"
  by (simp_all add: out_lines_def)

lemma split_out_lines:
  "\<forall>l\<in>set ls. newline \<notin> set l \<Longrightarrow> split_on newline (out_lines ls) = ls @ [[]]"
  by (induction ls) (simp_all add: text_simps)

lemma foldl_out_lines:
  "foldl (\<lambda>out row. out @ out_lines (f row)) (out_lines ls) rows = out_lines (ls @ concat (map f rows))"
proof (induction rows arbitrary: ls)
  case (Cons r rows)
  have "foldl (\<lambda>out row. out @ out_lines (f row)) (out_lines (ls @ f r)) rows =
      out_lines ((ls @ f r) @ concat (map f rows))" by (rule Cons)
  then show ?case by simp
qed simp

lemma server_lines_no_newline:
  assumes "lawful_url parse" "row \<in> set (renderable parse applications origin)"
  shows "\<forall>l\<in>set (server_lines row). newline \<notin> set l" "\<forall>l\<in>set (breakglass_lines row). newline \<notin> set l"
proof -
  obtain app host port scheme where row: "row = (app, host, port, scheme)" by (cases row)
  have "newline \<notin> set scheme" using renderable_row(7) assms(2) row by fastforce
  then show "\<forall>l\<in>set (server_lines row). newline \<notin> set l" "\<forall>l\<in>set (breakglass_lines row). newline \<notin> set l"
    using row_text [OF assms(1) assms(2) [unfolded row]] by (simp_all add: row)
qed

lemma apps_conf_lines:
  assumes "lawful_url parse"
  shows "split_on newline (render_apps_conf parse applications origin) =
    apps_header @ concat (map server_lines (renderable parse applications origin)) @ ['''']"
    "split_on newline (render_breakglass_conf parse applications origin) =
    breakglass_header @ concat (map breakglass_lines (renderable parse applications origin)) @ ['''']"
proof -
  let ?rows = "renderable parse applications origin"
  have "\<forall>l\<in>set (apps_header @ concat (map server_lines ?rows)). newline \<notin> set l"
    "\<forall>l\<in>set (breakglass_header @ concat (map breakglass_lines ?rows)). newline \<notin> set l"
    using server_lines_no_newline [OF assms] by (auto simp: apps_header_def breakglass_header_def)
  then show "split_on newline (render_apps_conf parse applications origin) =
    apps_header @ concat (map server_lines ?rows) @ ['''']"
    "split_on newline (render_breakglass_conf parse applications origin) =
    breakglass_header @ concat (map breakglass_lines ?rows) @ ['''']"
    by (simp_all only: render_apps_conf_def render_breakglass_conf_def foldl_out_lines split_out_lines append_assoc)
qed

lemma count_list_concat_const:
  "\<forall>r\<in>set rows. count_list (f r) x = k \<Longrightarrow> count_list (concat (map f rows)) x = k * length rows"
  by (induction rows) auto

section \<open>Staging, path by path\<close>

lemma path_join_inject [simp]: "path_join dir a = path_join dir b \<longleftrightarrow> a = b"
  by (auto simp: path_join_def)

lemma stage_frame [frame_simps]:
  "p \<noteq> path_join dir (name @ ''.writing'') \<Longrightarrow> p \<noteq> path_join dir (name @ ''.staged'') \<Longrightarrow>
   fst (stage w r dir name body fs) p = fs p"
  by (simp add: stage_def Let_def split: write_outcome.split rename_outcome.split)

lemma stage_staged:
  "fst (stage w r dir name body fs) (path_join dir (name @ ''.staged'')) =
     (if snd (stage w r dir name body fs) = Inr () then Some body
      else fs (path_join dir (name @ ''.staged'')))"
  by (simp add: stage_def Let_def split: write_outcome.split rename_outcome.split)

section \<open>Properties\<close>

text \<open>C37: no value of a row becomes nginx syntax: the generated file is its header, then exactly the
  lines of one block per renderable row, and in each row the slug, the hostname and the upstream
  host are non-empty and hold no blank, newline, semicolon, brace, dollar or hash.\<close>

theorem generated_configuration_lines:
  assumes "lawful_url parse"
  shows "split_on newline (render_apps_conf parse applications portal_origin) =
      apps_header @ concat (map server_lines (renderable parse applications portal_origin)) @ ['''']
    \<and> (\<forall>(app, host, port, scheme)\<in>set (renderable parse applications portal_origin).
         scheme \<in> {''http'', ''https''} \<and> enabled app \<and>
         (\<forall>v\<in>{slug app, external_hostname app, host}.
            v \<noteq> [] \<and> newline \<notin> set v \<and> set v \<inter> set '' ;{}$#'' = {}))"
proof (intro conjI ballI)
  fix row assume r: "row \<in> set (renderable parse applications portal_origin)"
  obtain app host port scheme where row: "row = (app, host, port, scheme)" by (cases row)
  show "case row of (app, host, port, scheme) \<Rightarrow> scheme \<in> {''http'', ''https''} \<and> enabled app \<and>
         (\<forall>v\<in>{slug app, external_hostname app, host}.
            v \<noteq> [] \<and> newline \<notin> set v \<and> set v \<inter> set '' ;{}$#'' = {})"
    using row_text [OF assms r [unfolded row]] renderable_row(2,7) [OF r [unfolded row]]
    unfolding row prod.case by blast
qed (rule apps_conf_lines(1) [OF assms])

definition sample_app :: application where
  "sample_app = \<lparr>app_id = 1, slug = ''wiki'', app_name = ''Wiki'', icon = None,
     upstream_url = ''http://wiki-app:8080'', external_hostname = ''Wiki.apps'', enabled = True\<rparr>"

definition sample_parser :: url_parser where
  "sample_parser raw = (if raw = ''http://wiki-app:8080'' then Some sample_url else None)"

lemma sample_lawful: "lawful_url sample_parser"
  by (auto simp: lawful_url_def sample_parser_def sample_url_def split: if_splits)

lemma sample_renderable:
  "renderable sample_parser [sample_app] ''portal'' = [(sample_app, ''wiki-app'', 8080, ''http'')]"
proof -
  have "labelled ''wiki-app'' ''.-''" "to_ascii_lowercase ''wiki-app'' = ''wiki-app''"
    "validate_slug ''wiki'' = Inr ()" "labelled ''wiki.apps'' ''.-''"
    "to_ascii_lowercase ''Wiki.apps'' = ''wiki.apps''" "first_piece CHR ''.'' ''wiki.apps'' = ''wiki''"
    by code_simp+
  then show ?thesis
    by (simp add: renderable_def sample_parser_def sample_app_def validate_upstream_def sample_url_def
        infrastructure_ports_def infrastructure_names_def validate_hostname_def)
qed

theorem generated_configuration_lines_witness:
  "set (slug sample_app) \<inter> set '' ;{}$#'' = {}"
  using generated_configuration_lines [OF sample_lawful, of "[sample_app]" "''portal''"]
  by (simp add: sample_renderable)

text \<open>C16: every generated application is guarded and break-glass never is by accident: in the normal
  file there are exactly as many \<open>protected.inc\<close>, \<open>decide.inc\<close> and \<open>location\<close> lines as servers; in
  the break-glass file no guard line at all and the header strip once per server.\<close>

theorem one_guard_per_server:
  assumes "lawful_url parse"
    and normal_def: "normal = split_on newline (render_apps_conf parse applications portal_origin)"
    and unguarded_def: "unguarded = split_on newline (render_breakglass_conf parse applications portal_origin)"
    and n_def: "n = length (renderable parse applications portal_origin)"
  shows "count_list normal ''server {'' = n \<and> count_list normal ''    location / {'' = n
    \<and> count_list normal ''        include /etc/nginx/conf.d/protected.inc;'' = n
    \<and> count_list normal ''    include /etc/nginx/conf.d/decide.inc;'' = n
    \<and> count_list unguarded ''server {'' = n
    \<and> count_list unguarded ''        include /etc/nginx/breakglass/upstream.inc;'' = n
    \<and> count_list unguarded ''        include /etc/nginx/conf.d/protected.inc;'' = 0
    \<and> count_list unguarded ''    include /etc/nginx/conf.d/decide.inc;'' = 0"
proof -
  have c: "count_list (concat (map f rows)) x = k * length rows" if "\<And>a h p s. count_list (f (a, h, p, s)) x = k"
    for f :: "server_row \<Rightarrow> string list" and rows x k
    using that by (intro count_list_concat_const) auto
  have "count_list (concat (map server_lines rows)) ''server {'' = length rows"
    "count_list (concat (map server_lines rows)) ''    location / {'' = length rows"
    "count_list (concat (map server_lines rows)) ''        include /etc/nginx/conf.d/protected.inc;'' = length rows"
    "count_list (concat (map server_lines rows)) ''    include /etc/nginx/conf.d/decide.inc;'' = length rows"
    "count_list (concat (map breakglass_lines rows)) ''server {'' = length rows"
    "count_list (concat (map breakglass_lines rows)) ''        include /etc/nginx/breakglass/upstream.inc;'' = length rows"
    "count_list (concat (map breakglass_lines rows)) ''        include /etc/nginx/conf.d/protected.inc;'' = 0"
    "count_list (concat (map breakglass_lines rows)) ''    include /etc/nginx/conf.d/decide.inc;'' = 0" for rows
    by (rule trans [OF c [where k = 1]], simp, simp | rule trans [OF c [where k = 0]], simp, simp)+
  then show ?thesis
    unfolding normal_def unguarded_def n_def apps_conf_lines [OF assms(1)] count_list_append apps_header_def breakglass_header_def
    by simp
qed

theorem one_guard_per_server_witness:
  "count_list (split_on newline (render_apps_conf sample_parser [sample_app] ''portal''))
     ''        include /etc/nginx/conf.d/protected.inc;'' = 1"
  using one_guard_per_server [OF sample_lawful refl refl refl, of "[sample_app]" "''portal''"]
  by (simp add: sample_renderable)

definition routing_line :: "string \<Rightarrow> bool" where
  "routing_line l \<longleftrightarrow> prefix ''    server_name '' l \<or> prefix ''        set $upstream '' l
     \<or> prefix ''        proxy_pass '' l"

text \<open>The two files route alike: their server names, upstreams and proxy targets are the same
  lines in the same order, so a row the normal file refuses cannot appear, unguarded, in the
  break-glass one.\<close>

theorem breakglass_routes_alike:
  assumes "lawful_url parse"
  shows "filter routing_line (split_on newline (render_breakglass_conf parse applications portal_origin)) =
    filter routing_line (split_on newline (render_apps_conf parse applications portal_origin))"
proof -
  have "filter routing_line (server_lines row) = filter routing_line (breakglass_lines row)" for row
    by (cases row) (simp add: routing_line_def)
  then have "filter routing_line (concat (map server_lines rows)) =
      filter routing_line (concat (map breakglass_lines rows))" for rows
    by (induction rows) simp_all
  then show ?thesis
    unfolding apps_conf_lines [OF assms] by (simp add: apps_header_def breakglass_header_def routing_line_def)
qed

theorem breakglass_routes_alike_witness:
  "filter routing_line (split_on newline (render_breakglass_conf sample_parser [sample_app] ''portal'')) =
   [''    server_name Wiki.apps;'', ''        set $upstream wiki-app;'',
    ''        proxy_pass http://$upstream:'' @ decimal 8080 @ '';'']"
  unfolding breakglass_routes_alike [OF sample_lawful, of "[sample_app]" "''portal''"]
    apps_conf_lines(1) [OF sample_lawful] sample_renderable
  by (simp add: apps_header_def routing_line_def sample_app_def)

text \<open>C38: whatever fails while publishing, each staged file is the old one or the whole new one; when
  publishing succeeds both are the new ones; and the break-glass file never gets ahead of the
  normal one.\<close>

theorem publish_is_atomic:
  assumes "publish_conf parse (Inr applications) io1 io2 dir portal_origin fs = (fs', result)"
    and apps_def: "apps = path_join dir ''apps.conf.staged''"
    and breakglass_def: "breakglass = path_join dir ''breakglass.apps.staged''"
  shows "fs' apps \<in> {fs apps, Some (render_apps_conf parse applications portal_origin)}
    \<and> fs' breakglass \<in> {fs breakglass, Some (render_breakglass_conf parse applications portal_origin)}
    \<and> (result = Inr () \<longrightarrow> fs' breakglass = Some (render_breakglass_conf parse applications portal_origin))
    \<and> (result = Inr () \<or> fs' breakglass \<noteq> fs breakglass
         \<longrightarrow> fs' apps = Some (render_apps_conf parse applications portal_origin))"
proof -
  let ?s1 = "stage (fst io1) (snd io1) dir ''apps.conf'' (render_apps_conf parse applications portal_origin) fs"
  let ?s2 = "stage (fst io2) (snd io2) dir ''breakglass.apps''
    (render_breakglass_conf parse applications portal_origin) (fst ?s1)"
  have run: "(fs', result) = (if snd ?s1 = Inr () then ?s2 else ?s1)"
    using assms(1) by (cases ?s1) (auto simp: publish_conf_def split: sum.splits)
  have "fst ?s1 apps = (if snd ?s1 = Inr () then Some (render_apps_conf parse applications portal_origin) else fs apps)"
    using stage_staged [of "fst io1" "snd io1" dir "''apps.conf''"] by (simp add: apps_def)
  moreover have "fst ?s1 breakglass = fs breakglass" "fst ?s2 apps = fst ?s1 apps"
    by (rule stage_frame; simp add: apps_def breakglass_def)+
  moreover have "fst ?s2 breakglass = (if snd ?s2 = Inr ()
      then Some (render_breakglass_conf parse applications portal_origin) else fst ?s1 breakglass)"
    using stage_staged [of "fst io2" "snd io2" dir "''breakglass.apps''"] by (simp add: breakglass_def)
  ultimately show ?thesis using run by (cases "snd ?s1 = Inr ()"; cases ?s1; cases ?s2; simp split: if_splits)
qed

theorem publish_is_atomic_witness:
  "fst (publish_conf sample_parser (Inr [sample_app]) (Written, Renamed) (Write_failed ''disk full'' (Some ''half''), Renamed)
      ''gen'' ''portal'' Map.empty) ''gen/breakglass.apps.staged'' = None"
proof -
  let ?p = "publish_conf sample_parser (Inr [sample_app]) (Written, Renamed) (Write_failed ''disk full'' (Some ''half''), Renamed)
      ''gen'' ''portal'' Map.empty"
  have "fst ?p ''gen/breakglass.apps.staged'' \<in> {None,
      Some (render_breakglass_conf sample_parser [sample_app] ''portal'')}"
    using publish_is_atomic [of sample_parser "[sample_app]" "(Written, Renamed)"
      "(Write_failed ''disk full'' (Some ''half''), Renamed)" "''gen''" "''portal''" Map.empty "fst ?p" "snd ?p"
      "''gen/apps.conf.staged''" "''gen/breakglass.apps.staged''"]
    by (simp add: path_join_def suffix_def)
  moreover have "fst ?p ''gen/breakglass.apps.staged'' \<noteq> Some (render_breakglass_conf sample_parser [sample_app] ''portal'')"
    by (simp add: publish_conf_def stage_def path_join_def suffix_def)
  ultimately show ?thesis by simp
qed

end
