(* ===== verification/Store.thy ===== *)
theory Store
  imports Nginx "HOL-Library.Multiset"
begin

text \<open>
  \<open>store.rs\<close>: the queries on the application and entitlement tables, the audit channel and its
  writer, and the retention job. A table is the list of its rows; a query is the filter its
  \<open>where\<close> clause states, its rows in any order the list has. The lemmas say that the portal's one
  query groups into the same rules the decision path loads, that the channel loses only what it
  counts, and which partitions retention drops.
\<close>

section \<open>Rows of the entitlement table\<close>

record entitlement =
  ent_id :: uuid
  ent_application_id :: "uuid option"
  subject_type :: string
  subject_id :: string
  ent_effect :: string
  ent_path_pattern :: string
  ent_expires_at :: "time option"

record app_rules =
  rules_app_id :: uuid
  rules_enabled :: bool
  rules_of :: "rule list"

definition effect_of :: "string \<Rightarrow> effect" where
  "effect_of e = (if e = ''deny'' then Effect_Deny else Effect_Allow)"

definition rule_of :: "entitlement \<Rightarrow> rule" where
  "rule_of e = \<lparr>effect = effect_of (ent_effect e), path_pattern = ent_path_pattern e,
     expires_at = ent_expires_at e\<rparr>"

text \<open>The macro \<open>applicable!\<close>, with its binds: the application id, the groups, the sub.\<close>

definition applicable :: "uuid \<Rightarrow> string list \<Rightarrow> string \<Rightarrow> entitlement \<Rightarrow> bool" where
  "applicable app groups sub e \<longleftrightarrow>
     (ent_application_id e = Some app \<or> ent_application_id e = None) \<and>
     ((subject_type e = ''ad_group'' \<and> List.member groups (subject_id e)) \<or>
      (subject_type e = ''user'' \<and> subject_id e = sub))"

definition rules_for ::
  "application list \<Rightarrow> entitlement list \<Rightarrow> string \<Rightarrow> string \<Rightarrow> string list \<Rightarrow> app_rules option" where
  "rules_for applications entitlements wanted sub groups =
     (case find (\<lambda>a. slug a = wanted) applications of
        None \<Rightarrow> None
      | Some a \<Rightarrow>
          Some \<lparr>rules_app_id = app_id a, rules_enabled = enabled a,
                rules_of = map rule_of (filter (applicable (app_id a) groups sub) entitlements)\<rparr>)"

record traced_rule =
  traced_id :: uuid
  traced_application_id :: "uuid option"
  traced_subject_type :: string
  traced_subject_id :: string
  traced_rule :: rule

text \<open>
  The same rows with their identity kept, ordered by effect and subject: \<open>order\<close> is the
  database's sort, in the collation of the database.
\<close>

definition traced_rules_for ::
  "(entitlement list \<Rightarrow> entitlement list) \<Rightarrow> entitlement list \<Rightarrow> uuid \<Rightarrow> string \<Rightarrow> string list \<Rightarrow> traced_rule list" where
  "traced_rules_for order entitlements app sub groups =
     map (\<lambda>e. \<lparr>traced_id = ent_id e, traced_application_id = ent_application_id e,
               traced_subject_type = subject_type e, traced_subject_id = subject_id e,
               traced_rule = rule_of e\<rparr>)
       (order (filter (applicable app groups sub) entitlements))"

section \<open>The portal's query\<close>

record portal_app =
  portal_slug :: string
  portal_name :: string
  portal_icon :: "string option"
  portal_hostname :: string
  portal_rules :: "rule list"

text \<open>A row of the left join: the application's columns and, when a rule matched, the rule's.\<close>

type_synonym portal_row = "application \<times> entitlement option"

definition left_join ::
  "(application list \<Rightarrow> application list) \<Rightarrow> application list \<Rightarrow> entitlement list \<Rightarrow> string \<Rightarrow> string list
     \<Rightarrow> portal_row list" where
  "left_join order applications entitlements sub groups =
     concat (map (\<lambda>a. let es = filter (applicable (app_id a) groups sub) entitlements
                      in if es = [] then [(a, None)] else map (\<lambda>e. (a, Some e)) es)
               (order (filter enabled applications)))"

text \<open>One iteration of the loop over the rows; the last application is the head of \<open>rev apps\<close>.\<close>

definition add_portal_row :: "portal_app list \<Rightarrow> portal_row \<Rightarrow> portal_app list" where
  "add_portal_row apps row =
     (let a = fst row;
          apps = (if apps = [] \<or> portal_slug (last apps) \<noteq> slug a
                  then apps @ [\<lparr>portal_slug = slug a, portal_name = app_name a, portal_icon = icon a,
                                portal_hostname = external_hostname a, portal_rules = []\<rparr>]
                  else apps)
      in case snd row of
           None \<Rightarrow> apps
         | Some e \<Rightarrow> butlast apps @
             [(last apps)\<lparr>portal_rules := portal_rules (last apps) @
                [\<lparr>effect = (if ent_effect e = ''deny'' then Effect_Deny else Effect_Allow),
                  path_pattern = ent_path_pattern e, expires_at = ent_expires_at e\<rparr>]\<rparr>])"

definition portal_apps ::
  "(application list \<Rightarrow> application list) \<Rightarrow> application list \<Rightarrow> entitlement list \<Rightarrow> string \<Rightarrow> string list
     \<Rightarrow> portal_app list" where
  "portal_apps order applications entitlements sub groups =
     foldl add_portal_row [] (left_join order applications entitlements sub groups)"

section \<open>The audit channel\<close>

text \<open>Counts are \<open>i32\<close>: addition wraps, and \<open>distinct.len() as i32\<close> truncates.\<close>

record audit_event =
  ev_application_id :: "uuid option"
  ev_application_slug :: string
  ev_actor_sub :: string
  ev_actor_name :: "string option"
  ev_decision :: decision
  ev_count :: "32 word"
  ev_first_seen :: time
  ev_last_seen :: time
  ev_distinct_path :: "32 word"
  ev_first_path :: string
  ev_src_ip :: "ip_addr option"
  ev_request_id :: "string option"

text \<open>
  The bounded channel: its capacity, what is queued, whether the receiver is still there, and
  the counter \<open>AUDIT_DROPPED\<close>.
\<close>

record audit =
  capacity :: nat
  queued :: "audit_event list"
  receiver :: bool
  dropped :: "64 word"

definition audit_channel :: "nat \<Rightarrow> audit" where
  "audit_channel n = \<lparr>capacity = n, queued = [], receiver = True, dropped = 0\<rparr>"

definition record_event :: "audit_event \<Rightarrow> audit \<Rightarrow> audit" where
  "record_event event a =
     (if receiver a \<and> length (queued a) < capacity a then a\<lparr>queued := queued a @ [event]\<rparr>
      else a\<lparr>dropped := dropped a + 1\<rparr>)"

text \<open>The columns of one \<open>audit_event\<close> row that the writer computes: decision and reason.\<close>

record audit_row =
  row_event :: audit_event
  row_decision :: string
  row_reason :: string

text \<open>
  One turn of \<open>write_audit\<close>: the next event is taken and inserted; a failed insert is counted.
\<close>

definition write_one :: "bool \<Rightarrow> audit \<times> audit_row list \<Rightarrow> audit \<times> audit_row list" where
  "write_one ok s =
     (case queued (fst s) of
        [] \<Rightarrow> s
      | event # rest \<Rightarrow>
          (let a = (fst s)\<lparr>queued := rest\<rparr>; (decision, reason) = as_pair (ev_decision event)
           in if ok then (a, snd s @ [\<lparr>row_event = event, row_decision = decision, row_reason = reason\<rparr>])
              else (a\<lparr>dropped := dropped a + 1\<rparr>, snd s)))"

section \<open>Retention\<close>

text \<open>
  A month is its number counted from January of year 0. \<open>%Y_%m\<close> of chrono: four digits, or a
  sign and at least four digits outside the years 0 to 9999.
\<close>

type_synonym month = int

definition zero_pad :: "nat \<Rightarrow> string \<Rightarrow> string" where
  "zero_pad w s = replicate (w - length s) CHR ''0'' @ s"

definition year_text :: "int \<Rightarrow> string" where
  "year_text y =
     (if 0 \<le> y \<and> y \<le> 9999 then zero_pad 4 (decimal (nat y))
      else (if y < 0 then ''-'' else ''+'') @ zero_pad 4 (decimal (nat \<bar>y\<bar>)))"

definition partition_name :: "month \<Rightarrow> string" where
  "partition_name m =
     ''audit_event_'' @ year_text (m div 12) @ ''_'' @ zero_pad 2 (decimal (nat (m mod 12 + 1)))"

text \<open>\<open>checked_sub_months\<close> fails below the first year chrono can represent.\<close>

definition checked_sub_months :: "month \<Rightarrow> nat \<Rightarrow> month option" where
  "checked_sub_months m k = (if m - int k < -262143 * 12 then None else Some (m - int k))"

text \<open>
  The partitions of \<open>audit_event\<close> with the times of their rows, and the default partition. Which
  statements succeed is the database's to say.
\<close>

record audit_db =
  partitions :: "(string \<times> time list) list"
  default_rows :: "time list"

datatype statement = Create_partition string | Select_expired | Drop_table string | Delete_default

definition create_partition :: "(statement \<Rightarrow> bool) \<Rightarrow> audit_db \<Rightarrow> string \<Rightarrow> audit_db" where
  "create_partition ok db name =
     (if List.member (map fst (partitions db)) name then db
      else if ok (Create_partition name) then db\<lparr>partitions := partitions db @ [(name, [])]\<rparr>
      else db)"

text \<open>The name pattern of the query, and \<open>collate "C"\<close>: comparison byte by byte.\<close>

definition partition_shape :: "string \<Rightarrow> bool" where
  "partition_shape name \<longleftrightarrow>
     length name = 19 \<and> prefix ''audit_event_'' name \<and>
     list_all is_ascii_digit (take 4 (drop 12 name)) \<and> name ! 16 = CHR ''_'' \<and>
     list_all is_ascii_digit (drop 17 name)"

fun bytes_less :: "string \<Rightarrow> string \<Rightarrow> bool" where
  "bytes_less _ [] = False"
| "bytes_less [] (_ # _) = True"
| "bytes_less (a # as) (b # bs) = (byte a < byte b \<or> (a = b \<and> bytes_less as bs))"

fun drop_tables :: "(statement \<Rightarrow> bool) \<Rightarrow> string list \<Rightarrow> audit_db \<Rightarrow> audit_db \<times> bool" where
  "drop_tables ok [] db = (db, True)"
| "drop_tables ok (name # names) db =
     (if ok (Drop_table name)
      then drop_tables ok names (db\<lparr>partitions := filter (\<lambda>p. fst p \<noteq> name) (partitions db)\<rparr>)
      else (db, False))"

text \<open>\<open>midnight m\<close> is the instant at which month \<open>m\<close> starts, in UTC.\<close>

definition maintain_audit ::
  "(month \<Rightarrow> time) \<Rightarrow> (statement \<Rightarrow> bool) \<Rightarrow> month \<Rightarrow> nat \<Rightarrow> audit_db \<Rightarrow> audit_db \<times> bool" where
  "maintain_audit midnight ok this_month months db =
     (let db = foldl (create_partition ok) db [partition_name this_month, partition_name (this_month + 1)]
      in case checked_sub_months this_month months of
           None \<Rightarrow> (db, True)
         | Some cutoff \<Rightarrow>
             if \<not> ok Select_expired then (db, False)
             else
               (let expired = filter (\<lambda>n. partition_shape n \<and> bytes_less n (partition_name cutoff))
                                (map fst (partitions db))
                in case drop_tables ok expired db of
                     (db, False) \<Rightarrow> (db, False)
                   | (db, True) \<Rightarrow>
                       if ok Delete_default
                       then (db\<lparr>default_rows := filter (\<lambda>ts. \<not> ts < midnight cutoff) (default_rows db)\<rparr>, True)
                       else (db, False)))"

section \<open>What the queries return\<close>

lemma rules_for_Some:
  "rules_for applications entitlements wanted sub groups = Some r \<longleftrightarrow>
     (\<exists>a. find (\<lambda>a. slug a = wanted) applications = Some a \<and>
        r = \<lparr>rules_app_id = app_id a, rules_enabled = enabled a,
             rules_of = map rule_of (filter (applicable (app_id a) groups sub) entitlements)\<rparr>)"
  by (auto simp: rules_for_def split: option.split)

lemma find_distinct:
  assumes "distinct (map f xs)" "a \<in> set xs"
  shows "find (\<lambda>x. f x = f a) xs = Some a"
  using assms by (induction xs) (auto simp: image_iff)

lemma rules_for_row:
  "distinct (map slug applications) \<Longrightarrow> a \<in> set applications \<Longrightarrow>
   rules_for applications entitlements (slug a) sub groups =
     Some \<lparr>rules_app_id = app_id a, rules_enabled = enabled a,
           rules_of = map rule_of (filter (applicable (app_id a) groups sub) entitlements)\<rparr>"
  by (simp add: rules_for_Some find_distinct)

definition portal_app_of :: "application \<Rightarrow> rule list \<Rightarrow> portal_app" where
  "portal_app_of a rules =
     \<lparr>portal_slug = slug a, portal_name = app_name a, portal_icon = icon a,
      portal_hostname = external_hostname a, portal_rules = rules\<rparr>"

lemma rule_of_portal:
  "\<lparr>effect = (if ent_effect e = ''deny'' then Effect_Deny else Effect_Allow),
    path_pattern = ent_path_pattern e, expires_at = ent_expires_at e\<rparr> = rule_of e"
  by (simp add: rule_of_def effect_of_def)

lemma add_portal_row_new:
  "apps = [] \<or> portal_slug (last apps) \<noteq> slug a \<Longrightarrow>
   add_portal_row apps (a, None) = apps @ [portal_app_of a []]"
  "apps = [] \<or> portal_slug (last apps) \<noteq> slug a \<Longrightarrow>
   add_portal_row apps (a, Some e) = apps @ [portal_app_of a [rule_of e]]"
  by (simp_all only: add_portal_row_def Let_def fst_conv snd_conv if_True option.case rule_of_portal)
    (simp_all add: portal_app_of_def)

lemma add_portal_row_same:
  "add_portal_row (apps @ [portal_app_of a rs]) (a, Some e) = apps @ [portal_app_of a (rs @ [rule_of e])]"
  unfolding add_portal_row_def Let_def rule_of_portal by (simp add: portal_app_of_def)

lemma foldl_portal_same:
  "foldl add_portal_row (apps @ [portal_app_of a rs]) (map (\<lambda>e. (a, Some e)) es) =
   apps @ [portal_app_of a (rs @ map rule_of es)]"
  by (induction es arbitrary: rs) (simp_all add: add_portal_row_same)

lemma foldl_portal_block:
  assumes "apps = [] \<or> portal_slug (last apps) \<noteq> slug a"
  shows "foldl add_portal_row apps (if es = [] then [(a, None)] else map (\<lambda>e. (a, Some e)) es) =
    apps @ [portal_app_of a (map rule_of es)]"
proof (cases es)
  case Nil
  then show ?thesis using assms by (simp add: add_portal_row_new)
next
  case (Cons e es')
  then show ?thesis
    using assms foldl_portal_same [of apps a "[rule_of e]" es'] by (simp add: add_portal_row_new)
qed

lemma foldl_portal_blocks:
  assumes "distinct (map slug as)" "apps = [] \<or> portal_slug (last apps) \<notin> slug ` set as"
  shows "foldl add_portal_row apps
      (concat (map (\<lambda>a. if f a = [] then [(a, None)] else map (\<lambda>e. (a, Some e)) (f a)) as)) =
    apps @ map (\<lambda>a. portal_app_of a (map rule_of (f a))) as"
  using assms
proof (induction as arbitrary: apps)
  case (Cons a as)
  let ?one = "apps @ [portal_app_of a (map rule_of (f a))]"
  have "foldl add_portal_row apps (if f a = [] then [(a, None)] else map (\<lambda>e. (a, Some e)) (f a)) = ?one"
    using Cons.prems(2) by (intro foldl_portal_block) auto
  moreover have "foldl add_portal_row ?one
      (concat (map (\<lambda>a. if f a = [] then [(a, None)] else map (\<lambda>e. (a, Some e)) (f a)) as)) =
      ?one @ map (\<lambda>a. portal_app_of a (map rule_of (f a))) as"
    using Cons.prems(1) by (intro Cons.IH) (auto simp: portal_app_of_def)
  ultimately show ?case by simp
qed simp

lemma portal_apps_eq:
  assumes "distinct (map slug (order (filter enabled applications)))"
  shows "portal_apps order applications entitlements sub groups =
    map (\<lambda>a. portal_app_of a (map rule_of (filter (applicable (app_id a) groups sub) entitlements)))
      (order (filter enabled applications))"
  using foldl_portal_blocks [OF assms, of "[]"] by (simp add: portal_apps_def left_join_def Let_def)

section \<open>The audit channel as a sink\<close>

text \<open>
  The contract the cache and the handlers rely on: an event is appended while there is room, and
  counted as lost when there is none; nothing else happens to the sink.
\<close>

locale audit_sink =
  fixes put :: "'e \<Rightarrow> 's \<Rightarrow> 's"
    and content :: "'s \<Rightarrow> 'e list"
    and lost :: "'s \<Rightarrow> 64 word"
    and room :: "'s \<Rightarrow> nat"
  assumes put_room: "0 < room s \<Longrightarrow>
      content (put e s) = content s @ [e] \<and> lost (put e s) = lost s \<and> room (put e s) = room s - 1"
    and put_full: "room s = 0 \<Longrightarrow>
      content (put e s) = content s \<and> lost (put e s) = lost s + 1 \<and> room (put e s) = 0"
begin

lemma put_all:
  "content (fold put es s) = content s @ take (room s) es \<and>
   lost (fold put es s) = lost s + of_nat (length es - room s) \<and>
   room (fold put es s) = room s - length es"
proof (induction es arbitrary: s)
  case (Cons e es)
  show ?case
  proof (cases "room s")
    case 0
    then show ?thesis using Cons [of "put e s"] put_full [of s e] by (simp add: algebra_simps)
  next
    case (Suc n)
    then show ?thesis using Cons [of "put e s"] put_room [of s e] by simp
  qed
qed simp

lemma put_all_room: "length es \<le> room s \<Longrightarrow> content (fold put es s) = content s @ es"
  using put_all [of es s] by simp

lemma put_extends: "prefix (content s) (content (fold put es s))"
  using put_all [of es s] by simp

end

definition audit_room :: "audit \<Rightarrow> nat" where
  "audit_room a = (if receiver a then capacity a - length (queued a) else 0)"

interpretation audit: audit_sink record_event queued dropped audit_room
  by unfold_locales (auto simp: record_event_def audit_room_def split: if_splits)

section \<open>Names of months\<close>

fun fixed_width :: "nat \<Rightarrow> nat \<Rightarrow> string" where
  "fixed_width 0 n = []"
| "fixed_width (Suc w) n = fixed_width w (n div 10) @ [char_of (48 + n mod 10)]"

lemma length_fixed_width [simp]: "length (fixed_width w n) = w"
  by (induction w arbitrary: n) simp_all

lemma length_decimal: "0 < w \<Longrightarrow> n < 10 ^ w \<Longrightarrow> length (decimal n) \<le> w"
proof (induction w arbitrary: n)
  case (Suc w)
  show ?case
  proof (cases "n < 10")
    case True
    then show ?thesis by (subst decimal.simps) simp
  next
    case False
    then have "0 < w" using Suc.prems by (cases w) auto
    moreover have "n div 10 < 10 ^ w" using Suc.prems by (simp add: less_mult_imp_div_less mult.commute)
    ultimately have "length (decimal (n div 10)) \<le> w" using Suc.IH by blast
    then show ?thesis using False by (subst decimal.simps) simp
  qed
qed simp

lemma zero_pad_decimal: "0 < w \<Longrightarrow> n < 10 ^ w \<Longrightarrow> zero_pad w (decimal n) = fixed_width w n"
proof (induction w arbitrary: n)
  case (Suc w)
  show ?case
  proof (cases "n < 10")
    case True
    have zeros: "fixed_width k 0 = replicate k CHR ''0''" for k
      by (induction k) (simp_all add: replicate_append_same char_of_def bit_0)
    have "decimal n = [char_of (48 + n)]" using True by (subst decimal.simps) simp
    then show ?thesis using True zeros [of w] by (simp add: zero_pad_def)
  next
    case False
    then have w: "0 < w" using Suc.prems by (cases w) auto
    moreover have d: "n div 10 < 10 ^ w" using Suc.prems by (simp add: less_mult_imp_div_less mult.commute)
    ultimately have "zero_pad w (decimal (n div 10)) = fixed_width w (n div 10)" using Suc.IH by blast
    moreover have "length (decimal (n div 10)) \<le> w" using length_decimal [OF w d] .
    moreover have "decimal n = decimal (n div 10) @ [char_of (48 + n mod 10)]"
      using False by (subst decimal.simps) simp
    ultimately show ?thesis by (simp add: zero_pad_def)
  qed
qed simp

lemma bytes_less_append: "length a = length b \<Longrightarrow>
   bytes_less (a @ x) (b @ y) \<longleftrightarrow> bytes_less a b \<or> (a = b \<and> bytes_less x y)"
  by (induction a b rule: list_induct2) auto

lemma bytes_less_prefix [simp]: "bytes_less (a @ x) (a @ y) \<longleftrightarrow> bytes_less x y"
  by (induction a) auto

lemma digit_compare:
  fixes a b :: nat
  shows "a = b \<longleftrightarrow> a div 10 = b div 10 \<and> a mod 10 = b mod 10"
    "a < b \<longleftrightarrow> a div 10 < b div 10 \<or> (a div 10 = b div 10 \<and> a mod 10 < b mod 10)"
proof -
  have lin: "10 * q + r < 10 * q' + r' \<longleftrightarrow> q < q' \<or> (q = q' \<and> r < r')"
    if "r < 10" "r' < 10" for q r q' r' :: nat
    using that by linarith
  show "a = b \<longleftrightarrow> a div 10 = b div 10 \<and> a mod 10 = b mod 10" by (metis div_mult_mod_eq)
  show "a < b \<longleftrightarrow> a div 10 < b div 10 \<or> (a div 10 = b div 10 \<and> a mod 10 < b mod 10)"
    using lin [of "a mod 10" "b mod 10" "a div 10" "b div 10"] by simp
qed

lemma fixed_width_inject:
  "a < 10 ^ w \<Longrightarrow> b < 10 ^ w \<Longrightarrow> fixed_width w a = fixed_width w b \<longleftrightarrow> a = b"
proof (induction w arbitrary: a b)
  case (Suc w)
  have "byte (char_of (48 + a mod 10)) = 48 + a mod 10" "byte (char_of (48 + b mod 10)) = 48 + b mod 10"
    by (auto intro!: byte_char_of)
  then have "(char_of (48 + a mod 10) :: char) = char_of (48 + b mod 10) \<longleftrightarrow> a mod 10 = b mod 10"
    unfolding byte_inject [symmetric] by simp
  moreover have "fixed_width w (a div 10) = fixed_width w (b div 10) \<longleftrightarrow> a div 10 = b div 10"
    using Suc.prems by (intro Suc.IH) (simp_all add: less_mult_imp_div_less mult.commute)
  ultimately show ?case using digit_compare(1) [of a b] by simp
qed simp

lemma bytes_less_fixed:
  "a < 10 ^ w \<Longrightarrow> b < 10 ^ w \<Longrightarrow> bytes_less (fixed_width w a) (fixed_width w b) \<longleftrightarrow> a < b"
proof (induction w arbitrary: a b)
  case (Suc w)
  have d: "a div 10 < 10 ^ w" "b div 10 < 10 ^ w"
    using Suc.prems by (simp_all add: less_mult_imp_div_less mult.commute)
  have "byte (char_of (48 + a mod 10)) = 48 + a mod 10" "byte (char_of (48 + b mod 10)) = 48 + b mod 10"
    by (auto intro!: byte_char_of)
  then have "bytes_less [char_of (48 + a mod 10)] [char_of (48 + b mod 10)] \<longleftrightarrow> a mod 10 < b mod 10"
    by simp
  then show ?case
    using Suc.IH [OF d] fixed_width_inject [OF d] digit_compare(2) [of a b] by (simp add: bytes_less_append)
qed simp

lemma partition_name_fixed:
  assumes "0 \<le> m" "m < 120000"
  shows "partition_name m =
    ''audit_event_'' @ fixed_width 4 (nat (m div 12)) @ ''_'' @ fixed_width 2 (nat (m mod 12 + 1))"
proof -
  have "nat (m div 12) < 10 ^ 4" "m div 12 \<le> 9999" "0 \<le> m div 12" "nat (m mod 12 + 1) < 10 ^ 2"
    using assms by (simp_all add: nat_less_iff)
  then show ?thesis
    by (simp add: partition_name_def year_text_def zero_pad_decimal)
qed

lemma fixed_width_digits: "c \<in> set (fixed_width w n) \<Longrightarrow> is_ascii_digit c"
proof (induction w arbitrary: n)
  case (Suc w)
  have "byte (char_of (48 + n mod 10)) = 48 + n mod 10" by (intro byte_char_of) simp
  then have "is_ascii_digit (char_of (48 + n mod 10))" by (simp add: is_ascii_digit_def)
  with Suc show ?case by auto
qed simp

lemma partition_name_shape: "0 \<le> m \<Longrightarrow> m < 120000 \<Longrightarrow> partition_shape (partition_name m)"
  using fixed_width_digits
  by (auto simp: partition_name_fixed partition_shape_def list_all_iff nth_append)

lemma partition_name_less:
  assumes "0 \<le> a" "a < 120000" "0 \<le> b" "b < 120000"
  shows "bytes_less (partition_name a) (partition_name b) \<longleftrightarrow> a < b"
proof -
  have y: "nat (m div 12) < 10 ^ 4" "nat (m mod 12 + 1) < 10 ^ 2" if "0 \<le> m" "m < 120000" for m :: int
    using that by (simp_all add: nat_less_iff)
  have lin: "12 * q + r < 12 * q' + r' \<longleftrightarrow> q < q' \<or> (q = q' \<and> r < r')"
    if "0 \<le> r" "r < 12" "0 \<le> r'" "r' < 12" for q r q' r' :: int
    using that by linarith
  have "a < b \<longleftrightarrow> a div 12 < b div 12 \<or> (a div 12 = b div 12 \<and> a mod 12 < b mod 12)"
    using lin [of "a mod 12" "b mod 12" "a div 12" "b div 12"] by simp
  also have "\<dots> \<longleftrightarrow> nat (a div 12) < nat (b div 12) \<or>
      (nat (a div 12) = nat (b div 12) \<and> nat (a mod 12 + 1) < nat (b mod 12 + 1))"
  proof -
    have "0 \<le> a div 12" "0 \<le> b div 12" using assms by (simp_all add: pos_imp_zdiv_nonneg_iff)
    moreover have "0 \<le> a mod 12 + 1" "0 \<le> b mod 12 + 1" by simp_all
    ultimately show ?thesis
      using eq_nat_nat_iff [of "a div 12" "b div 12"] nat_less_eq_zless [of "a div 12" "b div 12"]
        nat_less_eq_zless [of "a mod 12 + 1" "b mod 12 + 1"] by (metis add_less_cancel_right)
  qed
  also have "\<dots> \<longleftrightarrow> bytes_less (partition_name a) (partition_name b)"
    unfolding partition_name_fixed [OF assms(1,2)] partition_name_fixed [OF assms(3,4)] bytes_less_prefix
      bytes_less_append [of "fixed_width 4 (nat (a div 12))" "fixed_width 4 (nat (b div 12))", simplified]
      bytes_less_fixed [OF y(1) [OF assms(1,2)] y(1) [OF assms(3,4)]]
      bytes_less_fixed [OF y(2) [OF assms(1,2)] y(2) [OF assms(3,4)]]
      fixed_width_inject [OF y(1) [OF assms(1,2)] y(1) [OF assms(3,4)]] ..
  finally show ?thesis by simp
qed

section \<open>What retention removes\<close>

definition audit_rows :: "audit_db \<Rightarrow> time list" where
  "audit_rows db = concat (map snd (partitions db)) @ default_rows db"

text \<open>Every partition but the default is a month's, and holds rows of that month.\<close>

definition audit_db_ok :: "(month \<Rightarrow> time) \<Rightarrow> audit_db \<Rightarrow> bool" where
  "audit_db_ok midnight db \<longleftrightarrow>
     (\<forall>p\<in>set (partitions db). \<exists>m. 0 \<le> m \<and> m < 120000 \<and> fst p = partition_name m \<and>
        (\<forall>ts\<in>set (snd p). midnight m \<le> ts \<and> ts < midnight (m + 1)))"

lemma create_partition_rows [frame_simps]:
  "audit_rows (create_partition ok db name) = audit_rows db"
  "default_rows (create_partition ok db name) = default_rows db"
  by (simp_all add: create_partition_def audit_rows_def)

lemma create_partition_ok:
  "audit_db_ok midnight db \<Longrightarrow> 0 \<le> m \<Longrightarrow> m < 120000 \<Longrightarrow>
   audit_db_ok midnight (create_partition ok db (partition_name m))"
  by (auto simp: create_partition_def audit_db_ok_def)

lemma drop_tables_partitions:
  "drop_tables ok names db = (db', success) \<Longrightarrow>
   default_rows db' = default_rows db \<and>
   (\<exists>gone. set gone \<subseteq> set names \<and> (success \<longrightarrow> gone = names) \<and>
      partitions db' = filter (\<lambda>p. fst p \<notin> set gone) (partitions db))"
proof (induction names arbitrary: db)
  case Nil
  then show ?case by (auto intro: exI [of _ "[]"])
next
  case (Cons n names)
  show ?case
  proof (cases "ok (Drop_table n)")
    case False
    then show ?thesis using Cons.prems by (auto intro: exI [of _ "[]"])
  next
    case True
    let ?db = "db\<lparr>partitions := filter (\<lambda>p. fst p \<noteq> n) (partitions db)\<rparr>"
    have "drop_tables ok names ?db = (db', success)" using Cons.prems True by simp
    from Cons.IH [OF this] obtain gone where
      "default_rows db' = default_rows db" "set gone \<subseteq> set names" "success \<longrightarrow> gone = names"
      "partitions db' = filter (\<lambda>p. fst p \<notin> set gone) (partitions ?db)" by auto
    then show ?thesis by (intro conjI exI [of _ "n # gone"]) (auto intro: filter_cong)
  qed
qed

lemma filter_concat_drop:
  assumes "\<forall>p\<in>set ps. \<not> P p \<longrightarrow> (\<forall>x\<in>set (snd p). \<not> K x)"
  shows "filter K (concat (map snd (filter P ps))) = filter K (concat (map snd ps))"
  using assms by (induction ps) (auto simp: filter_empty_conv)

lemma maintain_audit_retains:
  assumes "mono midnight" "audit_db_ok midnight db" "int months \<le> this_month" "this_month < 119999"
    and run: "maintain_audit midnight ok this_month months db = (db', success)"
  defines "edge \<equiv> this_month - int months"
  shows "filter (\<lambda>ts. midnight edge \<le> ts) (audit_rows db') = filter (\<lambda>ts. midnight edge \<le> ts) (audit_rows db)"
    "audit_db_ok midnight db'"
    "success \<Longrightarrow> \<forall>ts\<in>set (audit_rows db'). midnight edge \<le> ts"
proof -
  let ?db = "foldl (create_partition ok) db [partition_name this_month, partition_name (this_month + 1)]"
  let ?expired = "filter (\<lambda>n. partition_shape n \<and> bytes_less n (partition_name edge)) (map fst (partitions ?db))"
  have edge: "0 \<le> edge" "edge < 120000" "checked_sub_months this_month months = Some edge"
    using assms(3,4) by (simp_all add: edge_def checked_sub_months_def)
  have ok: "audit_db_ok midnight ?db" and rows: "audit_rows ?db = audit_rows db"
    using assms(2-4) by (simp_all add: create_partition_ok frame_simps)
  have expired: "(fst p \<in> set ?expired \<longrightarrow> (\<forall>ts\<in>set (snd p). \<not> midnight edge \<le> ts)) \<and>
      (fst p \<notin> set ?expired \<longrightarrow> (\<forall>ts\<in>set (snd p). midnight edge \<le> ts))"
    if p: "p \<in> set (partitions ?db)" for p
  proof -
    obtain m where m: "0 \<le> m" "m < 120000" "fst p = partition_name m"
      "\<forall>ts\<in>set (snd p). midnight m \<le> ts \<and> ts < midnight (m + 1)"
      using ok p unfolding audit_db_ok_def by blast
    have "fst p \<in> set ?expired \<longleftrightarrow> m < edge"
      using imageI [OF p, of fst] m(3) partition_name_shape [OF m(1,2)] partition_name_less [OF m(1,2) edge(1,2)]
      by auto
    moreover have "m < edge \<Longrightarrow> midnight (m + 1) \<le> midnight edge" "\<not> m < edge \<Longrightarrow> midnight edge \<le> midnight m"
      using assms(1) by (simp_all add: monoD)
    ultimately show ?thesis using m(4) by force
  qed
  have result: "filter (\<lambda>ts. midnight edge \<le> ts) (audit_rows db') = filter (\<lambda>ts. midnight edge \<le> ts) (audit_rows db)
    \<and> audit_db_ok midnight db' \<and> (success \<longrightarrow> (\<forall>ts\<in>set (audit_rows db'). midnight edge \<le> ts))"
  proof (cases "ok Select_expired")
    case False
    then show ?thesis using run edge ok rows by (simp add: maintain_audit_def Let_def)
  next
    case True
    obtain db2 dropped where d: "drop_tables ok ?expired ?db = (db2, dropped)" by (cases "drop_tables ok ?expired ?db")
    obtain gone where gone: "set gone \<subseteq> set ?expired" "dropped \<longrightarrow> gone = ?expired"
      "partitions db2 = filter (\<lambda>p. fst p \<notin> set gone) (partitions ?db)"
      "default_rows db2 = default_rows ?db"
      using drop_tables_partitions [OF d] by blast
    have parts: "filter (\<lambda>ts. midnight edge \<le> ts) (concat (map snd (partitions db2))) =
        filter (\<lambda>ts. midnight edge \<le> ts) (concat (map snd (partitions ?db)))"
      unfolding gone(3) using expired gone(1) by (intro filter_concat_drop) blast
    have kept: "filter (\<lambda>ts. midnight edge \<le> ts) (audit_rows db2) = filter (\<lambda>ts. midnight edge \<le> ts) (audit_rows db)"
    proof -
      have "filter (\<lambda>ts. midnight edge \<le> ts) (audit_rows db2) = filter (\<lambda>ts. midnight edge \<le> ts) (audit_rows ?db)"
        by (simp only: audit_rows_def filter_append parts gone(4))
      then show ?thesis by (simp only: rows)
    qed
    have ok2: "audit_db_ok midnight db2" using ok unfolding audit_db_ok_def gone(3) by auto
    show ?thesis
    proof (cases "dropped \<and> ok Delete_default")
      case False
      then have "db' = db2" "\<not> success"
        using run edge True d by (cases dropped; simp add: maintain_audit_def Let_def)+
      then show ?thesis using kept ok2 by simp
    next
      case both: True
      then have db': "db' = db2\<lparr>default_rows := filter (\<lambda>ts. \<not> ts < midnight edge) (default_rows db2)\<rparr>"
        using run edge True d by (auto simp: maintain_audit_def Let_def)
      have "\<forall>ts\<in>set (concat (map snd (partitions db2))). midnight edge \<le> ts"
      proof -
        have "\<forall>ts\<in>set (snd p). midnight edge \<le> ts" if "p \<in> set (partitions db2)" for p
        proof -
          have "p \<in> set (partitions ?db)" "fst p \<notin> set ?expired"
            using that gone(2,3) both by (simp_all only: set_filter mem_Collect_eq simp_thms)
          with expired show ?thesis by blast
        qed
        then show ?thesis by fastforce
      qed
      moreover have "filter (\<lambda>ts. midnight edge \<le> ts) (audit_rows db') = filter (\<lambda>ts. midnight edge \<le> ts) (audit_rows db2)"
        by (simp add: db' audit_rows_def not_less)
      ultimately show ?thesis
        using kept ok2 by (simp add: db' audit_rows_def [of "db2\<lparr>default_rows := _\<rparr>"] audit_db_ok_def not_less)
    qed
  qed
  then show "filter (\<lambda>ts. midnight edge \<le> ts) (audit_rows db') = filter (\<lambda>ts. midnight edge \<le> ts) (audit_rows db)"
    "audit_db_ok midnight db'"
    "success \<Longrightarrow> \<forall>ts\<in>set (audit_rows db'). midnight edge \<le> ts" by blast+
qed

section \<open>Properties\<close>

text \<open>The portal and the decision path see the same rules: with unique slugs and any sort order,
  the portal's joined rows group into one entry per enabled application, in that order, and the
  rules of each are exactly the ones \<open>rules_for\<close> loads for its slug and the same user.\<close>

theorem portal_lists_decision_rules:
  assumes "distinct (map slug applications)" and "\<And>as. mset (order as) = mset as"
  shows "map portal_slug (portal_apps order applications entitlements sub groups) =
      map slug (order (filter enabled applications))
    \<and> (\<forall>p\<in>set (portal_apps order applications entitlements sub groups).
         \<exists>r. rules_for applications entitlements (portal_slug p) sub groups = Some r
           \<and> rules_enabled r \<and> portal_rules p = rules_of r)"
proof -
  let ?as = "order (filter enabled applications)"
  have m: "mset ?as = mset (filter enabled applications)" using assms(2) .
  then have "distinct (map slug ?as) \<longleftrightarrow> distinct (map slug (filter enabled applications))"
    by (metis m mset_map mset_eq_imp_distinct_iff)
  then have d: "distinct (map slug ?as)" using distinct_map_filter [OF assms(1)] by blast
  note eq = portal_apps_eq [of order, OF d, of entitlements sub groups]
  have "set ?as = set (filter enabled applications)" using mset_eq_setD [OF m] .
  then have row: "a \<in> set applications" "enabled a" if "a \<in> set ?as" for a
    using that by simp_all
  show ?thesis
  proof (intro conjI ballI)
    show "map portal_slug (portal_apps order applications entitlements sub groups) = map slug ?as"
      unfolding eq by (simp add: portal_app_of_def comp_def)
  next
    fix p assume "p \<in> set (portal_apps order applications entitlements sub groups)"
    then obtain a where a: "a \<in> set ?as"
      "p = portal_app_of a (map rule_of (filter (applicable (app_id a) groups sub) entitlements))"
      unfolding eq by auto
    show "\<exists>r. rules_for applications entitlements (portal_slug p) sub groups = Some r
           \<and> rules_enabled r \<and> portal_rules p = rules_of r"
      using rules_for_row [OF assms(1) row(1) [OF a(1)], of entitlements sub groups] row(2) [OF a(1)]
      by (simp add: a(2) portal_app_of_def)
  qed
qed

definition sample_entitlements :: "entitlement list" where
  "sample_entitlements =
     [\<lparr>ent_id = 1, ent_application_id = None, subject_type = ''user'', subject_id = ''u1'',
       ent_effect = ''allow'', ent_path_pattern = '''', ent_expires_at = None\<rparr>,
      \<lparr>ent_id = 2, ent_application_id = Some 1, subject_type = ''ad_group'', subject_id = ''staff'',
       ent_effect = ''deny'', ent_path_pattern = ''/admin/*'', ent_expires_at = None\<rparr>]"

theorem portal_lists_decision_rules_witness:
  "map portal_slug (portal_apps id [sample_app] sample_entitlements ''u1'' [''staff'']) = [''wiki'']"
proof -
  have "distinct (map slug [sample_app])" by simp
  from portal_lists_decision_rules [OF this, of id] show ?thesis
    by (simp add: sample_app_def)
qed

text \<open>Recording never waits and loses only what it counts: after any run of events the channel
  holds the ones that fitted, in order, and the dropped counter has gone up by the rest.\<close>

theorem audit_loses_only_what_it_counts:
  "queued (fold record_event events a) = queued a @ take (audit_room a) events \<and>
   dropped (fold record_event events a) = dropped a + of_nat (length events - audit_room a)"
  using audit.put_all [of events a] by blast

text \<open>C39: retention removes whole months and nothing else: whichever statements fail, every row from
  the cutoff month on is still there, in order; when the job succeeds no older row is; and each
  partition still holds only its own month. Comparing the names byte by byte is comparing months.\<close>

theorem retention_is_exact:
  assumes "mono midnight" "audit_db_ok midnight db" "int months \<le> this_month" "this_month < 119999"
    and "maintain_audit midnight ok this_month months db = (db', success)"
    and "cutoff = midnight (this_month - int months)"
  shows "filter (\<lambda>ts. cutoff \<le> ts) (audit_rows db') = filter (\<lambda>ts. cutoff \<le> ts) (audit_rows db)
    \<and> audit_db_ok midnight db' \<and> (success \<longrightarrow> (\<forall>ts\<in>set (audit_rows db'). cutoff \<le> ts))"
  using maintain_audit_retains [OF assms(1-5)] assms(6) by blast

definition sample_db :: audit_db where
  "sample_db = \<lparr>partitions = [(partition_name 3, [35]), (partition_name 5, [51])], default_rows = [12, 57]\<rparr>"

theorem retention_is_exact_witness:
  "list_all (\<lambda>ts. 40 \<le> ts) (audit_rows (fst (maintain_audit (\<lambda>m. 10 * m) (\<lambda>_. True) 6 2 sample_db)))"
proof -
  let ?mid = "\<lambda>m. 10 * m :: int" and ?run = "maintain_audit (\<lambda>m. 10 * m) (\<lambda>_. True) 6 2 sample_db"
  have ok: "audit_db_ok ?mid sample_db"
    unfolding audit_db_ok_def sample_db_def by (auto intro: exI [of _ 3] exI [of _ 5])
  have success: "snd ?run"
  proof -
    have "snd (drop_tables (\<lambda>_. True) names db)" for names db by (induction names arbitrary: db) simp_all
    then show ?thesis
      unfolding maintain_audit_def checked_sub_months_def Let_def case_prod_beta by simp
  qed
  have run: "?run = (fst ?run, True)" using success by (metis prod.collapse)
  show ?thesis
    using retention_is_exact [OF _ ok _ _ run, of 40] by (simp add: mono_def list_all_iff)
qed

end
