(* ===== verification/Cache.thy ===== *)
theory Cache
  imports Store "HOL-Library.AList"
begin

text \<open>
  \<open>cache.rs\<close>: the decision cache. Entries carry the identity and the rules, not the verdict, and
  the running audit counters; an index by subject lets logout drop one user's entries. The map of
  entries is an association list with distinct keys whose order is the iteration order; the clock
  is a number of nanoseconds. \<open>decision_cache\<close> is the contract the decide handler relies on. The
  properties: the index is exact after every operation, a hit is only ever what was inserted for
  that key within the TTL while subscribed, and no road out of the cache loses a counted request.
\<close>

section \<open>The session cookie\<close>

definition COOKIE_NAME :: string where
  "COOKIE_NAME = ''_oauth2_proxy''"

text \<open>\<open>str::split_once\<close> and \<open>str::strip_prefix\<close>.\<close>

definition split_once :: "char \<Rightarrow> string \<Rightarrow> (string \<times> string) option" where
  "split_once c s =
     (case dropWhile (\<lambda>x. x \<noteq> c) s of
        [] \<Rightarrow> None
      | _ # rest \<Rightarrow> Some (takeWhile (\<lambda>x. x \<noteq> c) s, rest))"

definition strip_prefix :: "string \<Rightarrow> string \<Rightarrow> string option" where
  "strip_prefix p s = (if prefix p s then Some (drop (length p) s) else None)"

definition is_chunk :: "string \<Rightarrow> bool" where
  "is_chunk name =
     (case Option.bind (strip_prefix COOKIE_NAME name) (strip_prefix ''_'') of
        None \<Rightarrow> False
      | Some n \<Rightarrow> n \<noteq> '''' \<and> list_all is_ascii_digit n)"

text \<open>One turn of the loop over the cookies: what was found and how many were seen.\<close>

definition scan_cookie :: "string option \<times> nat \<Rightarrow> string \<Rightarrow> string option \<times> nat" where
  "scan_cookie s cookie =
     (case split_once CHR ''='' cookie of
        None \<Rightarrow> s
      | Some (name, val) \<Rightarrow>
          (let name = str_trim name
           in if name = COOKIE_NAME \<or> is_chunk name
              then (if name = COOKIE_NAME then Some val else fst s, snd s + 1)
              else s))"

datatype ambiguous = Ambiguous

definition session_cookie :: "string option \<Rightarrow> ambiguous + string option" where
  "session_cookie header =
     (let (found, seen) =
            foldl scan_cookie (None, 0) (split_on CHR '';'' (case header of None \<Rightarrow> '''' | Some h \<Rightarrow> h))
      in if seen > 1 then Inl Ambiguous else Inr found)"

section \<open>The state\<close>

text \<open>A header value: its bytes, and \<open>to_str\<close>, which refuses anything but visible ASCII and tabs.\<close>

type_synonym header_value = string

definition to_str :: "header_value \<Rightarrow> string option" where
  "to_str v =
     (if list_all (\<lambda>b. byte b = 9 \<or> (32 \<le> byte b \<and> byte b < 127)) v then Some v else None)"

record identity =
  id_sub :: header_value
  id_username :: header_value
  id_email :: header_value
  id_groups :: header_value

record key =
  key_cookie :: string
  key_slug :: string

text \<open>\<open>Key::new\<close>; the digest is \<open>sha2\<close>'s.\<close>

definition new_key :: "(string \<Rightarrow> string) \<Rightarrow> string option \<Rightarrow> string \<Rightarrow> key option" where
  "new_key digest cookie_header wanted =
     (case session_cookie cookie_header of
        Inl _ \<Rightarrow> None
      | Inr None \<Rightarrow> None
      | Inr (Some val) \<Rightarrow> Some \<lparr>key_cookie = digest val, key_slug = wanted\<rparr>)"

record cached =
  cached_identity :: identity
  cached_rules :: "rule list"
  cached_enabled :: bool
  cached_application_id :: "uuid option"

record counters =
  tally :: "32 word"
  first_seen :: time
  last_seen :: time
  first_path :: string
  request_id :: "string option"
  distinct_paths :: "64 word list"

type_synonym outcome = "decision \<times> ip_addr option"

record entry =
  entry_sub :: string
  entry_slug :: string
  entry_cached :: cached
  inserted :: nat
  entry_counters :: "(outcome \<times> counters) list"

record inner =
  entries :: "(key \<times> entry) list"
  by_sub :: "string \<rightharpoonup> key list"

record cache =
  inner :: inner
  sink :: audit
  subscribed :: bool

definition new_cache :: "audit \<Rightarrow> cache" where
  "new_cache a = \<lparr>inner = \<lparr>entries = [], by_sub = Map.empty\<rparr>, sink = a, subscribed = False\<rparr>"

definition TTL :: nat where
  "TTL = 30 * 10 ^ 9"

definition CAPACITY :: nat where
  "CAPACITY = 10000"

definition FILL_SHARDS :: nat where
  "FILL_SHARDS = 16"

definition fill_shard :: "(key \<Rightarrow> 64 word) \<Rightarrow> key \<Rightarrow> nat" where
  "fill_shard hash k = unat (hash k) mod FILL_SHARDS"

section \<open>The operations\<close>

definition header_string :: "header_value \<Rightarrow> string option" where
  "header_string v =
     (case to_str v of None \<Rightarrow> None | Some s \<Rightarrow> if s = '''' then None else Some s)"

definition flush_event :: "entry \<Rightarrow> outcome \<times> counters \<Rightarrow> audit_event" where
  "flush_event e oc =
     (case oc of ((decision, src), c) \<Rightarrow>
        \<lparr>ev_application_id = cached_application_id (entry_cached e),
         ev_application_slug = entry_slug e,
         ev_actor_sub = entry_sub e,
         ev_actor_name = header_string (id_username (cached_identity (entry_cached e))),
         ev_decision = decision,
         ev_count = tally c,
         ev_first_seen = first_seen c,
         ev_last_seen = last_seen c,
         ev_distinct_path = of_nat (length (distinct_paths c)),
         ev_first_path = first_path c,
         ev_src_ip = src,
         ev_request_id = request_id c\<rparr>)"

definition flush :: "entry \<Rightarrow> cache \<Rightarrow> cache" where
  "flush e c = c\<lparr>sink := foldl (\<lambda>a oc. record_event (flush_event e oc) a) (sink c) (entry_counters e)\<rparr>"

definition forget_sub :: "string \<Rightarrow> key \<Rightarrow> inner \<Rightarrow> inner" where
  "forget_sub sub k i =
     (case by_sub i sub of
        None \<Rightarrow> i
      | Some keys \<Rightarrow>
          (let keys = removeAll k keys
           in i\<lparr>by_sub := (if keys = [] then (by_sub i)(sub := None) else (by_sub i)(sub \<mapsto> keys))\<rparr>))"

definition remove_entry :: "key \<Rightarrow> inner \<Rightarrow> inner" where
  "remove_entry k i = i\<lparr>entries := AList.delete k (entries i)\<rparr>"

text \<open>An entry leaves: out of the map, out of the index, its counters to the audit channel.\<close>

definition leave :: "key \<Rightarrow> entry \<Rightarrow> cache \<Rightarrow> cache" where
  "leave k e c = flush e (c\<lparr>inner := forget_sub (entry_sub e) k (remove_entry k (inner c))\<rparr>)"

definition evict :: "key \<Rightarrow> cache \<Rightarrow> cache" where
  "evict k c = (case map_of (entries (inner c)) k of None \<Rightarrow> c | Some e \<Rightarrow> leave k e c)"

definition get :: "nat \<Rightarrow> key \<Rightarrow> cache \<Rightarrow> cached option" where
  "get now k c =
     (if \<not> subscribed c then None
      else (case map_of (entries (inner c)) k of
              None \<Rightarrow> None
            | Some e \<Rightarrow> if now - inserted e < TTL then Some (entry_cached e) else None))"

definition flush_all :: "cache \<Rightarrow> cache" where
  "flush_all c = foldl (\<lambda>c k. evict k c) c (map fst (entries (inner c)))"

definition set_subscribed :: "bool \<Rightarrow> cache \<Rightarrow> cache" where
  "set_subscribed on c =
     (let c = (if on \<and> \<not> subscribed c then flush_all c else c) in c\<lparr>subscribed := on\<rparr>)"

text \<open>\<open>min_by_key\<close>: the first entry, in iteration order, with the least insertion instant.\<close>

fun oldest_of :: "(key \<times> entry) list \<Rightarrow> key option" where
  "oldest_of [] = None"
| "oldest_of ((k, e) # es) =
     (case oldest_of es of
        None \<Rightarrow> Some k
      | Some k' \<Rightarrow>
          (case map_of es k' of
             None \<Rightarrow> Some k
           | Some e' \<Rightarrow> if inserted e \<le> inserted e' then Some k else Some k'))"

text \<open>The loop \<open>while entries.len() > CAPACITY\<close>; each turn removes one entry.\<close>

lemma entries_flush [simp]: "inner (flush e c) = inner c" "subscribed (flush e c) = subscribed c"
  by (simp_all add: flush_def)

lemma entries_forget_sub [simp]: "entries (forget_sub sub k i) = entries i"
  by (simp add: forget_sub_def Let_def split: option.split)

lemma entries_remove_entry [simp]: "entries (remove_entry k i) = AList.delete k (entries i)"
  by (simp add: remove_entry_def)

lemma entries_leave [simp]:
  "entries (inner (leave k e c)) = AList.delete k (entries (inner c))"
  "subscribed (leave k e c) = subscribed c"
  by (simp_all add: leave_def)

lemma length_delete: "map_of xs k = Some e \<Longrightarrow> length (AList.delete k xs) < length xs"
  by (induction xs) (auto simp: AList.delete_eq less_Suc_eq_le intro: order.trans [OF length_filter_le])

function shrink :: "cache \<Rightarrow> cache" where
  "shrink c =
     (if length (entries (inner c)) \<le> CAPACITY then c
      else (case oldest_of (entries (inner c)) of
              None \<Rightarrow> c
            | Some k \<Rightarrow>
                (case map_of (entries (inner c)) k of
                   None \<Rightarrow> c
                 | Some e \<Rightarrow> shrink (leave k e c))))"
  by pat_completeness auto
termination
  by (relation "measure (\<lambda>c. length (entries (inner c)))") (auto simp: length_delete)

declare shrink.simps [simp del]

definition insert_by_sub :: "string \<Rightarrow> key \<Rightarrow> inner \<Rightarrow> inner" where
  "insert_by_sub sub k i =
     i\<lparr>by_sub := (by_sub i)(sub \<mapsto>
        (case by_sub i sub of None \<Rightarrow> [k] | Some keys \<Rightarrow> if List.member keys k then keys else keys @ [k]))\<rparr>"

definition insert_cached :: "nat \<Rightarrow> key \<Rightarrow> string \<Rightarrow> cached \<Rightarrow> cache \<Rightarrow> cache" where
  "insert_cached now k sub v c =
     (let c = (case map_of (entries (inner c)) k of None \<Rightarrow> c | Some old \<Rightarrow> leave k old c);
          i = insert_by_sub sub k (inner c);
          e = \<lparr>entry_sub = sub, entry_slug = key_slug k, entry_cached = v, inserted = now, entry_counters = []\<rparr>
      in shrink (c\<lparr>inner := i\<lparr>entries := entries i @ [(k, e)]\<rparr>\<rparr>))"

definition count_request ::
  "time \<Rightarrow> (string \<Rightarrow> 64 word) \<Rightarrow> key \<Rightarrow> decision \<Rightarrow> string \<Rightarrow> ip_addr option \<Rightarrow> string option \<Rightarrow> cache
     \<Rightarrow> bool \<times> cache" where
  "count_request now hash k decision path src request c =
     (case map_of (entries (inner c)) k of
        None \<Rightarrow> (False, c)
      | Some e \<Rightarrow>
          (let cs = entry_counters e;
               n = (case map_of cs (decision, src) of
                      Some n \<Rightarrow> n
                    | None \<Rightarrow> \<lparr>tally = 0, first_seen = now, last_seen = now, first_path = path,
                              request_id = request, distinct_paths = []\<rparr>);
               n = n\<lparr>tally := tally n + 1, last_seen := now,
                     distinct_paths := (if List.member (distinct_paths n) (hash path) then distinct_paths n
                                        else distinct_paths n @ [hash path])\<rparr>;
               e = e\<lparr>entry_counters := AList.update (decision, src) n cs\<rparr>
           in (True, c\<lparr>inner := (inner c)\<lparr>entries := AList.update k e (entries (inner c))\<rparr>\<rparr>)))"

definition sweep :: "nat \<Rightarrow> cache \<Rightarrow> cache" where
  "sweep now c =
     foldl (\<lambda>c k. evict k c) c (map fst (filter (\<lambda>(k, e). now - inserted e \<ge> TTL) (entries (inner c))))"

definition drop_sub :: "string \<Rightarrow> cache \<Rightarrow> cache" where
  "drop_sub sub c =
     foldl (\<lambda>c k. evict k c) c (case by_sub (inner c) sub of None \<Rightarrow> [] | Some keys \<Rightarrow> keys)"

section \<open>What the operations do to the entries\<close>

abbreviation lookup :: "cache \<Rightarrow> key \<Rightarrow> entry option" where
  "lookup c \<equiv> map_of (entries (inner c))"

definition evict_all :: "key list \<Rightarrow> cache \<Rightarrow> cache" where
  "evict_all ks c = foldl (\<lambda>c k. evict k c) c ks"

declare delete_conv' [simp]

lemma lookup_leave: "lookup (leave k e c) = (lookup c)(k := None)"
  by simp

lemma lookup_evict [simp]: "lookup (evict k c) = (lookup c)(k := None)"
  by (auto simp: evict_def fun_eq_iff split: option.split)

lemma subscribed_evict [simp]: "subscribed (evict k c) = subscribed c"
  by (simp add: evict_def split: option.split)

lemma evict_all_simps [simp]:
  "evict_all [] c = c"
  "evict_all (k # ks) c = evict_all ks (evict k c)"
  by (simp_all add: evict_all_def)

lemma lookup_evict_all [simp]: "lookup (evict_all ks c) = (lookup c) |` (- set ks)"
  by (induction ks arbitrary: c) (auto simp: fun_eq_iff restrict_map_def)

lemma subscribed_evict_all [simp]: "subscribed (evict_all ks c) = subscribed c"
  by (induction ks arbitrary: c) simp_all

lemma drops_alt:
  "flush_all c = evict_all (map fst (entries (inner c))) c"
  "sweep now c = evict_all (map fst (filter (\<lambda>(k, e). now - inserted e \<ge> TTL) (entries (inner c)))) c"
  "drop_sub sub c = evict_all (case by_sub (inner c) sub of None \<Rightarrow> [] | Some keys \<Rightarrow> keys) c"
  by (simp_all add: flush_all_def sweep_def drop_sub_def evict_all_def)

lemma lookup_flush_all [simp]: "lookup (flush_all c) = Map.empty"
proof
  fix k
  have "lookup c k = None" if "k \<notin> fst ` set (entries (inner c))"
    using that by (simp add: map_of_eq_None_iff)
  then show "lookup (flush_all c) k = None" by (simp add: drops_alt restrict_map_def)
qed

lemma shrink_induct [case_names step]:
  assumes "P c" "\<And>c k e. P c \<Longrightarrow> lookup c k = Some e \<Longrightarrow> P (leave k e c)"
  shows "P (shrink c)"
  using assms(1)
proof (induction c rule: shrink.induct)
  case (1 c)
  then show ?case
    using assms(2) by (subst shrink.simps) (auto split: option.split)
qed

lemma shrink_submap: "lookup (shrink c) k = Some e \<Longrightarrow> lookup c k = Some e"
proof -
  have "lookup (shrink c) \<subseteq>\<^sub>m lookup c"
    by (rule shrink_induct [where P = "\<lambda>d. lookup d \<subseteq>\<^sub>m lookup c"])
      (auto simp: map_le_def)
  then show "lookup (shrink c) k = Some e \<Longrightarrow> lookup c k = Some e"
    unfolding map_le_def by (metis domI)
qed

lemma subscribed_shrink [simp]: "subscribed (shrink c) = subscribed c"
  by (rule shrink_induct [where P = "\<lambda>d. subscribed d = subscribed c"]) simp_all

lemma oldest_of_member: "oldest_of es = Some k \<Longrightarrow> k \<in> fst ` set es"
proof (induction es)
  case (Cons x es)
  then show ?case by (cases x) (auto split: option.splits if_splits)
qed simp

lemma oldest_of_SomeD: "oldest_of es = Some k \<Longrightarrow> \<exists>e. map_of es k = Some e"
  using oldest_of_member by (metis map_of_eq_None_iff not_Some_eq)

lemma oldest_of_None: "oldest_of es = None \<longleftrightarrow> es = []"
  by (cases es rule: oldest_of.cases) (auto split: option.split)

lemma shrink_capacity: "length (entries (inner (shrink c))) \<le> CAPACITY"
proof (induction c rule: shrink.induct)
  case (1 c)
  show ?case
  proof (cases "length (entries (inner c)) \<le> CAPACITY")
    case True
    then show ?thesis by (subst shrink.simps) simp
  next
    case False
    then obtain k where k: "oldest_of (entries (inner c)) = Some k"
      using oldest_of_None [of "entries (inner c)"] by (cases "oldest_of (entries (inner c))") auto
    moreover from this obtain e where "lookup c k = Some e" using oldest_of_SomeD by blast
    ultimately show ?thesis using 1 False by (subst shrink.simps) simp
  qed
qed

section \<open>The invariant\<close>

definition keys_of :: "inner \<Rightarrow> string \<Rightarrow> key list" where
  "keys_of i sub = (case by_sub i sub of None \<Rightarrow> [] | Some keys \<Rightarrow> keys)"

text \<open>
  The index is exact: a key is under a subject when, and only when, its entry is that subject's.
  No subject is kept with no key.
\<close>

definition subs_agree :: "cache \<Rightarrow> bool" where
  "subs_agree c \<longleftrightarrow>
     (\<forall>sub k. k \<in> set (keys_of (inner c) sub) \<longleftrightarrow> (\<exists>e. lookup c k = Some e \<and> entry_sub e = sub)) \<and>
     (\<forall>sub. by_sub (inner c) sub \<noteq> Some [])"

definition cache_ok :: "cache \<Rightarrow> bool" where
  "cache_ok c \<longleftrightarrow>
     distinct (map fst (entries (inner c))) \<and> subs_agree c \<and>
     (\<forall>k e. lookup c k = Some e \<longrightarrow> entry_slug e = key_slug k \<and> distinct (map fst (entry_counters e)))"

lemma keys_of_forget_sub:
  "set (keys_of (forget_sub sub k i) s) = (if s = sub then set (keys_of i s) - {k} else set (keys_of i s))"
  by (cases "by_sub i sub"; cases "removeAll k (the (by_sub i sub)) = []")
    (auto simp: forget_sub_def keys_of_def Let_def removeAll_filter_not_eq filter_empty_conv split: option.splits)

lemma by_sub_forget_sub:
  "(\<forall>s. by_sub i s \<noteq> Some []) \<Longrightarrow> by_sub (forget_sub sub k i) s \<noteq> Some []"
  by (auto simp: forget_sub_def Let_def split: option.splits)

lemma by_sub_remove_entry [simp]:
  "by_sub (remove_entry k i) = by_sub i" "keys_of (remove_entry k i) = keys_of i"
  by (simp_all add: remove_entry_def keys_of_def fun_eq_iff)

lemma subs_agree_leave:
  assumes "subs_agree c" "lookup c k = Some e"
  shows "subs_agree (leave k e c)"
  unfolding subs_agree_def
proof (intro conjI allI)
  fix sub k'
  have "inner (leave k e c) = forget_sub (entry_sub e) k (remove_entry k (inner c))" by (simp add: leave_def)
  then have "set (keys_of (inner (leave k e c)) sub) =
      (if sub = entry_sub e then set (keys_of (inner c) sub) - {k} else set (keys_of (inner c) sub))"
    by (simp add: keys_of_forget_sub)
  then show "k' \<in> set (keys_of (inner (leave k e c)) sub) \<longleftrightarrow>
      (\<exists>e'. lookup (leave k e c) k' = Some e' \<and> entry_sub e' = sub)"
    using assms by (auto simp: subs_agree_def)
next
  fix sub
  show "by_sub (inner (leave k e c)) sub \<noteq> Some []"
    using assms(1) by_sub_forget_sub [of "remove_entry k (inner c)" "entry_sub e" k]
    by (simp add: leave_def subs_agree_def)
qed

lemma cache_ok_leave: "cache_ok c \<Longrightarrow> lookup c k = Some e \<Longrightarrow> cache_ok (leave k e c)"
  unfolding cache_ok_def
proof (elim conjE, intro conjI)
  assume "subs_agree c" "lookup c k = Some e"
  then show "subs_agree (leave k e c)" by (rule subs_agree_leave)
next
  assume a: "\<forall>k e. lookup c k = Some e \<longrightarrow> entry_slug e = key_slug k \<and> distinct (map fst (entry_counters e))"
  show "\<forall>k' e'. lookup (leave k e c) k' = Some e' \<longrightarrow>
      entry_slug e' = key_slug k' \<and> distinct (map fst (entry_counters e'))"
    unfolding lookup_leave using a by simp
qed (simp add: distinct_delete)

lemma cache_ok_evict: "cache_ok c \<Longrightarrow> cache_ok (evict k c)"
  by (auto simp: evict_def cache_ok_leave split: option.split)

lemma cache_ok_evict_all: "cache_ok c \<Longrightarrow> cache_ok (evict_all ks c)"
  by (induction ks arbitrary: c) (simp_all add: cache_ok_evict)

lemma cache_ok_shrink: "cache_ok c \<Longrightarrow> cache_ok (shrink c)"
  by (rule shrink_induct [where P = cache_ok]) (simp_all add: cache_ok_leave)

lemma keys_of_insert_by_sub:
  "set (keys_of (insert_by_sub sub k i) s) = (if s = sub then insert k (set (keys_of i s)) else set (keys_of i s))"
  by (auto simp: insert_by_sub_def keys_of_def split: option.split)

text \<open>The state just before the capacity loop of \<open>insert\<close>.\<close>

definition placed :: "nat \<Rightarrow> key \<Rightarrow> string \<Rightarrow> cached \<Rightarrow> cache \<Rightarrow> cache" where
  "placed now k sub v c =
     (let c = evict k c; i = insert_by_sub sub k (inner c)
      in c\<lparr>inner := i\<lparr>entries := entries i @ [(k, \<lparr>entry_sub = sub, entry_slug = key_slug k,
            entry_cached = v, inserted = now, entry_counters = []\<rparr>)]\<rparr>\<rparr>)"

lemma insert_cached_alt: "insert_cached now k sub v c = shrink (placed now k sub v c)"
  by (simp add: insert_cached_def placed_def evict_def Let_def)

lemma lookup_placed:
  "lookup (placed now k sub v c) = (lookup c)(k \<mapsto> \<lparr>entry_sub = sub, entry_slug = key_slug k,
     entry_cached = v, inserted = now, entry_counters = []\<rparr>)"
proof -
  have "lookup (placed now k sub v c) = lookup (evict k c) ++ [k \<mapsto> \<lparr>entry_sub = sub, entry_slug = key_slug k,
     entry_cached = v, inserted = now, entry_counters = []\<rparr>]" if "lookup (evict k c) k = None"
    using that by (auto simp: placed_def Let_def insert_by_sub_def map_add_def fun_eq_iff split: option.split)
  then show ?thesis by (auto simp: fun_eq_iff map_add_def)
qed

lemma subscribed_placed [simp]: "subscribed (placed now k sub v c) = subscribed c"
  by (simp add: placed_def Let_def)

lemma cache_ok_placed:
  assumes "cache_ok c"
  shows "cache_ok (placed now k sub v c)"
proof -
  let ?c = "evict k c"
  have ok: "cache_ok ?c" using assms by (rule cache_ok_evict)
  have k: "k \<notin> fst ` set (entries (inner ?c))"
    using lookup_evict [of k c] by (metis fun_upd_same map_of_eq_None_iff)
  have i: "inner (placed now k sub v c) = (insert_by_sub sub k (inner ?c))\<lparr>entries := entries (inner ?c) @
      [(k, \<lparr>entry_sub = sub, entry_slug = key_slug k, entry_cached = v, inserted = now, entry_counters = []\<rparr>)]\<rparr>"
    by (simp add: placed_def Let_def insert_by_sub_def)
  have "keys_of (inner (placed now k sub v c)) = keys_of (insert_by_sub sub k (inner ?c))"
    by (simp add: i keys_of_def fun_eq_iff)
  then have "set (keys_of (inner (placed now k sub v c)) s) =
      (if s = sub then insert k (set (keys_of (inner ?c) s)) else set (keys_of (inner ?c) s))" for s
    by (simp add: keys_of_insert_by_sub)
  moreover have "k \<notin> set (keys_of (inner ?c) s)" for s using ok by (simp add: cache_ok_def subs_agree_def)
  moreover have "k' \<in> set (keys_of (inner ?c) s) \<longleftrightarrow> (\<exists>e. k' \<noteq> k \<and> lookup c k' = Some e \<and> entry_sub e = s)" for k' s
    using ok by (simp add: cache_ok_def subs_agree_def)
  moreover have "by_sub (inner (placed now k sub v c)) s \<noteq> Some []" for s
    using ok by (auto simp: i insert_by_sub_def cache_ok_def subs_agree_def split: option.split)
  ultimately have "subs_agree (placed now k sub v c)"
    unfolding subs_agree_def lookup_placed by auto
  moreover have "distinct (map fst (entries (inner (placed now k sub v c))))"
    using ok k by (simp add: i cache_ok_def)
  ultimately show ?thesis using assms by (auto simp: cache_ok_def lookup_placed)
qed

lemma cache_ok_insert: "cache_ok c \<Longrightarrow> cache_ok (insert_cached now k sub v c)"
  by (simp add: insert_cached_alt cache_ok_shrink cache_ok_placed)

definition with_counters :: "key \<Rightarrow> entry \<Rightarrow> outcome \<Rightarrow> counters \<Rightarrow> cache \<Rightarrow> cache" where
  "with_counters k e oc n c = c\<lparr>inner := (inner c)\<lparr>entries :=
      AList.update k (e\<lparr>entry_counters := AList.update oc n (entry_counters e)\<rparr>) (entries (inner c))\<rparr>\<rparr>"

lemma count_request_hit:
  assumes "lookup c k = Some e"
  shows "\<exists>n. count_request now hash k d path src rq c = (True, with_counters k e (d, src) n c) \<and>
    tally n = (case map_of (entry_counters e) (d, src) of None \<Rightarrow> 0 | Some m \<Rightarrow> tally m) + 1"
  using assms by (auto simp: count_request_def with_counters_def Let_def split: option.splits)

lemma with_counters_simps [simp]:
  "lookup (with_counters k e oc n c) =
     (lookup c)(k \<mapsto> e\<lparr>entry_counters := AList.update oc n (entry_counters e)\<rparr>)"
  "subscribed (with_counters k e oc n c) = subscribed c"
  "by_sub (inner (with_counters k e oc n c)) = by_sub (inner c)"
  "sink (with_counters k e oc n c) = sink c"
  by (simp_all add: with_counters_def update_conv')

lemma count_request_miss: "lookup c k = None \<Longrightarrow> count_request now hash k d path src rq c = (False, c)"
  by (simp add: count_request_def)

text \<open>Counting leaves everything of an entry but its counters.\<close>

definition same_entry :: "entry \<Rightarrow> entry \<Rightarrow> bool" where
  "same_entry e e' \<longleftrightarrow> entry_sub e = entry_sub e' \<and> entry_slug e = entry_slug e'
     \<and> entry_cached e = entry_cached e' \<and> inserted e = inserted e'"

lemma lookup_count:
  assumes "lookup (snd (count_request now hash k d path src rq c)) k' = Some e'"
  shows "\<exists>e. lookup c k' = Some e \<and> same_entry e e'"
proof (cases "lookup c k")
  case None
  then show ?thesis using assms by (simp add: count_request_miss same_entry_def)
next
  case (Some e)
  then obtain n where "snd (count_request now hash k d path src rq c) = with_counters k e (d, src) n c"
    using count_request_hit [OF Some, of now hash d path src rq] by auto
  then show ?thesis
    using assms Some by (auto simp: same_entry_def split: if_splits)
qed

lemma subscribed_count [simp]: "subscribed (snd (count_request now hash k d path src rq c)) = subscribed c"
  by (simp add: count_request_def Let_def split: option.split)

lemma cache_ok_count: "cache_ok c \<Longrightarrow> cache_ok (snd (count_request now hash k d path src rq c))"
proof (cases "lookup c k")
  case (Some e)
  assume ok: "cache_ok c"
  from Some obtain n where n: "snd (count_request now hash k d path src rq c) = with_counters k e (d, src) n c"
    using count_request_hit [OF Some, of now hash d path src rq] by auto
  have e: "entry_slug e = key_slug k" "distinct (map fst (entry_counters e))"
    using ok Some unfolding cache_ok_def by blast+
  have keys: "keys_of (inner (with_counters k e (d, src) n c)) = keys_of (inner c)"
    by (simp add: keys_of_def fun_eq_iff)
  have i: "\<forall>sub k. k \<in> set (keys_of (inner c) sub) \<longleftrightarrow> (\<exists>e. lookup c k = Some e \<and> entry_sub e = sub)"
    "\<forall>sub. by_sub (inner c) sub \<noteq> Some []"
    using ok unfolding cache_ok_def subs_agree_def by blast+
  have "subs_agree (with_counters k e (d, src) n c)"
    unfolding subs_agree_def keys with_counters_simps using i Some by auto
  moreover have "distinct (map fst (entries (inner (with_counters k e (d, src) n c))))"
    using ok by (simp add: with_counters_def cache_ok_def distinct_update)
  moreover have "\<forall>k' e'. lookup (with_counters k e (d, src) n c) k' = Some e' \<longrightarrow>
      entry_slug e' = key_slug k' \<and> distinct (map fst (entry_counters e'))"
    unfolding with_counters_simps using ok e by (auto simp: cache_ok_def distinct_update)
  ultimately show ?thesis unfolding n cache_ok_def by blast
qed (simp add: count_request_miss)

section \<open>Runs of the cache\<close>

datatype cache_op =
    Insert nat key string cached
  | Count time key decision string "ip_addr option" "string option"
  | Sweep nat
  | Drop_sub string
  | Flush_all
  | Set_subscribed bool

fun apply_op :: "(string \<Rightarrow> 64 word) \<Rightarrow> cache_op \<Rightarrow> cache \<Rightarrow> cache" where
  "apply_op hash (Insert now k sub v) c = insert_cached now k sub v c"
| "apply_op hash (Count now k d path src rq) c = snd (count_request now hash k d path src rq c)"
| "apply_op hash (Sweep now) c = sweep now c"
| "apply_op hash (Drop_sub sub) c = drop_sub sub c"
| "apply_op hash Flush_all c = flush_all c"
| "apply_op hash (Set_subscribed on) c = set_subscribed on c"

definition run_ops :: "(string \<Rightarrow> 64 word) \<Rightarrow> cache_op list \<Rightarrow> cache \<Rightarrow> cache" where
  "run_ops hash ops c = fold (apply_op hash) ops c"

lemma run_ops_simps [simp]:
  "run_ops hash [] c = c"
  "run_ops hash (ops @ [op]) c = apply_op hash op (run_ops hash ops c)"
  by (simp_all add: run_ops_def)

lemma cache_ok_more [simp]: "cache_ok (c\<lparr>subscribed := b\<rparr>) \<longleftrightarrow> cache_ok c"
  by (simp add: cache_ok_def subs_agree_def)

lemma cache_ok_apply: "cache_ok c \<Longrightarrow> cache_ok (apply_op hash op c)"
  by (cases op)
    (simp_all add: cache_ok_insert cache_ok_count drops_alt cache_ok_evict_all set_subscribed_def Let_def)

lemma cache_ok_new: "cache_ok (new_cache a)"
  by (simp add: cache_ok_def new_cache_def subs_agree_def keys_of_def)

lemma cache_ok_run: "cache_ok (run_ops hash ops (new_cache a))"
  by (induction ops rule: rev_induct) (simp_all add: cache_ok_new cache_ok_apply)

lemma capacity_count:
  "length (entries (inner (snd (count_request now hash k d path src rq c)))) = length (entries (inner c))"
proof (cases "lookup c k")
  case (Some e)
  have "length (AList.update k x al) = length al" if "map_of al k = Some e" for x and al :: "(key \<times> entry) list"
    using that by (induction al) auto
  moreover obtain n where "snd (count_request now hash k d path src rq c) = with_counters k e (d, src) n c"
    using count_request_hit [OF Some, of now hash d path src rq] by auto
  ultimately show ?thesis using Some by (simp add: with_counters_def)
qed (simp add: count_request_miss)

lemma length_evict: "length (entries (inner (evict k c))) \<le> length (entries (inner c))"
  by (auto simp: evict_def length_delete intro: less_imp_le split: option.split)

lemma length_evict_all: "length (entries (inner (evict_all ks c))) \<le> length (entries (inner c))"
proof (induction ks arbitrary: c)
  case (Cons k ks)
  have "length (entries (inner (evict_all ks (evict k c)))) \<le> length (entries (inner (evict k c)))" by (rule Cons)
  then show ?case using length_evict [of k c] by simp
qed simp

lemma capacity_run: "length (entries (inner (run_ops hash ops (new_cache a)))) \<le> CAPACITY"
proof (induction ops rule: rev_induct)
  case Nil
  then show ?case by (simp add: new_cache_def)
next
  case (snoc op ops)
  then show ?case
    by (cases op) (auto simp: insert_cached_alt shrink_capacity capacity_count drops_alt set_subscribed_def Let_def
        intro: order.trans [OF length_evict_all])
qed

section \<open>Where a hit comes from\<close>

text \<open>
  A run that ends in a live entry for a key: the insert it came from, and everything that did
  not happen since - no other insert for the key, no drop of its subject, no flush, no gap in the
  subscription.
\<close>

definition undisturbed :: "key \<Rightarrow> string \<Rightarrow> cache_op list \<Rightarrow> bool" where
  "undisturbed k sub ops \<longleftrightarrow>
     (\<forall>now s v. Insert now k s v \<notin> set ops) \<and> Drop_sub sub \<notin> set ops \<and> Flush_all \<notin> set ops"

definition came_from :: "(string \<Rightarrow> 64 word) \<Rightarrow> audit \<Rightarrow> cache_op list \<Rightarrow> key \<Rightarrow> entry \<Rightarrow> bool" where
  "came_from hash a ops k e \<longleftrightarrow>
     (\<exists>pre post. ops = pre @ Insert (inserted e) k (entry_sub e) (entry_cached e) # post \<and>
        undisturbed k (entry_sub e) post \<and>
        (subscribed (run_ops hash ops (new_cache a)) \<longrightarrow>
           subscribed (run_ops hash pre (new_cache a)) \<and> Set_subscribed False \<notin> set post))"

lemma came_from_snoc:
  assumes "came_from hash a ops k e'" "same_entry e' e"
    "\<forall>now s v. op \<noteq> Insert now k s v" "op \<noteq> Drop_sub (entry_sub e')" "op \<noteq> Flush_all"
    "subscribed (run_ops hash (ops @ [op]) (new_cache a)) \<Longrightarrow>
      subscribed (run_ops hash ops (new_cache a)) \<and> op \<noteq> Set_subscribed False"
  shows "came_from hash a (ops @ [op]) k e"
proof -
  obtain pre post where p: "ops = pre @ Insert (inserted e') k (entry_sub e') (entry_cached e') # post"
    "undisturbed k (entry_sub e') post"
    "subscribed (run_ops hash ops (new_cache a)) \<longrightarrow>
       subscribed (run_ops hash pre (new_cache a)) \<and> Set_subscribed False \<notin> set post"
    using assms(1) unfolding came_from_def by blast
  have "ops @ [op] = pre @ Insert (inserted e) k (entry_sub e) (entry_cached e) # (post @ [op])"
    "undisturbed k (entry_sub e) (post @ [op])"
    using p assms(2-5) by (auto simp: undisturbed_def same_entry_def)
  moreover have "subscribed (run_ops hash (ops @ [op]) (new_cache a)) \<longrightarrow>
       subscribed (run_ops hash pre (new_cache a)) \<and> Set_subscribed False \<notin> set (post @ [op])"
    using p(3) assms(6) by auto
  ultimately show ?thesis unfolding came_from_def by blast
qed

lemma drop_sub_lookup:
  assumes "subs_agree c" "lookup (drop_sub sub c) k = Some e"
  shows "lookup c k = Some e" "entry_sub e \<noteq> sub"
proof -
  show l: "lookup c k = Some e" using assms(2) by (auto simp: drops_alt restrict_map_def split: if_splits)
  have "k \<notin> set (keys_of (inner c) sub)"
    using assms(2) by (auto simp: drops_alt keys_of_def restrict_map_def split: if_splits)
  then show "entry_sub e \<noteq> sub" using assms(1) l by (auto simp: subs_agree_def)
qed

lemma entry_came_from:
  "lookup (run_ops hash ops (new_cache a)) k = Some e \<Longrightarrow> came_from hash a ops k e"
proof (induction ops arbitrary: e rule: rev_induct)
  case Nil
  then show ?case by (simp add: new_cache_def)
next
  case (snoc op ops)
  let ?c = "run_ops hash ops (new_cache a)"
  have refl: "same_entry e e" by (simp add: same_entry_def)
  note keep = came_from_snoc [OF snoc.IH]
  show ?case
  proof (cases op)
    case (Insert now k' sub v)
    have l: "lookup (placed now k' sub v ?c) k = Some e"
      using snoc.prems Insert shrink_submap [of "placed now k' sub v ?c" k e] by (simp add: insert_cached_alt)
    show ?thesis
    proof (cases "k' = k")
      case True
      with l have "e = \<lparr>entry_sub = sub, entry_slug = key_slug k, entry_cached = v, inserted = now, entry_counters = []\<rparr>"
        by (simp add: lookup_placed)
      then show ?thesis unfolding came_from_def Insert True
        by (intro exI [of _ ops] exI [of _ "[]"]) (simp add: undisturbed_def insert_cached_alt)
    next
      case False
      with l have "lookup ?c k = Some e" by (simp add: lookup_placed)
      then show ?thesis using Insert False by (intro keep [OF _ refl]) (auto simp: insert_cached_alt)
    qed
  next
    case (Count now k' d path src rq)
    then obtain e' where "lookup ?c k = Some e'" "same_entry e' e"
      using snoc.prems lookup_count [of now hash k' d path src rq ?c k e] by auto
    then show ?thesis using Count by (intro keep) auto
  next
    case (Sweep now)
    then have "lookup ?c k = Some e"
      using snoc.prems by (auto simp: drops_alt restrict_map_def split: if_splits)
    then show ?thesis using Sweep by (intro keep [OF _ refl]) (auto simp: drops_alt)
  next
    case (Drop_sub sub)
    have "subs_agree ?c" using cache_ok_run by (simp add: cache_ok_def)
    with Drop_sub snoc.prems have "lookup ?c k = Some e" "entry_sub e \<noteq> sub"
      using drop_sub_lookup [of ?c sub k e] by auto
    then show ?thesis using Drop_sub by (intro keep [OF _ refl]) (auto simp: drops_alt)
  next
    case Flush_all
    then show ?thesis using snoc.prems by simp
  next
    case (Set_subscribed on)
    have "on \<longrightarrow> subscribed ?c" "lookup ?c k = Some e"
      using snoc.prems Set_subscribed by (auto simp: set_subscribed_def Let_def split: if_splits)
    then show ?thesis
      using Set_subscribed by (intro keep [OF _ refl]) (auto simp: set_subscribed_def Let_def)
  qed
qed

section \<open>No road out loses a counter\<close>

definition pending_events :: "cache \<Rightarrow> audit_event list" where
  "pending_events c = concat (map (\<lambda>(k, e). map (flush_event e) (entry_counters e)) (entries (inner c)))"

text \<open>
  Going from one state to the next, exactly the events \<open>evs\<close> stopped being pending, and exactly
  these were offered to the audit channel.
\<close>

definition drains :: "cache \<Rightarrow> cache \<Rightarrow> audit_event list \<Rightarrow> bool" where
  "drains c c' evs \<longleftrightarrow>
     sink c' = fold record_event evs (sink c) \<and> mset (pending_events c) = mset evs + mset (pending_events c')"

lemma drains_refl: "drains c c []"
  by (simp add: drains_def)

lemma drains_trans: "drains c c' evs \<Longrightarrow> drains c' c'' evs' \<Longrightarrow> drains c c'' (evs @ evs')"
  by (simp add: drains_def)

lemma mset_concat_delete:
  "distinct (map fst xs) \<Longrightarrow> map_of xs k = Some e \<Longrightarrow>
   mset (concat (map f xs)) = mset (f (k, e)) + mset (concat (map f (AList.delete k xs)))"
proof (induction xs)
  case (Cons x xs)
  obtain k' e' where x: "x = (k', e')" by (cases x)
  show ?case
  proof (cases "k' = k")
    case True
    then have "k \<notin> fst ` set xs" using Cons.prems(1) x by simp
    then have "AList.delete k xs = xs" by (simp add: delete_idem)
    then show ?thesis using True Cons.prems x by simp
  next
    case False
    then show ?thesis using Cons x by (simp add: ac_simps)
  qed
qed simp

lemma foldl_record:
  "foldl (\<lambda>a oc. record_event (f oc) a) a ocs = fold record_event (map f ocs) a"
  by (induction ocs arbitrary: a) simp_all

lemma drains_leave:
  assumes "cache_ok c" "lookup c k = Some e"
  shows "drains c (leave k e c) (map (flush_event e) (entry_counters e))"
proof -
  have "mset (pending_events c) = mset (map (flush_event e) (entry_counters e)) + mset (pending_events (leave k e c))"
    using mset_concat_delete [of "entries (inner c)" k e "\<lambda>(k, e). map (flush_event e) (entry_counters e)"] assms
    by (simp add: cache_ok_def pending_events_def)
  then show ?thesis
    by (simp add: drains_def leave_def flush_def foldl_record)
qed

lemma drains_evict: "cache_ok c \<Longrightarrow> \<exists>evs. drains c (evict k c) evs"
proof (cases "lookup c k")
  case None
  then show ?thesis using drains_refl by (auto simp: evict_def)
next
  case (Some e)
  assume "cache_ok c"
  from drains_leave [OF this Some] show ?thesis using Some by (auto simp: evict_def)
qed

lemma drains_evict_all: "cache_ok c \<Longrightarrow> \<exists>evs. drains c (evict_all ks c) evs"
proof (induction ks arbitrary: c)
  case (Cons k ks)
  then show ?case
    using drains_evict [of c k] Cons.IH [of "evict k c"] cache_ok_evict drains_trans by (metis evict_all_simps(2))
qed (auto intro: drains_refl)

lemma drains_shrink:
  assumes "cache_ok c"
  shows "\<exists>evs. drains c (shrink c) evs"
proof -
  have "cache_ok (shrink c) \<and> (\<exists>evs. drains c (shrink c) evs)"
  proof (rule shrink_induct)
    show "cache_ok c \<and> (\<exists>evs. drains c c evs)" using assms drains_refl by blast
  next
    fix d k e assume "cache_ok d \<and> (\<exists>evs. drains c d evs)" "lookup d k = Some e"
    then show "cache_ok (leave k e d) \<and> (\<exists>evs. drains c (leave k e d) evs)"
      using cache_ok_leave drains_leave drains_trans by blast
  qed
  then show ?thesis by blast
qed

lemma drains_placed: "cache_ok c \<Longrightarrow> \<exists>evs. drains c (placed now k sub v c) evs"
proof -
  assume "cache_ok c"
  then obtain evs where "drains c (evict k c) evs" using drains_evict by blast
  then have "drains c (placed now k sub v c) evs"
    by (simp add: drains_def placed_def Let_def pending_events_def insert_by_sub_def)
  then show ?thesis by blast
qed

lemma drains_insert: "cache_ok c \<Longrightarrow> \<exists>evs. drains c (insert_cached now k sub v c) evs"
  using drains_placed drains_shrink cache_ok_placed drains_trans unfolding insert_cached_alt by blast

lemma drains_set_subscribed: "cache_ok c \<Longrightarrow> \<exists>evs. drains c (set_subscribed b c) evs"
proof -
  assume ok: "cache_ok c"
  obtain evs where "drains c (if b \<and> \<not> subscribed c then flush_all c else c) evs"
    using drains_evict_all [OF ok, of "map fst (entries (inner c))"] drains_refl [of c]
    by (cases "b \<and> \<not> subscribed c") (auto simp: drops_alt)
  then have "drains c (set_subscribed b c) evs"
    by (simp add: set_subscribed_def Let_def drains_def pending_events_def)
  then show ?thesis by blast
qed

definition sum_counts :: "audit_event list \<Rightarrow> 32 word" where
  "sum_counts evs = sum_list (map ev_count evs)"

lemma sum_counts_mset: "mset evs = mset evs' \<Longrightarrow> sum_counts evs = sum_counts evs'"
  unfolding sum_counts_def by (metis mset_map sum_mset_sum_list)

lemma sum_counts_append [simp]: "sum_counts (xs @ ys) = sum_counts xs + sum_counts ys"
  by (simp add: sum_counts_def)

lemma sum_counts_drains:
  assumes "drains c c' evs"
  shows "sum_counts (pending_events c) = sum_counts evs + sum_counts (pending_events c')"
proof -
  have "mset (pending_events c) = mset (evs @ pending_events c')" using assms by (simp add: drains_def)
  from sum_counts_mset [OF this] show ?thesis by simp
qed

lemma sum_chain: "a + b = c + d \<Longrightarrow> e + f = b + g \<Longrightarrow> a + e + f = c + (d + g)"
  for a b c d e f g :: "'a::comm_monoid_add"
  by (metis add.assoc)

lemma sum_list_update:
  assumes "distinct (map fst xs)"
  shows "sum_list (map f (AList.update k v xs)) + (case map_of xs k of None \<Rightarrow> 0 | Some u \<Rightarrow> f (k, u)) =
    sum_list (map f xs) + (f (k, v) :: 'a::comm_monoid_add)"
  using assms
proof (induction xs)
  case (Cons x xs)
  obtain k' u where x: "x = (k', u)" by (cases x)
  show ?case
  proof (cases "k' = k")
    case False
    then show ?thesis using Cons x by (simp add: ac_simps split: option.splits)
  qed (simp add: x ac_simps)
qed simp

lemma sum_counts_concat: "sum_counts (concat (map f xs)) = sum_list (map (\<lambda>x. sum_counts (f x)) xs)"
  by (induction xs) (simp_all add: sum_counts_def)

lemma sum_counts_flush: "sum_counts (map (flush_event e) ocs) = sum_list (map (\<lambda>oc. tally (snd oc)) ocs)"
  by (induction ocs) (auto simp: sum_counts_def flush_event_def)

lemma sum_counts_count:
  assumes "cache_ok c" "lookup c k = Some e"
  shows "sum_counts (pending_events (snd (count_request now hash k d path src rq c))) = sum_counts (pending_events c) + 1"
    "sink (snd (count_request now hash k d path src rq c)) = sink c"
proof -
  obtain n where n: "snd (count_request now hash k d path src rq c) = with_counters k e (d, src) n c"
    "tally n = (case map_of (entry_counters e) (d, src) of None \<Rightarrow> 0 | Some m \<Rightarrow> tally m) + 1"
    using count_request_hit [OF assms(2), of now hash d path src rq] by auto
  let ?f = "\<lambda>(k :: key, e). sum_list (map (\<lambda>oc. tally (snd oc)) (entry_counters e))"
  let ?e = "e\<lparr>entry_counters := AList.update (d, src) n (entry_counters e)\<rparr>"
  have p: "sum_counts (pending_events c') = sum_list (map ?f (entries (inner c')))" for c'
    by (simp add: pending_events_def sum_counts_concat case_prod_unfold sum_counts_flush)
  have distinct: "distinct (map fst (entries (inner c)))" "distinct (map fst (entry_counters e))"
    using assms unfolding cache_ok_def by blast+
  have "?f (k, ?e) + (case map_of (entry_counters e) (d, src) of None \<Rightarrow> 0 | Some m \<Rightarrow> tally m) = ?f (k, e) + tally n"
    using sum_list_update [OF distinct(2), of "\<lambda>oc. tally (snd oc)" "(d, src)" n]
    by (simp add: case_prod_unfold split: option.splits)
  then have "?f (k, ?e) = ?f (k, e) + 1" using n(2) by (simp add: algebra_simps)
  moreover have "sum_list (map ?f (AList.update k ?e (entries (inner c)))) + ?f (k, e) =
      sum_list (map ?f (entries (inner c))) + ?f (k, ?e)"
    using sum_list_update [OF distinct(1), of ?f k ?e] assms(2) by simp
  ultimately show "sum_counts (pending_events (snd (count_request now hash k d path src rq c))) = sum_counts (pending_events c) + 1"
    unfolding p n(1) by (simp add: with_counters_def algebra_simps)
  show "sink (snd (count_request now hash k d path src rq c)) = sink c" by (simp add: n(1))
qed

text \<open>The requests of a run that found a live entry to be counted in.\<close>

fun counted_hits :: "(string \<Rightarrow> 64 word) \<Rightarrow> cache_op list \<Rightarrow> cache \<Rightarrow> nat" where
  "counted_hits hash [] c = 0"
| "counted_hits hash (op # ops) c =
     (case op of Count now k d path src rq \<Rightarrow> (if fst (count_request now hash k d path src rq c) then 1 else 0)
      | _ \<Rightarrow> 0) + counted_hits hash ops (apply_op hash op c)"

lemma apply_op_drains:
  assumes "cache_ok c" "\<forall>now k d path src rq. op \<noteq> Count now k d path src rq"
  shows "\<exists>evs. drains c (apply_op hash op c) evs"
  using assms by (cases op) (simp_all add: drains_insert drops_alt drains_evict_all drains_set_subscribed)

lemma conservation:
  "cache_ok c \<Longrightarrow>
   \<exists>evs. sink (run_ops hash ops c) = fold record_event evs (sink c) \<and>
     sum_counts evs + sum_counts (pending_events (run_ops hash ops c)) =
       sum_counts (pending_events c) + of_nat (counted_hits hash ops c)"
proof (induction ops arbitrary: c)
  case Nil
  show ?case by (rule exI [of _ "[]"]) (simp add: sum_counts_def)
next
  case (Cons op ops)
  let ?c = "apply_op hash op c"
  have one: "\<exists>evs. sink ?c = fold record_event evs (sink c) \<and>
      sum_counts evs + sum_counts (pending_events ?c) = sum_counts (pending_events c) + of_nat (counted_hits hash [op] c)"
  proof (cases "\<exists>now k d path src rq. op = Count now k d path src rq")
    case True
    then obtain now k d path src rq where op: "op = Count now k d path src rq" by blast
    show ?thesis
    proof (cases "lookup c k")
      case None
      then show ?thesis by (intro exI [of _ "[]"]) (simp add: op count_request_miss sum_counts_def)
    next
      case (Some e)
      then show ?thesis
        using sum_counts_count [OF Cons.prems Some, of now hash d path src rq]
          count_request_hit [OF Some, of now hash d path src rq]
        by (intro exI [of _ "[]"]) (auto simp: op sum_counts_def)
    qed
  next
    case False
    then obtain evs where "drains c ?c evs" using apply_op_drains [OF Cons.prems] by blast
    moreover have "counted_hits hash [op] c = 0" using False by (cases op) auto
    ultimately show ?thesis using sum_counts_drains by (auto simp: drains_def)
  qed
  then obtain evs where e: "sink ?c = fold record_event evs (sink c)"
    "sum_counts evs + sum_counts (pending_events ?c) = sum_counts (pending_events c) + of_nat (counted_hits hash [op] c)" by blast
  obtain evs' where e': "sink (run_ops hash ops ?c) = fold record_event evs' (sink ?c)"
    "sum_counts evs' + sum_counts (pending_events (run_ops hash ops ?c)) =
       sum_counts (pending_events ?c) + of_nat (counted_hits hash ops ?c)"
    using Cons.IH cache_ok_apply [OF Cons.prems] by blast
  have "counted_hits hash (op # ops) c = counted_hits hash [op] c + counted_hits hash ops ?c" by simp
  moreover have "sum_counts (evs @ evs') + sum_counts (pending_events (run_ops hash ops ?c)) =
      sum_counts (pending_events c) + (of_nat (counted_hits hash [op] c) + of_nat (counted_hits hash ops ?c))"
    unfolding sum_counts_append using e(2) e'(2) by (rule sum_chain)
  ultimately have "sum_counts (evs @ evs') + sum_counts (pending_events (run_ops hash (op # ops) c)) =
      sum_counts (pending_events c) + of_nat (counted_hits hash (op # ops) c)"
    by (simp only: run_ops_def fold_simps of_nat_add)
  moreover have "sink (run_ops hash (op # ops) c) = fold record_event (evs @ evs') (sink c)"
    using e(1) e'(1) by (simp add: run_ops_def)
  ultimately show ?case by blast
qed

section \<open>The contract the handlers rely on\<close>

text \<open>
  What a client needs of a decision cache: a hit after a fill of a key is what was filled, within
  the time to live; a fill touches no other key; dropping a subject ends every entry it owns.
\<close>

locale decision_cache =
  fixes ok :: "'c \<Rightarrow> bool"
    and get :: "nat \<Rightarrow> 'k \<Rightarrow> 'c \<Rightarrow> 'v option"
    and put :: "nat \<Rightarrow> 'k \<Rightarrow> string \<Rightarrow> 'v \<Rightarrow> 'c \<Rightarrow> 'c"
    and drop_owner :: "string \<Rightarrow> 'c \<Rightarrow> 'c"
    and owner :: "'k \<Rightarrow> 'c \<Rightarrow> string option"
    and ttl :: nat
  assumes ok_put: "ok c \<Longrightarrow> ok (put now k sub v c)"
    and ok_drop: "ok c \<Longrightarrow> ok (drop_owner sub c)"
    and get_put: "ok c \<Longrightarrow> get now' k' (put now k sub v c) = Some w \<Longrightarrow>
      if k' = k then w = v \<and> now' - now < ttl else get now' k' c = Some w"
    and owner_put: "ok c \<Longrightarrow> owner k' (put now k sub v c) = Some s \<Longrightarrow>
      if k' = k then s = sub else owner k' c = Some s"
    and get_owner: "get now k c = Some w \<Longrightarrow> owner k c \<noteq> None"
    and owner_drop: "ok c \<Longrightarrow> owner k (drop_owner sub c) = Some s \<Longrightarrow> owner k c = Some s \<and> s \<noteq> sub"
begin

lemma fill_then_read:
  "ok c \<Longrightarrow> get now' k (put now k sub v c) = Some w \<Longrightarrow> w = v \<and> now' - now < ttl"
  using get_put [of c now' k now k sub v w] by simp

text \<open>After a drop, fills for other subjects bring nothing of the dropped one back.\<close>

definition fills :: "(nat \<times> 'k \<times> string \<times> 'v) list \<Rightarrow> 'c \<Rightarrow> 'c" where
  "fills fs c = fold (\<lambda>(now, k, sub, v). put now k sub v) fs c"

lemma fills_owner:
  "ok c \<Longrightarrow> owner k (fills fs c) = Some s \<Longrightarrow>
   owner k c = Some s \<or> s \<in> (\<lambda>(now, k, sub, v). sub) ` set fs"
proof (induction fs arbitrary: c)
  case (Cons f fs)
  obtain now k' sub v where f: "f = (now, k', sub, v)" by (cases f)
  have "ok (put now k' sub v c)" "owner k (fills fs (put now k' sub v c)) = Some s"
    using Cons.prems f ok_put by (simp_all add: fills_def)
  from Cons.IH [OF this] consider "owner k (put now k' sub v c) = Some s"
    | "s \<in> (\<lambda>(now, k, sub, v). sub) ` set fs" by blast
  then show ?case
  proof cases
    case 1
    then show ?thesis using owner_put [OF Cons.prems(1) 1] f by (auto split: if_splits)
  qed simp
qed (simp add: fills_def)

lemma revoked:
  assumes "ok c" "\<forall>(now, k, s, v)\<in>set fs. s \<noteq> sub"
  shows "owner k (fills fs (drop_owner sub c)) \<noteq> Some sub"
proof
  assume "owner k (fills fs (drop_owner sub c)) = Some sub"
  from fills_owner [OF ok_drop [OF assms(1)] this] assms(2) show False
    using owner_drop [OF assms(1)] by fastforce
qed

end

definition owner :: "key \<Rightarrow> cache \<Rightarrow> string option" where
  "owner k c = map_option entry_sub (lookup c k)"

lemma get_Some:
  "get now k c = Some v \<longleftrightarrow>
     subscribed c \<and> (\<exists>e. lookup c k = Some e \<and> now - inserted e < TTL \<and> v = entry_cached e)"
  by (auto simp: get_def split: option.splits if_splits)

interpretation decisions: decision_cache cache_ok get insert_cached drop_sub owner TTL
proof unfold_locales
  fix c k sub v now
  show "cache_ok c \<Longrightarrow> cache_ok (insert_cached now k sub v c)" by (rule cache_ok_insert)
  show "cache_ok c \<Longrightarrow> cache_ok (drop_sub sub c)" by (simp add: drops_alt cache_ok_evict_all)
next
  fix c now' k' now k sub v w
  assume "get now' k' (insert_cached now k sub v c) = Some w"
  then obtain e where e: "subscribed c" "lookup (shrink (placed now k sub v c)) k' = Some e"
    "now' - inserted e < TTL" "w = entry_cached e" by (auto simp: get_Some insert_cached_alt)
  from shrink_submap [OF e(2)] e(1,3,4)
  show "if k' = k then w = v \<and> now' - now < TTL else get now' k' c = Some w"
    unfolding lookup_placed by (auto simp: get_Some split: if_splits)
next
  fix c k' now k sub v s
  assume "owner k' (insert_cached now k sub v c) = Some s"
  then obtain e where e: "lookup (shrink (placed now k sub v c)) k' = Some e" "s = entry_sub e"
    by (auto simp: owner_def insert_cached_alt)
  from shrink_submap [OF e(1)] e(2)
  show "if k' = k then s = sub else owner k' c = Some s"
    unfolding lookup_placed by (auto simp: owner_def split: if_splits)
next
  fix now k c w
  show "get now k c = Some w \<Longrightarrow> owner k c \<noteq> None" by (auto simp: get_Some owner_def)
next
  fix c k sub s
  assume "cache_ok c" "owner k (drop_sub sub c) = Some s"
  moreover from this obtain e where "lookup (drop_sub sub c) k = Some e" "s = entry_sub e"
    by (auto simp: owner_def)
  ultimately show "owner k c = Some s \<and> s \<noteq> sub"
    using drop_sub_lookup [of c sub k e] by (auto simp: cache_ok_def owner_def)
qed

section \<open>Which cookies are the session's\<close>

definition cookie_name :: "string \<Rightarrow> string option" where
  "cookie_name cookie = map_option (\<lambda>(name, val). str_trim name) (split_once CHR ''='' cookie)"

definition in_family :: "string \<Rightarrow> bool" where
  "in_family cookie \<longleftrightarrow> (\<exists>name. cookie_name cookie = Some name \<and> (name = COOKIE_NAME \<or> is_chunk name))"

definition cookie_value :: "string \<Rightarrow> string" where
  "cookie_value cookie = drop 1 (dropWhile (\<lambda>x. x \<noteq> CHR ''='') cookie)"

lemma is_chunk_longer: "is_chunk name \<Longrightarrow> name \<noteq> COOKIE_NAME"
  by (auto simp: is_chunk_def strip_prefix_def prefix_def split: if_splits)

lemma split_once_value: "split_once c s = Some (n, v) \<Longrightarrow> v = drop 1 (dropWhile (\<lambda>x. x \<noteq> c) s)"
  by (auto simp: split_once_def split: list.splits)

lemma scan_cookie_alt:
  "scan_cookie (f, n) cookie =
     (if in_family cookie
      then (if cookie_name cookie = Some COOKIE_NAME then Some (cookie_value cookie) else f, n + 1)
      else (f, n))"
  using split_once_value [of "CHR ''=''" cookie]
  by (auto simp: scan_cookie_def in_family_def cookie_name_def cookie_value_def Let_def split: option.split)

lemma foldl_scan:
  "snd (foldl scan_cookie (f, n) cs) = n + length (filter in_family cs)"
  "length (filter in_family cs) = 1 \<Longrightarrow> fst (foldl scan_cookie (f, n) cs) =
     (let c = hd (filter in_family cs) in if cookie_name c = Some COOKIE_NAME then Some (cookie_value c) else f)"
  "filter in_family cs = [] \<Longrightarrow> fst (foldl scan_cookie (f, n) cs) = f"
proof -
  show "snd (foldl scan_cookie (f, n) cs) = n + length (filter in_family cs)"
    by (induction cs arbitrary: f n) (simp_all add: scan_cookie_alt)
  show empty: "filter in_family cs = [] \<Longrightarrow> fst (foldl scan_cookie (f, n) cs) = f" for cs f n
    by (induction cs arbitrary: n) (simp_all add: scan_cookie_alt split: if_splits)
  show "length (filter in_family cs) = 1 \<Longrightarrow> fst (foldl scan_cookie (f, n) cs) =
     (let c = hd (filter in_family cs) in if cookie_name c = Some COOKIE_NAME then Some (cookie_value c) else f)"
    by (induction cs arbitrary: n) (auto simp: scan_cookie_alt empty split: if_splits)
qed

lemma session_cookie_family:
  "session_cookie h =
     (case filter in_family (split_on CHR '';'' (case h of None \<Rightarrow> '''' | Some s \<Rightarrow> s)) of
        [] \<Rightarrow> Inr None
      | [c] \<Rightarrow> Inr (if cookie_name c = Some COOKIE_NAME then Some (cookie_value c) else None)
      | _ \<Rightarrow> Inl Ambiguous)"
proof -
  let ?cs = "split_on CHR '';'' (case h of None \<Rightarrow> '''' | Some s \<Rightarrow> s)"
  note f = foldl_scan [where f = None and n = 0 and cs = ?cs]
  show ?thesis
    unfolding session_cookie_def case_prod_beta Let_def f(1)
    using f(2,3) by (cases "filter in_family ?cs"; cases "tl (filter in_family ?cs)") (simp_all add: Let_def)
qed

section \<open>Properties\<close>

text \<open>C13: every cache hit has an honest origin: in any run from an empty cache, a hit is the very value an
  insert put in for that key less than the TTL ago, and since that insert the subscription never
  lapsed and there was no drop of the subject, no flush and no newer insert for the key.\<close>

theorem hit_has_origin:
  assumes "get now k (run_ops hash ops (new_cache a)) = Some v"
  shows "\<exists>pre t sub post. ops = pre @ Insert t k sub v # post \<and> now - t < TTL
    \<and> subscribed (run_ops hash pre (new_cache a)) \<and> Set_subscribed False \<notin> set post
    \<and> Drop_sub sub \<notin> set post \<and> Flush_all \<notin> set post \<and> (\<forall>t' s w. Insert t' k s w \<notin> set post)"
proof -
  obtain e where e: "subscribed (run_ops hash ops (new_cache a))"
    "lookup (run_ops hash ops (new_cache a)) k = Some e" "now - inserted e < TTL" "v = entry_cached e"
    using assms by (auto simp: get_Some)
  obtain pre post where "ops = pre @ Insert (inserted e) k (entry_sub e) (entry_cached e) # post"
    "undisturbed k (entry_sub e) post" "subscribed (run_ops hash pre (new_cache a))"
    "Set_subscribed False \<notin> set post"
    using entry_came_from [OF e(2)] e(1) unfolding came_from_def by blast
  with e(3,4) show ?thesis unfolding undisturbed_def by blast
qed

definition sample_identity :: identity where
  "sample_identity = \<lparr>id_sub = ''u1'', id_username = ''ada'', id_email = ''a@x'', id_groups = ''staff''\<rparr>"

definition sample_cached :: cached where
  "sample_cached = \<lparr>cached_identity = sample_identity, cached_rules = example_rules,
     cached_enabled = True, cached_application_id = Some 1\<rparr>"

definition sample_key :: key where
  "sample_key = \<lparr>key_cookie = ''c'', key_slug = ''wiki''\<rparr>"

definition sample_ops :: "cache_op list" where
  "sample_ops = [Set_subscribed True, Insert 5 sample_key ''u1'' sample_cached,
     Count 0 sample_key Allow ''/x'' None None]"

lemma sample_run:
  "get 6 sample_key (run_ops (\<lambda>_. 0) sample_ops (new_cache (audit_channel 4))) = Some sample_cached"
  by (simp add: sample_ops_def run_ops_def new_cache_def set_subscribed_def flush_all_def insert_cached_def
      insert_by_sub_def count_request_def shrink.simps CAPACITY_def TTL_def get_def)

theorem hit_has_origin_witness: "\<exists>t sub. Insert t sample_key sub sample_cached \<in> set sample_ops \<and> 6 - t < TTL"
proof -
  obtain pre t sub post where "sample_ops = pre @ Insert t sample_key sub sample_cached # post" "6 - t < TTL"
    using hit_has_origin [OF sample_run] by blast
  then show ?thesis by (metis in_set_conv_decomp)
qed

text \<open>After a drop no decision of that subject is served: whatever is filled for other subjects
  afterwards, no key gives back an entry the dropped subject owns.\<close>

theorem drop_revokes:
  assumes "cache_ok c" and "\<forall>(now, k, s, v)\<in>set fills. s \<noteq> sub"
  shows "owner k (fold (\<lambda>(now, k, s, v). insert_cached now k s v) fills (drop_sub sub c)) \<noteq> Some sub"
  using decisions.revoked [OF assms, of k] by (simp add: decisions.fills_def)

theorem drop_revokes_witness: "owner sample_key (drop_sub ''u1'' (new_cache (audit_channel 4))) \<noteq> Some ''u1''"
  using drop_revokes [OF cache_ok_new, of "[]" "''u1''" sample_key "audit_channel 4"] by simp

text \<open>The cache's structures never disagree: after any run the keys are distinct, a key is indexed
  under a subject exactly when its entry is that subject's, no subject is kept with no keys, and
  there are at most \<open>CAPACITY\<close> entries.\<close>

theorem index_is_exact:
  "let c = run_ops hash ops (new_cache a) in
     distinct (map fst (entries (inner c)))
     \<and> (k \<in> set (keys_of (inner c) sub) \<longleftrightarrow> (\<exists>e. lookup c k = Some e \<and> entry_sub e = sub))
     \<and> by_sub (inner c) sub \<noteq> Some [] \<and> length (entries (inner c)) \<le> CAPACITY"
  using cache_ok_run [of hash ops a] capacity_run [of hash ops a]
  by (simp add: Let_def cache_ok_def subs_agree_def)

text \<open>C27: no road out of the cache loses a counted request: after any run, the events offered to the
  audit channel and the counters still in the cache add up, in the \<open>i32\<close> arithmetic of the
  counters, to the requests that were counted; and nothing is left in the cache after a final
  flush, so at shutdown everything counted has been offered.\<close>

theorem counted_requests_are_conserved:
  "\<exists>evs. sink (run_ops hash ops (new_cache a)) = fold record_event evs a
    \<and> sum_counts evs + sum_counts (pending_events (run_ops hash ops (new_cache a))) =
        of_nat (counted_hits hash ops (new_cache a))
    \<and> pending_events (flush_all (run_ops hash ops (new_cache a))) = []"
proof -
  have "entries (inner (flush_all c)) = []" for c
  proof -
    have "dom (map_of (entries (inner (flush_all c)))) = {}" using lookup_flush_all [of c] by simp
    then show ?thesis by (simp only: dom_map_of_conv_image_fst image_is_empty set_empty)
  qed
  then show ?thesis
    using conservation [OF cache_ok_new, of hash ops a]
    by (auto simp: new_cache_def pending_events_def sum_counts_def)
qed

text \<open>Two session cookies are no session: the session cookie is found exactly when the header has
  one cookie of the session family and that one is the plain name; two or more of the family, in
  any order and with chunks counted, are ambiguous; so no decoy can stand in for the real one.\<close>

theorem session_cookie_is_unambiguous:
  "session_cookie header =
     (case filter in_family (split_on CHR '';'' (case header of None \<Rightarrow> '''' | Some h \<Rightarrow> h)) of
        [] \<Rightarrow> Inr None
      | [c] \<Rightarrow> Inr (if cookie_name c = Some COOKIE_NAME then Some (cookie_value c) else None)
      | _ \<Rightarrow> Inl Ambiguous)"
  by (rule session_cookie_family)

end
