(* ===== verification/Session.thy ===== *)
theory Session
  imports Cache
begin

text \<open>
  \<open>session.rs\<close>: what the kill switch needs of Redis. The index of a subject's oauth2-proxy session
  keys with each command's failures, the derivation of a session key from the cookie, and the
  subscriber that keeps the cache's \<open>subscribed\<close> flag. The subscriber's loop is a step relation
  interleaved with everything else that touches the cache; its invariant says that hits are served
  only by a cache whose subscription is up.
\<close>

section \<open>The session key\<close>

text \<open>The three base64 engines of the \<open>base64\<close> crate, as decoders.\<close>

record base64 =
  url_safe_no_pad :: "string \<Rightarrow> string option"
  standard_no_pad :: "string \<Rightarrow> string option"
  standard :: "string \<Rightarrow> string option"

definition decode :: "base64 \<Rightarrow> string \<Rightarrow> string option" where
  "decode b val =
     (case url_safe_no_pad b val of
        Some out \<Rightarrow> Some out
      | None \<Rightarrow> (case standard_no_pad b val of
                  Some out \<Rightarrow> Some out
                | None \<Rightarrow> standard b val))"

definition utf8_of :: "string \<Rightarrow> string option" where
  "utf8_of s = (if is_utf8 s then Some s else None)"

definition session_key :: "base64 \<Rightarrow> string \<Rightarrow> string \<Rightarrow> string option" where
  "session_key b cookie_val name =
     (let signed = first_piece CHR ''|'' cookie_val
      in Option.bind (Option.bind (decode b signed) utf8_of) (\<lambda>ticket.
           Option.bind (strip_prefix ''v2.'' ticket) (\<lambda>rest.
             Option.bind (Option.bind (decode b (first_piece CHR ''.'' rest)) utf8_of) (\<lambda>k.
               if prefix (name @ ''-'') k then Some k else None))))"

section \<open>The index in Redis\<close>

text \<open>
  The part of Redis the backend uses: the sets under the index keys, the other keys present
  (oauth2-proxy's sessions), the expiry of a key in seconds, and what was published.
\<close>

record redis =
  sets :: "string \<rightharpoonup> string list"
  present :: "string list"
  expiry :: "string \<rightharpoonup> nat"
  published :: "(string \<times> string) list"

datatype redis_error = Redis_error

definition INDEX_TTL :: nat where
  "INDEX_TTL = 8 * 24 * 60 * 60"

definition INDEX_PREFIX :: string where
  "INDEX_PREFIX = ''openberat:sessions:''"

definition INVALIDATE_CHANNEL :: string where
  "INVALIDATE_CHANNEL = ''openberat:invalidate''"

definition index_key :: "string \<Rightarrow> string" where
  "index_key sub = INDEX_PREFIX @ sub"

definition members :: "string \<Rightarrow> redis \<Rightarrow> string list" where
  "members k r = (case sets r k of None \<Rightarrow> [] | Some ms \<Rightarrow> ms)"

definition redis_del :: "string list \<Rightarrow> redis \<Rightarrow> redis" where
  "redis_del ks r = r\<lparr>sets := (\<lambda>k. if List.member ks k then None else sets r k),
     present := filter (\<lambda>k. \<not> List.member ks k) (present r),
     expiry := (\<lambda>k. if List.member ks k then None else expiry r k)\<rparr>"

text \<open>Each command succeeds or fails as Redis says: \<open>ok\<close> is the answer it gives.\<close>

definition record_session :: "bool \<times> bool \<Rightarrow> string \<Rightarrow> string \<Rightarrow> redis \<Rightarrow> redis \<times> (redis_error + unit)" where
  "record_session ok sub k r =
     (if \<not> fst ok then (r, Inl Redis_error)
      else (let ms = members (index_key sub) r;
                r = r\<lparr>sets := (sets r)(index_key sub \<mapsto> if List.member ms k then ms else ms @ [k])\<rparr>
            in if \<not> snd ok then (r, Inl Redis_error)
               else (r\<lparr>expiry := (expiry r)(index_key sub \<mapsto> INDEX_TTL)\<rparr>, Inr ())))"

definition sessions :: "bool \<Rightarrow> string \<Rightarrow> redis \<Rightarrow> redis_error + string list" where
  "sessions ok sub r = (if ok then Inr (members (index_key sub) r) else Inl Redis_error)"

text \<open>\<open>EXISTS\<close>: how many of the keys named are present.\<close>

definition redis_exists :: "string list \<Rightarrow> redis \<Rightarrow> nat" where
  "redis_exists ks r = length (filter (\<lambda>k. List.member (present r) k \<or> sets r k \<noteq> None) ks)"

definition live_key :: "redis \<Rightarrow> (string \<times> nat) list \<Rightarrow> string \<Rightarrow> (string \<times> nat) list" where
  "live_key r found k =
     (case strip_prefix INDEX_PREFIX k of
        None \<Rightarrow> found
      | Some sub \<Rightarrow>
          (let ms = members k r
           in if ms = [] then found
              else (let alive = redis_exists ms r
                    in if alive > 0 then AList.update sub alive found else found)))"

text \<open>
  The pages are what successive \<open>SCAN\<close> calls return until the cursor is 0 again; \<open>live_sessions\<close> is what
  the loop finds when every command succeeds.
\<close>

definition live_sessions :: "string list list \<Rightarrow> redis \<Rightarrow> (string \<times> nat) list" where
  "live_sessions pages r = foldl (foldl (live_key r)) [] pages"

text \<open>The commands of the loop over one page; the first one that fails ends it.\<close>

datatype live_command = Smembers string | Exists string

fun live_page ::
  "(live_command \<Rightarrow> bool) \<Rightarrow> redis \<Rightarrow> (string \<times> nat) list \<Rightarrow> string list \<Rightarrow> redis_error + (string \<times> nat) list" where
  "live_page ok r found [] = Inr found"
| "live_page ok r found (k # ks) =
     (case strip_prefix INDEX_PREFIX k of
        None \<Rightarrow> live_page ok r found ks
      | Some sub \<Rightarrow>
          if \<not> ok (Smembers k) then Inl Redis_error
          else if members k r = [] then live_page ok r found ks
          else if \<not> ok (Exists k) then Inl Redis_error
          else live_page ok r (live_key r found k) ks)"

text \<open>A \<open>SCAN\<close> that fails is \<open>None\<close>.\<close>

fun live_pages ::
  "(live_command \<Rightarrow> bool) \<Rightarrow> redis \<Rightarrow> (string \<times> nat) list \<Rightarrow> string list option list
     \<Rightarrow> redis_error + (string \<times> nat) list" where
  "live_pages ok r found [] = Inr found"
| "live_pages ok r found (None # pages) = Inl Redis_error"
| "live_pages ok r found (Some ks # pages) =
     (case live_page ok r found ks of
        Inl e \<Rightarrow> Inl e
      | Inr found \<Rightarrow> live_pages ok r found pages)"

definition index_live :: "(live_command \<Rightarrow> bool) \<Rightarrow> string list option list \<Rightarrow> redis \<Rightarrow> redis_error + (string \<times> nat) list" where
  "index_live ok pages r = live_pages ok r [] pages"

definition drop_sessions :: "bool \<Rightarrow> string list \<Rightarrow> redis \<Rightarrow> redis \<times> (redis_error + unit)" where
  "drop_sessions ok ks r =
     (if ks = [] then (r, Inr ())
      else if ok then (redis_del ks r, Inr ()) else (r, Inl Redis_error))"

definition publish_invalidation :: "bool \<Rightarrow> string \<Rightarrow> redis \<Rightarrow> redis \<times> (redis_error + unit)" where
  "publish_invalidation ok sub r =
     (if ok then (r\<lparr>published := published r @ [(INVALIDATE_CHANNEL, sub)]\<rparr>, Inr ()) else (r, Inl Redis_error))"

definition forget :: "bool \<Rightarrow> string \<Rightarrow> redis \<Rightarrow> redis \<times> (redis_error + unit)" where
  "forget ok sub r = (if ok then (redis_del [index_key sub] r, Inr ()) else (r, Inl Redis_error))"

text \<open>\<open>SREM\<close>; Redis removes a set with no members left.\<close>

definition forget_session :: "bool \<Rightarrow> string \<Rightarrow> string \<Rightarrow> redis \<Rightarrow> redis \<times> (redis_error + unit)" where
  "forget_session ok sub k r =
     (if \<not> ok then (r, Inl Redis_error)
      else (let ms = removeAll k (members (index_key sub) r)
            in (r\<lparr>sets := (if ms = [] then (sets r)(index_key sub := None) else (sets r)(index_key sub \<mapsto> ms))\<rparr>,
                Inr ())))"

section \<open>The subscriber\<close>

text \<open>
  The loop of \<open>subscribe_invalidations\<close>: waiting to subscribe, or listening. A failed attempt or
  any way out of the stream clears the flag; a successful subscription sets it. In between, the
  other tasks of the process run any cache operation but setting the flag, which only this loop does.
\<close>

datatype subscriber = Waiting | Listening

inductive sub_step :: "(string \<Rightarrow> 64 word) \<Rightarrow> subscriber \<times> cache \<Rightarrow> subscriber \<times> cache \<Rightarrow> bool" for hash where
  attempt_failed: "sub_step hash (Waiting, c) (Waiting, set_subscribed False c)"
| attempt_succeeded: "sub_step hash (Waiting, c) (Listening, set_subscribed True c)"
| message: "sub_step hash (Listening, c) (Listening, drop_sub sub c)"
| bad_payload: "sub_step hash (Listening, c) (Listening, c)"
| pong: "sub_step hash (Listening, c) (Listening, c)"
| stream_over: "sub_step hash (Listening, c) (Waiting, set_subscribed False c)"
| other_task: "\<forall>b. op \<noteq> Set_subscribed b \<Longrightarrow> sub_step hash (s, c) (s, apply_op hash op c)"

inductive_cases sub_step_WaitingE: "sub_step hash (Waiting, c) s'"
inductive_cases sub_step_ListeningE: "sub_step hash (Listening, c) s'"

definition sub_ok :: "subscriber \<times> cache \<Rightarrow> bool" where
  "sub_ok s \<longleftrightarrow> cache_ok (snd s) \<and> (subscribed (snd s) \<longleftrightarrow> fst s = Listening)"

lemma subscribed_apply_op: "\<forall>b. op \<noteq> Set_subscribed b \<Longrightarrow> subscribed (apply_op hash op c) = subscribed c"
  by (cases op) (auto simp: insert_cached_alt drops_alt)

lemma subscribed_set [simp]: "subscribed (set_subscribed b c) = b"
  by (simp add: set_subscribed_def Let_def)

lemma cache_ok_set: "cache_ok c \<Longrightarrow> cache_ok (set_subscribed b c)"
  using cache_ok_apply [of c "\<lambda>_. 0" "Set_subscribed b"] by simp

lemma cache_ok_drop: "cache_ok c \<Longrightarrow> cache_ok (drop_sub sub c)"
  by (simp add: drops_alt cache_ok_evict_all)

lemma sub_ok_step: "sub_step hash s s' \<Longrightarrow> sub_ok s \<Longrightarrow> sub_ok s'"
  by (induction rule: sub_step.induct)
    (simp_all add: sub_ok_def cache_ok_set cache_ok_drop cache_ok_apply subscribed_apply_op, simp add: drops_alt)

lemma sub_ok_run: "(sub_step hash)\<^sup>*\<^sup>* s s' \<Longrightarrow> sub_ok s \<Longrightarrow> sub_ok s'"
  by (induction rule: rtranclp_induct) (simp_all add: sub_ok_step)

lemma sub_ok_new: "sub_ok (Waiting, new_cache a)"
  by (simp add: sub_ok_def cache_ok_new) (simp add: new_cache_def)

section \<open>Lemmas\<close>

lemma utf8_of_Some: "utf8_of s = Some t \<longleftrightarrow> t = s \<and> is_utf8 s"
  by (auto simp: utf8_of_def)

lemma strip_prefix_Some: "strip_prefix p s = Some r \<longleftrightarrow> s = p @ r"
  by (auto simp: strip_prefix_def prefix_def)

lemma if_Some: "(if P then Some x else None) = Some y \<longleftrightarrow> P \<and> x = y"
  by simp

lemma session_key_Some:
  "session_key b v name = Some k \<longleftrightarrow>
     (\<exists>ticket rest. decode b (first_piece CHR ''|'' v) = Some ticket \<and> is_utf8 ticket
        \<and> ticket = ''v2.'' @ rest \<and> decode b (first_piece CHR ''.'' rest) = Some k
        \<and> is_utf8 k \<and> prefix (name @ ''-'') k)"
  unfolding session_key_def Let_def bind_eq_Some_conv utf8_of_Some strip_prefix_Some if_Some by blast

lemma index_key_inject [simp]: "index_key a = index_key b \<longleftrightarrow> a = b"
  by (simp add: index_key_def)

lemma strip_index_prefix: "strip_prefix INDEX_PREFIX k = Some sub \<longleftrightarrow> k = index_key sub"
  by (auto simp: strip_prefix_def index_key_def prefix_def)

definition alive :: "redis \<Rightarrow> string \<Rightarrow> nat" where
  "alive r sub = redis_exists (members (index_key sub) r) r"

lemma live_key_lookup:
  "map_of (live_key r found k) sub =
     (if k = index_key sub \<and> 0 < alive r sub then Some (alive r sub) else map_of found sub)"
proof (cases "strip_prefix INDEX_PREFIX k")
  case None
  then have "k \<noteq> index_key sub" using strip_index_prefix [of k sub] by auto
  then show ?thesis using None by (simp add: live_key_def)
next
  case (Some s)
  then have "k = index_key s" using strip_index_prefix by blast
  moreover have "redis_exists [] r = 0" by (simp add: redis_exists_def)
  ultimately show ?thesis
    using Some by (auto simp: live_key_def Let_def alive_def update_conv')
qed

lemma foldl_live_key:
  "map_of (foldl (live_key r) found ks) sub =
     (if index_key sub \<in> set ks \<and> 0 < alive r sub then Some (alive r sub) else map_of found sub)"
  by (induction ks arbitrary: found) (auto simp: live_key_lookup)

lemma foldl_concat: "foldl (foldl f) a xss = foldl f a (concat xss)"
  by (induction xss arbitrary: a) simp_all

lemma live_sessions_lookup:
  "map_of (live_sessions pages r) sub =
     (if index_key sub \<in> set (concat pages) \<and> 0 < alive r sub then Some (alive r sub) else None)"
  unfolding live_sessions_def foldl_concat by (simp only: foldl_live_key map_of.simps)

lemma live_page_Inr: "live_page ok r found ks = Inr x \<Longrightarrow> x = foldl (live_key r) found ks"
proof (induction ok r found ks rule: live_page.induct)
  case (2 ok r found k ks)
  then show ?case by (auto simp: live_key_def Let_def split: option.splits if_splits)
qed simp

lemma live_pages_Inr:
  "live_pages ok r found pages = Inr x \<Longrightarrow>
     list_all (\<lambda>p. p \<noteq> None) pages \<and> x = foldl (foldl (live_key r)) found (map the pages)"
  by (induction ok r found pages rule: live_pages.induct) (auto dest: live_page_Inr split: sum.splits)

lemma live_page_ok: "(\<And>c. ok c) \<Longrightarrow> \<exists>x. live_page ok r found ks = Inr x"
  by (induction ks arbitrary: found) (auto split: option.split)

lemma live_pages_ok: "(\<And>c. ok c) \<Longrightarrow> \<exists>x. live_pages ok r found (map Some pages) = Inr x"
  by (induction pages arbitrary: found) (auto dest: live_page_ok split: sum.split, metis live_page_ok sum.distinct(1))

section \<open>Lemmas on the index\<close>

named_theorems redis_simps

text \<open>
  The index lists oauth2-proxy's session keys and nothing else, so deleting what it lists never
  deletes an index entry.
\<close>

definition session_name :: "string \<Rightarrow> bool" where
  "session_name k \<longleftrightarrow> prefix (COOKIE_NAME @ ''-'') k"

definition index_ok :: "redis \<Rightarrow> bool" where
  "index_ok r \<longleftrightarrow> (\<forall>sub. list_all session_name (members (index_key sub) r))"

lemma session_name_not_index: "session_name k \<Longrightarrow> k \<noteq> index_key sub"
  by (auto simp: session_name_def index_key_def INDEX_PREFIX_def COOKIE_NAME_def prefix_def)

lemma session_key_name: "session_key b v COOKIE_NAME = Some k \<Longrightarrow> session_name k"
  by (auto simp: session_key_Some session_name_def)

lemma index_okD: "index_ok r \<Longrightarrow> k \<in> set (members (index_key sub) r) \<Longrightarrow> session_name k"
  by (auto simp: index_ok_def list_all_iff)

lemma members_del [redis_simps]:
  "members k (redis_del ks r) = (if k \<in> set ks then [] else members k r)"
  "present (redis_del ks r) = filter (\<lambda>k. k \<notin> set ks) (present r)"
  "published (redis_del ks r) = published r"
  by (simp_all add: members_def redis_del_def)

lemma drop_sessions_cases:
  assumes "drop_sessions ok ks r = (r', res)"
  obtains (failed) "res = Inl Redis_error" "r' = r" | (dropped) "res = Inr ()" "r' = redis_del ks r"
  using assms that by (auto simp: drop_sessions_def redis_del_def split: if_splits)

lemma drop_sessions_members:
  assumes "drop_sessions ok ks r = (r', res)" "list_all session_name ks"
  shows "members (index_key sub) r' = members (index_key sub) r" "published r' = published r"
    "set (present r') \<subseteq> set (present r)" "res = Inr () \<Longrightarrow> present r' = filter (\<lambda>k. k \<notin> set ks) (present r)"
proof -
  have "index_key sub \<notin> set ks" using assms(2) session_name_not_index by (fastforce simp: list_all_iff)
  then show "members (index_key sub) r' = members (index_key sub) r" "published r' = published r"
    "set (present r') \<subseteq> set (present r)" "res = Inr () \<Longrightarrow> present r' = filter (\<lambda>k. k \<notin> set ks) (present r)"
    using assms(1) by (auto elim!: drop_sessions_cases simp: redis_simps)
qed

lemma publish_frame:
  assumes "publish_invalidation ok sub r = (r', res)"
  shows "sets r' = sets r" "present r' = present r" "members k r' = members k r"
    "published r' = published r @ (if ok then [(INVALIDATE_CHANNEL, sub)] else [])"
    "res = Inr () \<longleftrightarrow> ok"
  using assms by (auto simp: publish_invalidation_def members_def split: if_splits)

lemma forget_frame:
  assumes "forget ok sub r = (r', res)"
  shows "res = Inr () \<longleftrightarrow> ok" "published r' = published r"
    "members (index_key s) r' = (if ok \<and> s = sub then [] else members (index_key s) r)"
    "set (present r') \<subseteq> set (present r)"
    "k \<noteq> index_key sub \<Longrightarrow> k \<in> set (present r) \<Longrightarrow> k \<in> set (present r')"
  using assms by (auto simp: forget_def redis_simps split: if_splits)

lemma forget_session_frame:
  assumes "forget_session ok sub k r = (r', res)"
  shows "res = Inr () \<longleftrightarrow> ok" "published r' = published r" "present r' = present r"
    "members (index_key s) r' =
       (if ok \<and> s = sub then removeAll k (members (index_key s) r) else members (index_key s) r)"
  using assms by (auto simp: forget_session_def members_def Let_def split: if_splits)

lemma record_session_frame:
  assumes "record_session ok sub k r = (r', res)"
  shows "published r' = published r" "present r' = present r"
    "set (members (index_key s) r) \<subseteq> set (members (index_key s) r')"
    "set (members (index_key s) r') \<subseteq> insert k (set (members (index_key s) r))"
    "s \<noteq> sub \<Longrightarrow> members (index_key s) r' = members (index_key s) r"
    "session_name k \<Longrightarrow> index_ok r \<Longrightarrow> index_ok r'"
proof -
  show frame: "published r' = published r" "present r' = present r"
    "set (members (index_key s) r) \<subseteq> set (members (index_key s) r')"
    "set (members (index_key s) r') \<subseteq> insert k (set (members (index_key s) r))"
    "s \<noteq> sub \<Longrightarrow> members (index_key s) r' = members (index_key s) r" for s
    using assms by (auto simp: record_session_def Let_def members_def split: if_splits option.splits)
  show "session_name k \<Longrightarrow> index_ok r \<Longrightarrow> index_ok r'"
    using frame(4) by (fastforce simp: index_ok_def list_all_iff)
qed

lemma session_key_encoded:
  assumes "\<And>x. url_safe_no_pad b (enc x) = Some x"
    and "\<And>x. CHR ''.'' \<notin> set (enc x) \<and> CHR ''|'' \<notin> set (enc x)"
    and "is_utf8 k" "is_utf8 (''v2.'' @ enc k @ ''.'' @ secret)"
  shows "session_key b (enc (''v2.'' @ enc k @ ''.'' @ secret) @ ''|'' @ signature) name =
    (if prefix (name @ ''-'') k then Some k else None)"
proof -
  have "decode b (enc x) = Some x" for x using assms(1) by (simp add: decode_def)
  moreover have "first_piece CHR ''|'' (enc x @ ''|'' @ y) = enc x" for x y
    using assms(2) first_piece_append_sep by fastforce
  moreover have "first_piece CHR ''.'' (enc k @ ''.'' @ secret) = enc k"
    using assms(2) first_piece_append_sep by fastforce
  moreover have "strip_prefix ''v2.'' (''v2.'' @ enc k @ ''.'' @ secret) = Some (enc k @ ''.'' @ secret)"
    using strip_prefix_Some by blast
  ultimately show ?thesis
    unfolding session_key_def Let_def by (simp only: bind.bind_lunit utf8_of_def assms(3,4) if_True)
qed

lemma live_lookup:
  assumes "\<And>sub. members (index_key sub) r \<noteq> [] \<Longrightarrow> index_key sub \<in> set (concat (map the pages))"
    and "index_live ok pages r = Inr found"
  shows "map_of found sub =
    (let n = length (filter (\<lambda>k. k \<in> set (present r) \<or> sets r k \<noteq> None) (members (index_key sub) r))
     in if n = 0 then None else Some n)"
proof -
  have n: "alive r sub = length (filter (\<lambda>k. k \<in> set (present r) \<or> sets r k \<noteq> None) (members (index_key sub) r))"
    by (simp add: alive_def redis_exists_def)
  have found: "found = live_sessions (map the pages) r"
    using live_pages_Inr assms(2) unfolding index_live_def live_sessions_def by blast
  show ?thesis
    unfolding found live_sessions_lookup Let_def n [symmetric] using assms(1) [of sub]
    by (cases "members (index_key sub) r = []") (auto simp: alive_def redis_exists_def)
qed

section \<open>A concrete codec and cookie\<close>

definition percent_codec :: base64 where
  "percent_codec = \<lparr>url_safe_no_pad = (\<lambda>s. case percent_decode s of Inl _ \<Rightarrow> None | Inr t \<Rightarrow> Some t),
     standard_no_pad = (\<lambda>_. None), standard = (\<lambda>_. None)\<rparr>"

lemma percent_codec_decodes: "url_safe_no_pad percent_codec (percent_encode x) = Some x"
  using percent_decode_encode [of x "[]"] by (simp add: percent_codec_def)

lemma hex_char_visible:
  "d < 16 \<Longrightarrow> hex_char d \<notin> set '';.|'' \<and> 32 \<le> byte (hex_char d) \<and> byte (hex_char d) < 127"
proof -
  assume "d < 16"
  then have "byte (hex_char d) \<notin> byte ` set '';.|'' \<and> 32 \<le> byte (hex_char d) \<and> byte (hex_char d) < 127"
    by (auto simp: hex_char_def)
  then show ?thesis by blast
qed

lemma percent_encode_visible:
  "list_all (\<lambda>b. b \<notin> set '';.|'' \<and> 32 \<le> byte b \<and> byte b < 127) (percent_encode x)"
proof -
  have "byte c div 16 < 16" "byte c mod 16 < 16" for c by (simp_all add: less_mult_imp_div_less)
  note h = hex_char_visible [OF this(1)] hex_char_visible [OF this(2)]
  show ?thesis using h by (induction x) (simp_all add: percent_encode_def)
qed

lemma percent_codec_plain: "CHR ''.'' \<notin> set (percent_encode x) \<and> CHR ''|'' \<notin> set (percent_encode x)"
  using percent_encode_visible [of x] by (auto simp: list_all_iff)

lemma sample_ticket_utf8:
  "is_utf8 ''_oauth2_proxy-a1''"
  "is_utf8 (''v2.'' @ percent_encode ''_oauth2_proxy-a1'' @ ''.'' @ ''s'')"
  by (simp add: is_utf8_def, code_simp)

definition sample_signed :: string where
  "sample_signed = percent_encode (''v2.'' @ percent_encode ''_oauth2_proxy-a1'' @ ''.'' @ ''s'') @ ''|'' @ ''sig''"

lemma sample_signed_key: "session_key percent_codec sample_signed COOKIE_NAME = Some ''_oauth2_proxy-a1''"
  using session_key_encoded [of percent_codec percent_encode, OF percent_codec_decodes percent_codec_plain
      sample_ticket_utf8, of "''sig''" COOKIE_NAME]
  by (simp add: COOKIE_NAME_def sample_signed_def)

section \<open>Properties\<close>

text \<open>C40: from a cookie made the way oauth2-proxy makes it, the derivation gives back the Redis key it was
  made from when that key is one of oauth2-proxy's own, and nothing otherwise, so the kill switch
  is never handed a key to delete outside that prefix. The hypotheses are the codec's: decoding
  undoes encoding, and an encoding holds neither of the two separators.\<close>

theorem session_key_roundtrip:
  assumes "\<And>x. url_safe_no_pad b (enc x) = Some x"
    and "\<And>x. CHR ''.'' \<notin> set (enc x) \<and> CHR ''|'' \<notin> set (enc x)"
    and "is_utf8 k" "is_utf8 (''v2.'' @ enc k @ ''.'' @ secret)"
  shows "session_key b (enc (''v2.'' @ enc k @ ''.'' @ secret) @ ''|'' @ signature) name =
    (if prefix (name @ ''-'') k then Some k else None)"
  using assms by (rule session_key_encoded)

theorem session_key_roundtrip_witness:
  "session_key percent_codec (percent_encode (''v2.'' @ percent_encode ''_oauth2_proxy-a1'' @ ''.'' @ ''s'') @ ''|'' @ ''sig'')
     COOKIE_NAME = Some ''_oauth2_proxy-a1''"
  using session_key_roundtrip [of percent_codec percent_encode, OF percent_codec_decodes percent_codec_plain
      sample_ticket_utf8, of "''sig''" COOKIE_NAME]
  by (simp add: COOKIE_NAME_def)

text \<open>The sessions list is exact: when the pages of the scan hold every index key, in any order and
  with repetitions, a subject is listed exactly when at least one of its indexed session keys still
  exists, and with that number - keys that merely expired are not counted. A failed command is an
  error and never a shorter list.\<close>

theorem live_sessions_are_exact:
  assumes "\<And>sub. members (index_key sub) r \<noteq> [] \<Longrightarrow> index_key sub \<in> set (concat (map the pages))"
    and "index_live ok pages r = Inr found"
  shows "map_of found sub =
    (let n = length (filter (\<lambda>k. k \<in> set (present r) \<or> sets r k \<noteq> None) (members (index_key sub) r))
     in if n = 0 then None else Some n)"
  using assms by (rule live_lookup)

definition sample_redis :: redis where
  "sample_redis = \<lparr>sets = [index_key ''u1'' \<mapsto> [''s1'', ''s2'']], present = [''s2''], expiry = Map.empty, published = []\<rparr>"

theorem live_sessions_are_exact_witness:
  "\<exists>found. index_live (\<lambda>_. True) [Some [index_key ''u1'', ''x''], Some [index_key ''u1'']] sample_redis = Inr found
     \<and> map_of found ''u1'' = Some 1"
proof -
  have cover: "index_key sub \<in> set (concat (map the [Some [index_key ''u1'', ''x''], Some [index_key ''u1'']]))"
    if "members (index_key sub) sample_redis \<noteq> []" for sub
    using that by (auto simp: members_def sample_redis_def split: if_splits)
  obtain found where found: "index_live (\<lambda>_. True) [Some [index_key ''u1'', ''x''], Some [index_key ''u1'']] sample_redis = Inr found"
    using live_pages_ok [of "\<lambda>_. True" sample_redis "[]" "[[index_key ''u1'', ''x''], [index_key ''u1'']]"]
    by (auto simp: index_live_def)
  have "index_key ''u1'' \<noteq> ''s1''" by (simp add: index_key_def INDEX_PREFIX_def)
  then have "map_of found ''u1'' = Some 1"
    using live_sessions_are_exact [OF cover found, of "''u1''"]
    by (simp add: members_def sample_redis_def)
  then show ?thesis using found by blast
qed

text \<open>A cache whose subscription is down answers nothing: in every state the subscriber's loop and
  the other tasks can reach, in any interleaving, a hit means the loop is listening, the cache's
  structures agree, and delivering a subject's message ends every entry that subject owns.\<close>

theorem no_hits_without_subscription:
  assumes "(sub_step hash)\<^sup>*\<^sup>* (Waiting, new_cache a) (s, c)"
  shows "(get now k c \<noteq> None \<longrightarrow> s = Listening) \<and> cache_ok c \<and> owner k (drop_sub sub c) \<noteq> Some sub"
proof -
  have ok: "sub_ok (s, c)" using sub_ok_run [OF assms sub_ok_new] .
  then have "cache_ok c" by (simp add: sub_ok_def)
  then have "owner k (drop_sub sub c) \<noteq> Some sub" using decisions.owner_drop by blast
  then show ?thesis using ok by (auto simp: sub_ok_def get_Some)
qed

theorem no_hits_without_subscription_witness:
  "get 0 sample_key (set_subscribed False (new_cache (audit_channel 4))) = None"
proof -
  have "(sub_step (\<lambda>_. 0))\<^sup>*\<^sup>* (Waiting, new_cache (audit_channel 4)) (Waiting, set_subscribed False (new_cache (audit_channel 4)))"
    by (intro r_into_rtranclp sub_step.attempt_failed)
  from no_hits_without_subscription [OF this, of 0 sample_key] show ?thesis by fastforce
qed

end
