(* ===== verification/Metrics.thy ===== *)
theory Metrics
  imports Cache
begin

text \<open>
  \<open>metrics.rs\<close>: the process-wide counters, as a record passed along, and the exposition on
  \<open>/metrics\<close>. The counters are 64-bit and wrap. The lemmas say that every outcome lands in exactly
  one counter and that the printed histogram is the cumulative one Prometheus expects.
\<close>

section \<open>The counters\<close>

record metrics =
  allowed :: "64 word"
  unauthenticated_count :: "64 word"
  denied_counts :: "64 word list"
  hits :: "64 word"
  misses :: "64 word"
  latency :: "64 word list"
  latency_micros :: "64 word"

definition BUCKETS :: "nat list" where
  "BUCKETS = [250, 500, 1000, 2000, 5000, 10000, 50000, 250000]"

definition EDGES :: "string list" where
  "EDGES = [''0.00025'', ''0.0005'', ''0.001'', ''0.002'', ''0.005'', ''0.01'', ''0.05'', ''0.25'']"

definition new_metrics :: metrics where
  "new_metrics = \<lparr>allowed = 0, unauthenticated_count = 0, denied_counts = replicate (length deny_all) 0,
     hits = 0, misses = 0, latency = replicate (length BUCKETS + 1) 0, latency_micros = 0\<rparr>"

definition outcome :: "decision \<Rightarrow> metrics \<Rightarrow> metrics" where
  "outcome d m =
     (case d of
        Allow \<Rightarrow> m\<lparr>allowed := allowed m + 1\<rparr>
      | Deny reason \<Rightarrow>
          (let i = deny_index reason
           in if i < length (denied_counts m)
              then m\<lparr>denied_counts := (denied_counts m)[i := denied_counts m ! i + 1]\<rparr>
              else m))"

definition unauthenticated :: "metrics \<Rightarrow> metrics" where
  "unauthenticated m = m\<lparr>unauthenticated_count := unauthenticated_count m + 1\<rparr>"

definition cache_lookup :: "bool \<Rightarrow> metrics \<Rightarrow> metrics" where
  "cache_lookup hit m = (if hit then m\<lparr>hits := hits m + 1\<rparr> else m\<lparr>misses := misses m + 1\<rparr>)"

text \<open>\<open>Iterator::position\<close>.\<close>

fun position :: "('a \<Rightarrow> bool) \<Rightarrow> 'a list \<Rightarrow> nat option" where
  "position P [] = None"
| "position P (x # xs) = (if P x then Some 0 else map_option Suc (position P xs))"

text \<open>\<open>elapsed\<close> is \<open>as_micros()\<close>, a 128-bit number cast to 64 bits.\<close>

definition observe :: "nat \<Rightarrow> metrics \<Rightarrow> metrics" where
  "observe elapsed m =
     (let micros = elapsed mod 2 ^ 64;
          bucket = (case position (\<lambda>edge. micros \<le> edge) BUCKETS of None \<Rightarrow> length BUCKETS | Some i \<Rightarrow> i)
      in m\<lparr>latency_micros := latency_micros m + of_nat micros,
           latency := (latency m)[bucket := latency m ! bucket + 1]\<rparr>)"

section \<open>The exposition\<close>

definition quoted :: "string \<Rightarrow> string" where
  "quoted s = [CHR 0x22] @ s @ [CHR 0x22]"

definition show_word :: "64 word \<Rightarrow> string" where
  "show_word w = decimal (unat w)"

definition decision_line :: "string \<Rightarrow> string \<Rightarrow> 64 word \<Rightarrow> string" where
  "decision_line d reason n =
     ''openberat_decision_total{decision='' @ quoted d @ '',reason='' @ quoted reason @ ''} '' @ show_word n"

text \<open>The loop over the edges: each line prints the running sum \<open>below\<close>.\<close>

fun bucket_lines :: "64 word \<Rightarrow> (string \<times> 64 word) list \<Rightarrow> string list \<times> 64 word" where
  "bucket_lines below [] = ([], below)"
| "bucket_lines below ((edge, n) # rest) =
     (let below = below + n; (ls, total_below) = bucket_lines below rest
      in ((''openberat_decision_duration_seconds_bucket{le='' @ quoted edge @ ''} '' @ show_word below) # ls,
          total_below))"

definition render :: "string \<Rightarrow> 64 word \<Rightarrow> metrics \<Rightarrow> string" where
  "render version audit_dropped m = out_lines
     ([''# HELP openberat_build_info The running version.'',
       ''# TYPE openberat_build_info gauge'',
       ''openberat_build_info{version='' @ quoted version @ ''} 1'',
       ''# HELP openberat_decision_total Authorisation decisions, by outcome and reason.'',
       ''# TYPE openberat_decision_total counter'',
       decision_line ''allow'' ''allowed'' (allowed m),
       decision_line ''unauthenticated'' ''no_session'' (unauthenticated_count m)]
      @ map (\<lambda>reason. decision_line ''deny'' (deny_str reason) (denied_counts m ! deny_index reason)) deny_all
      @ [''# HELP openberat_decision_cache_total Decision cache lookups.'',
         ''# TYPE openberat_decision_cache_total counter'',
         ''openberat_decision_cache_total{result='' @ quoted ''hit'' @ ''} '' @ show_word (hits m),
         ''openberat_decision_cache_total{result='' @ quoted ''miss'' @ ''} '' @ show_word (misses m),
         ''# HELP openberat_decision_duration_seconds Time spent answering /decide.'',
         ''# TYPE openberat_decision_duration_seconds histogram'']
      @ (let (ls, below) = bucket_lines 0 (zip EDGES (latency m));
             below = below + latency m ! length BUCKETS;
             micros = unat (latency_micros m)
         in ls @
           [''openberat_decision_duration_seconds_bucket{le='' @ quoted ''+Inf'' @ ''} '' @ show_word below,
            ''openberat_decision_duration_seconds_sum '' @ decimal (micros div 1000000) @ ''.''
              @ zero_pad 6 (decimal (micros mod 1000000)),
            ''openberat_decision_duration_seconds_count '' @ show_word below])
      @ [''# HELP openberat_audit_dropped_total Audit summaries that never reached Postgres.'',
         ''# TYPE openberat_audit_dropped_total counter'',
         ''openberat_audit_dropped_total '' @ show_word audit_dropped])"

section \<open>Lemmas\<close>

lemma deny_index_less: "deny_index r < 8"
  by (cases r) simp_all

lemma deny_index_inject: "deny_index r = deny_index s \<longleftrightarrow> r = s"
  by (cases r; cases s) simp_all

lemma deny_all_index: "r \<in> set deny_all" "deny_all ! deny_index r = r" "length deny_all = 8"
  by (cases r; simp add: deny_all_def)+

definition metrics_ok :: "metrics \<Rightarrow> bool" where
  "metrics_ok m \<longleftrightarrow> length (denied_counts m) = 8 \<and> length (latency m) = 9"

lemma metrics_ok_new: "metrics_ok new_metrics"
  by (simp add: metrics_ok_def new_metrics_def BUCKETS_def deny_all_def)

lemma outcome_simps:
  "outcome Allow m = m\<lparr>allowed := allowed m + 1\<rparr>"
  "metrics_ok m \<Longrightarrow> outcome (Deny r) m =
     m\<lparr>denied_counts := (denied_counts m)[deny_index r := denied_counts m ! deny_index r + 1]\<rparr>"
  using deny_index_less by (simp_all add: outcome_def metrics_ok_def Let_def)

lemma metrics_ok_outcome: "metrics_ok m \<Longrightarrow> metrics_ok (outcome d m)"
  by (cases d) (simp_all add: outcome_simps, simp_all add: metrics_ok_def)

lemma outcome_counts:
  "metrics_ok m \<Longrightarrow> denied_counts (fold outcome ds m) ! deny_index r =
     denied_counts m ! deny_index r + of_nat (count_list ds (Deny r)) \<and>
   allowed (fold outcome ds m) = allowed m + of_nat (count_list ds Allow) \<and> metrics_ok (fold outcome ds m)"
proof (induction ds arbitrary: m)
  case (Cons d ds)
  have "denied_counts (outcome d m) ! deny_index r = denied_counts m ! deny_index r + (if d = Deny r then 1 else 0)"
    "allowed (outcome d m) = allowed m + (if d = Allow then 1 else 0)"
    using Cons.prems deny_index_less [of r] deny_index_inject
    by (cases d; simp add: outcome_simps metrics_ok_def nth_list_update)+
  then show ?case using Cons.IH [OF metrics_ok_outcome [OF Cons.prems]] by simp
qed simp

fun prefix_sums :: "64 word \<Rightarrow> 64 word list \<Rightarrow> 64 word list" where
  "prefix_sums below [] = []"
| "prefix_sums below (x # xs) = (below + x) # prefix_sums (below + x) xs"

lemma bucket_lines_sums:
  "length edges = length counts \<Longrightarrow>
   bucket_lines below (zip edges counts) =
     (map2 (\<lambda>edge n. ''openberat_decision_duration_seconds_bucket{le='' @ quoted edge @ ''} '' @ show_word n)
        edges (prefix_sums below counts), below + sum_list counts)"
  by (induction edges counts arbitrary: below rule: list_induct2) (simp_all add: Let_def ac_simps)

text \<open>What the nine bucket lines print.\<close>

definition cumulative :: "metrics \<Rightarrow> 64 word list" where
  "cumulative m = prefix_sums 0 (latency m)"

lemma observe_cumulative:
  assumes "metrics_ok m"
  shows "cumulative (observe n m) =
    map2 (\<lambda>s edge. s + (if n mod 2 ^ 64 \<le> edge then 1 else 0)) (butlast (cumulative m)) BUCKETS
      @ [last (cumulative m) + 1] \<and> metrics_ok (observe n m)"
proof -
  obtain a b c d e f g h i where l: "latency m = [a, b, c, d, e, f, g, h, i]"
    using assms by (auto simp: metrics_ok_def length_Suc_conv numeral_eq_Suc)
  have "latency (observe n m) = (latency m)[(case position (\<lambda>edge. n mod 2 ^ 64 \<le> edge) BUCKETS of None \<Rightarrow> length BUCKETS | Some i \<Rightarrow> i) :=
      latency m ! (case position (\<lambda>edge. n mod 2 ^ 64 \<le> edge) BUCKETS of None \<Rightarrow> length BUCKETS | Some i \<Rightarrow> i) + 1]"
    by (simp add: observe_def Let_def)
  then show ?thesis
    using assms by (auto simp: cumulative_def l BUCKETS_def metrics_ok_def observe_def Let_def ac_simps)
qed

lemma cumulative_length: "metrics_ok m \<Longrightarrow> length (cumulative m) = 9"
proof -
  have "length (prefix_sums b xs) = length xs" for b xs by (induction xs arbitrary: b) simp_all
  then show "metrics_ok m \<Longrightarrow> length (cumulative m) = 9" by (simp add: cumulative_def metrics_ok_def)
qed

lemma observe_all:
  "metrics_ok m \<Longrightarrow>
   cumulative (fold observe ns m) =
     map2 (\<lambda>s edge. s + of_nat (length (filter (\<lambda>n. n mod 2 ^ 64 \<le> edge) ns))) (butlast (cumulative m)) BUCKETS
       @ [last (cumulative m) + of_nat (length ns)] \<and> metrics_ok (fold observe ns m)"
proof (induction ns arbitrary: m)
  case Nil
  have "map2 (\<lambda>s edge. s) xs ys = xs" if "length xs = length ys" for xs :: "64 word list" and ys :: "nat list"
    using that by (induction xs ys rule: list_induct2) simp_all
  moreover have "length (butlast (cumulative m)) = length BUCKETS" "cumulative m \<noteq> []"
    using cumulative_length [OF Nil] by (auto simp: BUCKETS_def)
  ultimately show ?case using Nil by simp
next
  case (Cons n ns)
  let ?m = "observe n m"
  have one: "cumulative ?m = map2 (\<lambda>s edge. s + (if n mod 2 ^ 64 \<le> edge then 1 else 0)) (butlast (cumulative m)) BUCKETS
      @ [last (cumulative m) + 1]" "metrics_ok ?m"
    using observe_cumulative [OF Cons.prems] by blast+
  have two: "map2 g (map2 f xs ys) ys = map2 (\<lambda>x y. g (f x y) y) xs ys"
    for f g and xs :: "64 word list" and ys :: "nat list"
    by (induction xs ys rule: list_induct2') simp_all
  have step: "(\<lambda>s edge. s + (if n mod 2 ^ 64 \<le> edge then 1 else 0)
        + (of_nat (length (filter (\<lambda>n. n mod 2 ^ 64 \<le> edge) ns)) :: 64 word)) =
      (\<lambda>s edge. s + of_nat (length (filter (\<lambda>n. n mod 2 ^ 64 \<le> edge) (n # ns))))"
    by (auto simp: fun_eq_iff)
  show ?case
    using Cons.IH [OF one(2)] unfolding one(1) butlast_snoc last_snoc two step fold_simps
    by (simp add: algebra_simps)
qed

section \<open>Properties\<close>

text \<open>The histogram is what Prometheus reads: after any observations from a fresh start, the number
  on each bucket line is the number of answers that took at most its edge, and the last line and
  the count are all of them, in 64-bit arithmetic.\<close>

theorem histogram_is_cumulative:
  "cumulative (fold observe ns new_metrics) =
     map (\<lambda>edge. of_nat (length (filter (\<lambda>n. n mod 2 ^ 64 \<le> edge) ns))) BUCKETS @ [of_nat (length ns)]
   \<and> fst (bucket_lines 0 (zip EDGES (butlast (latency (fold observe ns new_metrics))))) =
     map2 (\<lambda>edge n. ''openberat_decision_duration_seconds_bucket{le='' @ quoted edge @ ''} '' @ show_word n)
       EDGES (butlast (cumulative (fold observe ns new_metrics)))"
proof
  have "latency new_metrics = [0, 0, 0, 0, 0, 0, 0, 0, 0]" by (simp add: new_metrics_def BUCKETS_def)
  then have start: "butlast (cumulative new_metrics) = [0, 0, 0, 0, 0, 0, 0, 0]" "last (cumulative new_metrics) = 0"
    by (simp_all add: cumulative_def)
  show "cumulative (fold observe ns new_metrics) =
     map (\<lambda>edge. of_nat (length (filter (\<lambda>n. n mod 2 ^ 64 \<le> edge) ns))) BUCKETS @ [of_nat (length ns)]"
    using observe_all [OF metrics_ok_new, of ns] unfolding start by (simp add: BUCKETS_def)
next
  have "metrics_ok (fold observe ns new_metrics)" using observe_all [OF metrics_ok_new] by blast
  then have "length EDGES = length (butlast (latency (fold observe ns new_metrics)))"
    by (simp add: metrics_ok_def EDGES_def)
  moreover have "butlast (prefix_sums b xs) = prefix_sums b (butlast xs)" for b xs
  proof (induction xs arbitrary: b)
    case (Cons x xs)
    then show ?case by (cases xs) simp_all
  qed simp
  ultimately show "fst (bucket_lines 0 (zip EDGES (butlast (latency (fold observe ns new_metrics))))) =
     map2 (\<lambda>edge n. ''openberat_decision_duration_seconds_bucket{le='' @ quoted edge @ ''} '' @ show_word n)
       EDGES (butlast (cumulative (fold observe ns new_metrics)))"
    by (simp add: bucket_lines_sums cumulative_def)
qed

text \<open>No outcome goes uncounted: after any decisions from a fresh start each refusal reason's counter
  is the number of refusals with that reason and the allow counter the number of allows.\<close>

theorem every_outcome_is_counted:
  "denied_counts (fold outcome ds new_metrics) ! deny_index r = of_nat (count_list ds (Deny r)) \<and>
   allowed (fold outcome ds new_metrics) = of_nat (count_list ds Allow)"
  using outcome_counts [OF metrics_ok_new, of ds r] deny_index_less [of r]
  by (simp add: new_metrics_def deny_all_index)

end
