(* ===== verification/Decide.thy ===== *)
theory Decide
  imports Session Metrics
begin

text \<open>
  \<open>decide.rs\<close>: the handler behind every auth_request subrequest. The state it shares with the rest of
  the process is the decision cache, the counters and Redis; what the world answers - oauth2-proxy,
  the database, Redis, the clocks, the cache operations other tasks slip in at each await - is an
  argument. The properties: the answer is 200, 401 or 403 and nothing else; a 200 rests on a live
  cache entry or on a verified user whose session was indexed first; every answer is counted in
  exactly one outcome, and every decision in exactly one audit counter.
\<close>

section \<open>Requests and responses\<close>

text \<open>A header map as the list of its headers; names are in lower case, \<open>get\<close> is the first value.\<close>

type_synonym headers = "(string \<times> header_value) list"

definition header_text :: "headers \<Rightarrow> string \<Rightarrow> string option" where
  "header_text hs name = Option.bind (map_of hs name) to_str"

definition get_all :: "headers \<Rightarrow> string \<Rightarrow> header_value list" where
  "get_all hs name = map snd (filter (\<lambda>h. fst h = name) hs)"

record response =
  status :: nat
  response_headers :: headers

text \<open>\<open>HeaderMap::insert\<close> replaces, \<open>append\<close> adds.\<close>

definition insert_header :: "string \<Rightarrow> header_value \<Rightarrow> response \<Rightarrow> response" where
  "insert_header name v r =
     r\<lparr>response_headers := filter (\<lambda>h. fst h \<noteq> name) (response_headers r) @ [(name, v)]\<rparr>"

definition append_header :: "string \<Rightarrow> header_value \<Rightarrow> response \<Rightarrow> response" where
  "append_header name v r = r\<lparr>response_headers := response_headers r @ [(name, v)]\<rparr>"

record subrequest =
  req_key :: "key option"
  req_slug :: string
  req_uri :: string
  req_audit_path :: string
  req_src_ip :: "ip_addr option"
  req_request_id :: "string option"

definition AUDIT_PATH_LIMIT :: nat where
  "AUDIT_PATH_LIMIT = 512"

text \<open>The library functions the handler uses: SHA-256, the path hash, base64, \<open>IpAddr::from_str\<close>.\<close>

record libs =
  lib_digest :: "string \<Rightarrow> string"
  lib_hash :: "string \<Rightarrow> 64 word"
  lib_base64 :: base64
  lib_parse_ip :: "string \<Rightarrow> ip_addr option"

datatype proxy_reply = No_answer | Answered nat headers

datatype db_reply = Db_timeout | Db_error | Db_rows "application list" "entitlement list"

text \<open>
  What happens to one request: the clocks it reads, the cache operations other tasks run while it
  waits for the fill lock, while it fills, and before it counts, and what each dependency answers.
\<close>

record env =
  now_first_get :: nat
  now_second_get :: nat
  now_insert :: nat
  now_decide :: time
  now_count :: time
  elapsed :: nat
  others_waiting :: "cache_op list"
  others_filling :: "cache_op list"
  others_counting :: "cache_op list"
  proxy :: "header_value option \<Rightarrow> proxy_reply"
  redis_ok :: "bool \<times> bool"
  database :: db_reply

record state =
  st_cache :: cache
  st_metrics :: metrics
  st_redis :: redis

section \<open>The pieces of the handler\<close>

definition refuse :: "deny \<Rightarrow> state \<Rightarrow> state \<times> response" where
  "refuse reason st =
     (st\<lparr>st_metrics := outcome (Deny reason) (st_metrics st)\<rparr>,
      insert_header ''x-deny-reason'' (deny_str reason) \<lparr>status = 403, response_headers = []\<rparr>)"

definition identify :: "identity \<Rightarrow> response \<Rightarrow> response" where
  "identify i r =
     insert_header ''x-auth-groups'' (id_groups i)
       (insert_header ''x-auth-email'' (id_email i)
         (insert_header ''x-auth-username'' (id_username i)
           (insert_header ''x-auth-subject'' (id_sub i) r)))"

datatype authentication = Verified identity "header_value list" | Anonymous | Unavailable

definition authenticate :: "env \<Rightarrow> header_value option \<Rightarrow> authentication" where
  "authenticate e cookie =
     (case proxy e cookie of
        No_answer \<Rightarrow> Unavailable
      | Answered code hs \<Rightarrow>
          if code = 401 then Anonymous
          else if \<not> (200 \<le> code \<and> code < 300) then Unavailable
          else
            (let value_of = (\<lambda>name. case map_of hs name of None \<Rightarrow> '''' | Some v \<Rightarrow> v)
             in case map_of hs ''x-auth-request-user'' of
                  None \<Rightarrow> Unavailable
                | Some sub \<Rightarrow>
                    if sub = '''' then Unavailable
                    else Verified
                      \<lparr>id_sub = sub, id_username = value_of ''x-auth-request-preferred-username'',
                       id_email = value_of ''x-auth-request-email'',
                       id_groups = value_of ''x-auth-request-groups''\<rparr>
                      (get_all hs ''set-cookie'')))"

definition text_or_default :: "header_value \<Rightarrow> string" where
  "text_or_default v = (case to_str v of None \<Rightarrow> '''' | Some s \<Rightarrow> s)"

definition groups_of :: "identity \<Rightarrow> string list" where
  "groups_of i = filter (\<lambda>g. g \<noteq> '''') (split_on CHR '','' (text_or_default (id_groups i)))"

definition load :: "env \<Rightarrow> subrequest \<Rightarrow> identity \<Rightarrow> deny + cached" where
  "load e request i =
     (case database e of
        Db_timeout \<Rightarrow> Inl StoreUnavailable
      | Db_error \<Rightarrow> Inl StoreUnavailable
      | Db_rows applications entitlements \<Rightarrow>
          Inr (case rules_for applications entitlements (req_slug request)
                      (text_or_default (id_sub i)) (groups_of i) of
                 Some app \<Rightarrow> \<lparr>cached_identity = i, cached_rules = rules_of app,
                   cached_enabled = rules_enabled app, cached_application_id = Some (rules_app_id app)\<rparr>
               | None \<Rightarrow> \<lparr>cached_identity = i, cached_rules = [], cached_enabled = False,
                   cached_application_id = None\<rparr>))"

text \<open>The audit row of a decision that no live entry could count.\<close>

definition own_row :: "env \<Rightarrow> subrequest \<Rightarrow> cached \<Rightarrow> decision \<Rightarrow> audit_event" where
  "own_row e request v decision =
     \<lparr>ev_application_id = cached_application_id v, ev_application_slug = req_slug request,
      ev_actor_sub = text_or_default (id_sub (cached_identity v)),
      ev_actor_name = header_string (id_username (cached_identity v)),
      ev_decision = decision, ev_count = 1, ev_first_seen = now_count e, ev_last_seen = now_count e,
      ev_distinct_path = 1, ev_first_path = req_audit_path request, ev_src_ip = req_src_ip request,
      ev_request_id = req_request_id request\<rparr>"

definition answer :: "libs \<Rightarrow> env \<Rightarrow> subrequest \<Rightarrow> cached \<Rightarrow> state \<Rightarrow> state \<times> response" where
  "answer L e request v st =
     (let decision = decide (cached_enabled v) (cached_rules v) (req_uri request) (now_decide e);
          c = run_ops (lib_hash L) (others_counting e) (st_cache st);
          (counted, c) =
            (case req_key request of
               Some k \<Rightarrow> count_request (now_count e) (lib_hash L) k decision (req_audit_path request)
                           (req_src_ip request) (req_request_id request) c
             | None \<Rightarrow> (False, c));
          c = (if counted then c else c\<lparr>sink := record_event (own_row e request v decision) (sink c)\<rparr>);
          st = st\<lparr>st_cache := c\<rparr>;
          (st, r) =
            (case decision of
               Allow \<Rightarrow> (st\<lparr>st_metrics := outcome Allow (st_metrics st)\<rparr>, \<lparr>status = 200, response_headers = []\<rparr>)
             | Deny reason \<Rightarrow> refuse reason st)
      in (st, identify (cached_identity v) r))"

text \<open>The miss: authenticate, index the session, load the rules, cache, answer, relay the cookies.\<close>

definition fill_and_answer ::
  "libs \<Rightarrow> env \<Rightarrow> header_value option \<Rightarrow> subrequest \<Rightarrow> state \<Rightarrow> state \<times> response" where
  "fill_and_answer L e cookie request st =
     (case authenticate e cookie of
        Anonymous \<Rightarrow>
          (st\<lparr>st_metrics := unauthenticated (st_metrics st)\<rparr>, \<lparr>status = 401, response_headers = []\<rparr>)
      | Unavailable \<Rightarrow> refuse AuthUnavailable st
      | Verified i set_cookie \<Rightarrow>
          (let sub = text_or_default (id_sub i)
           in case Option.bind (case session_cookie (Option.bind cookie to_str) of Inl _ \<Rightarrow> None | Inr s \<Rightarrow> s)
                     (\<lambda>val. session_key (lib_base64 L) val COOKIE_NAME) of
                None \<Rightarrow> refuse StoreUnavailable st
              | Some session \<Rightarrow>
                  (case record_session (redis_ok e) sub session (st_redis st) of
                     (r, Inl _) \<Rightarrow> refuse StoreUnavailable (st\<lparr>st_redis := r\<rparr>)
                   | (r, Inr _) \<Rightarrow>
                       (let st = st\<lparr>st_redis := r\<rparr>
                        in case load e request i of
                             Inl reason \<Rightarrow> refuse reason st
                           | Inr v \<Rightarrow>
                               (let c = run_ops (lib_hash L) (others_filling e) (st_cache st);
                                    c = (case req_key request of
                                           Some k \<Rightarrow> insert_cached (now_insert e) k sub v c
                                         | None \<Rightarrow> c);
                                    (st, r) = answer L e request v (st\<lparr>st_cache := c\<rparr>)
                                in (st, foldl (\<lambda>r cookie. append_header ''set-cookie'' cookie r) r set_cookie))))))"

definition required_headers :: "string list" where
  "required_headers = [''x-original-method'', ''x-real-ip'', ''x-request-id'']"

definition subrequest_of :: "libs \<Rightarrow> headers \<Rightarrow> string option \<Rightarrow> string \<Rightarrow> string \<Rightarrow> subrequest" where
  "subrequest_of L hs cookie_text wanted uri =
     \<lparr>req_key = new_key (lib_digest L) cookie_text wanted, req_slug = wanted, req_uri = uri,
      req_audit_path = utf8_encode (take AUDIT_PATH_LIMIT (chars_of (first_piece CHR ''?'' uri))),
      req_src_ip = Option.bind (header_text hs ''x-real-ip'') (lib_parse_ip L),
      req_request_id = header_text hs ''x-request-id''\<rparr>"

text \<open>\<open>ctx.cache.get\<close> under the request's key, when it has one.\<close>

definition get_for :: "nat \<Rightarrow> subrequest \<Rightarrow> cache \<Rightarrow> cached option" where
  "get_for now request c = (case req_key request of None \<Rightarrow> None | Some k \<Rightarrow> get now k c)"

definition decided :: "libs \<Rightarrow> env \<Rightarrow> headers \<Rightarrow> state \<Rightarrow> state \<times> response" where
  "decided L e hs st =
     (case (header_text hs ''x-app-slug'', header_text hs ''x-original-uri'') of
        (Some wanted, Some uri) \<Rightarrow>
          if list_ex (\<lambda>name. map_of hs name = None) required_headers then refuse MissingContext st
          else
            (let cookie = map_of hs ''cookie''; cookie_text = Option.bind cookie to_str
             in case session_cookie cookie_text of
                  Inl _ \<Rightarrow> refuse AmbiguousSession st
                | Inr _ \<Rightarrow>
                    (let request = subrequest_of L hs cookie_text wanted uri
                     in case get_for (now_first_get e) request (st_cache st) of
                          Some v \<Rightarrow>
                            answer L e request v (st\<lparr>st_metrics := cache_lookup True (st_metrics st)\<rparr>)
                        | None \<Rightarrow>
                            (let st = st\<lparr>st_cache := run_ops (lib_hash L) (others_waiting e) (st_cache st)\<rparr>
                             in case get_for (now_second_get e) request (st_cache st) of
                                  Some v \<Rightarrow>
                                    answer L e request v (st\<lparr>st_metrics := cache_lookup True (st_metrics st)\<rparr>)
                                | None \<Rightarrow>
                                    fill_and_answer L e cookie request
                                      (if req_key request \<noteq> None
                                       then st\<lparr>st_metrics := cache_lookup False (st_metrics st)\<rparr> else st))))
      | _ \<Rightarrow> refuse MissingContext st)"

text \<open>The handler: the stopwatch around it.\<close>

definition decide_handler :: "libs \<Rightarrow> env \<Rightarrow> headers \<Rightarrow> state \<Rightarrow> state \<times> response" where
  "decide_handler L e hs st =
     (case decided L e hs st of
        (st, r) \<Rightarrow> (st\<lparr>st_metrics := observe (elapsed e) (st_metrics st)\<rparr>, r))"

section \<open>What the pieces return\<close>

definition total_outcomes :: "metrics \<Rightarrow> 64 word" where
  "total_outcomes m = allowed m + unauthenticated_count m + sum_list (denied_counts m)"

lemma sum_list_update_one:
  "i < length xs \<Longrightarrow> sum_list (xs[i := xs ! i + 1]) = sum_list xs + (1 :: 64 word)"
proof (induction xs arbitrary: i)
  case (Cons x xs)
  then show ?case by (cases i) (simp_all add: ac_simps)
qed simp

lemma total_outcome: "metrics_ok m \<Longrightarrow> total_outcomes (outcome d m) = total_outcomes m + 1"
  using deny_index_less
  by (cases d) (simp_all add: total_outcomes_def outcome_simps sum_list_update_one metrics_ok_def)

lemma total_outcomes_frame [frame_simps]:
  "total_outcomes (cache_lookup b m) = total_outcomes m"
  "metrics_ok (cache_lookup b m) = metrics_ok m"
  "total_outcomes (observe n m) = total_outcomes m"
  "total_outcomes (unauthenticated m) = total_outcomes m + 1"
  by (simp_all add: total_outcomes_def cache_lookup_def observe_def unauthenticated_def metrics_ok_def Let_def)

lemma refuse_simps:
  "status (snd (refuse reason st)) = 403"
  "response_headers (snd (refuse reason st)) = [(''x-deny-reason'', deny_str reason)]"
  "st_cache (fst (refuse reason st)) = st_cache st"
  "st_redis (fst (refuse reason st)) = st_redis st"
  "st_metrics (fst (refuse reason st)) = outcome (Deny reason) (st_metrics st)"
  by (simp_all add: refuse_def insert_header_def)

lemma status_header [simp]:
  "status (insert_header n v r) = status r" "status (append_header n v r) = status r"
  by (simp_all add: insert_header_def append_header_def)

lemma status_append_all [simp]:
  "status (foldl (\<lambda>r cookie. append_header n cookie r) r cs) = status r"
  by (induction cs arbitrary: r) simp_all

lemma map_of_append_all:
  "n \<noteq> name \<Longrightarrow> map_of (response_headers (foldl (\<lambda>r cookie. append_header n cookie r) r cs)) name =
     map_of (response_headers r) name"
proof (induction cs arbitrary: r)
  case (Cons c cs)
  then show ?case by (simp add: append_header_def map_add_def split: option.split)
qed simp

lemma map_of_insert_header:
  "map_of (response_headers (insert_header n v r)) name =
     (if name = n then Some v else map_of (response_headers r) name)"
proof (cases "name = n")
  case True
  have "map_of (filter (\<lambda>h. fst h \<noteq> n) (response_headers r)) n = None"
    by (auto simp: map_of_eq_None_iff)
  then show ?thesis using True by (simp add: insert_header_def map_add_def)
next
  case False
  have "map_of (filter (\<lambda>h. fst h \<noteq> n) hs) name = map_of hs name" for hs :: headers
    using False by (induction hs) auto
  then show ?thesis using False by (simp add: insert_header_def map_add_def split: option.split)
qed

definition verdict :: "env \<Rightarrow> subrequest \<Rightarrow> cached \<Rightarrow> decision" where
  "verdict e request v = decide (cached_enabled v) (cached_rules v) (req_uri request) (now_decide e)"

definition count_op :: "env \<Rightarrow> subrequest \<Rightarrow> cached \<Rightarrow> cache_op list" where
  "count_op e request v =
     (case req_key request of
        None \<Rightarrow> []
      | Some k \<Rightarrow> [Count (now_count e) k (verdict e request v) (req_audit_path request) (req_src_ip request)
                    (req_request_id request)])"

lemma answer_status:
  "status (snd (answer L e request v st)) = (if verdict e request v = Allow then 200 else 403)"
  by (cases "verdict e request v")
    (simp_all add: answer_def Let_def verdict_def identify_def refuse_def case_prod_beta)

lemma answer_headers:
  "map_of (response_headers (snd (answer L e request v st))) ''x-auth-subject'' = Some (id_sub (cached_identity v))"
  "map_of (response_headers (snd (answer L e request v st))) ''x-auth-groups'' = Some (id_groups (cached_identity v))"
  by (simp_all add: answer_def Let_def identify_def case_prod_beta map_of_insert_header)

lemma answer_metrics:
  "st_metrics (fst (answer L e request v st)) = outcome (verdict e request v) (st_metrics st)"
  by (cases "verdict e request v")
    (simp_all add: answer_def Let_def verdict_def refuse_def case_prod_beta split: option.split)

lemma answer_redis: "st_redis (fst (answer L e request v st)) = st_redis st"
  by (cases "verdict e request v")
    (simp_all add: answer_def Let_def verdict_def refuse_def case_prod_beta split: option.split)

lemma counted_hits_append:
  "counted_hits hash (as @ bs) c = counted_hits hash as c + counted_hits hash bs (run_ops hash as c)"
  by (induction as arbitrary: c) (simp_all add: run_ops_def)

lemma run_ops_single: "run_ops hash [op] c = apply_op hash op c"
  by (simp add: run_ops_def)

lemma run_ops_append: "run_ops hash (as @ bs) c = run_ops hash bs (run_ops hash as c)"
  by (simp add: run_ops_def)

text \<open>An answer is counted once: in the live entry, or in a row of its own.\<close>

definition audited :: "(string \<Rightarrow> 64 word) \<Rightarrow> cache_op list \<Rightarrow> nat \<Rightarrow> cache \<Rightarrow> cache \<Rightarrow> bool" where
  "audited hash ops n c c' \<longleftrightarrow>
     (\<exists>evs. sink c' = fold record_event evs (sink c) \<and>
        sum_counts evs + sum_counts (pending_events c') =
          sum_counts (pending_events c) + of_nat (counted_hits hash ops c) + of_nat n) \<and> cache_ok c'"

lemma audited_run: "cache_ok c \<Longrightarrow> audited hash ops 0 c (run_ops hash ops c)"
  using conservation [of c hash ops]
  by (auto simp: audited_def run_ops_def intro: fold_invariant [where Q = "\<lambda>_. True" and P = cache_ok] cache_ok_apply)

lemma audited_trans:
  assumes "c' = run_ops hash ops c" "cache_ok c" "audited hash ops' n c' c''"
  shows "audited hash (ops @ ops') n c c''"
proof -
  obtain evs where e: "sink c' = fold record_event evs (sink c)"
    "sum_counts evs + sum_counts (pending_events c') = sum_counts (pending_events c) + of_nat (counted_hits hash ops c)"
    using audited_run [OF assms(2), of hash ops] assms(1) by (auto simp: audited_def)
  obtain evs' where e': "sink c'' = fold record_event evs' (sink c')" "cache_ok c''"
    "sum_counts evs' + sum_counts (pending_events c'') =
      sum_counts (pending_events c') + (of_nat (counted_hits hash ops' c') + of_nat n)"
    using assms(3) by (auto simp: audited_def add.assoc)
  have "sum_counts (evs @ evs') + sum_counts (pending_events c'') =
      sum_counts (pending_events c) + (of_nat (counted_hits hash ops c) + (of_nat (counted_hits hash ops' c') + of_nat n))"
    unfolding sum_counts_append using e(2) e'(3) by (rule sum_chain)
  then show ?thesis
    using e(1) e'(1,2) unfolding audited_def counted_hits_append assms(1) [symmetric]
    by (intro conjI exI [of _ "evs @ evs'"]) (simp_all add: add.assoc)
qed

lemma answer_cache:
  "st_cache (fst (answer L e request v st)) =
     (let c = run_ops (lib_hash L) (others_counting e) (st_cache st)
      in if counted_hits (lib_hash L) (count_op e request v) c = 1
         then run_ops (lib_hash L) (count_op e request v) c
         else c\<lparr>sink := record_event (own_row e request v (verdict e request v)) (sink c)\<rparr>)"
proof -
  have miss: "snd (count_request n h k d p s q c) = c" if "\<not> fst (count_request n h k d p s q c)" for n h k d p s q c
    using that by (auto simp: count_request_def Let_def split: option.splits)
  show ?thesis
    using miss
    by (cases "verdict e request v"; cases "req_key request")
      (auto simp: answer_def Let_def verdict_def refuse_def case_prod_beta count_op_def run_ops_def)
qed

lemma audited_answer:
  assumes "cache_ok (st_cache st)"
  shows "audited (lib_hash L) (others_counting e) 1 (st_cache st) (st_cache (fst (answer L e request v st)))"
proof -
  let ?h = "lib_hash L" and ?n = "count_op e request v"
  let ?c = "run_ops ?h (others_counting e) (st_cache st)"
  have ok: "cache_ok ?c" using audited_run [OF assms] by (simp add: audited_def)
  have "audited ?h [] 1 ?c (st_cache (fst (answer L e request v st)))"
  proof (cases "counted_hits ?h ?n ?c = 1")
    case True
    then have "st_cache (fst (answer L e request v st)) = run_ops ?h ?n ?c"
      unfolding answer_cache Let_def by simp
    then show ?thesis using audited_run [OF ok, of ?h ?n] True by (simp add: audited_def)
  next
    case False
    let ?row = "own_row e request v (verdict e request v)"
    have c: "st_cache (fst (answer L e request v st)) = ?c\<lparr>sink := record_event ?row (sink ?c)\<rparr>"
      using False unfolding answer_cache Let_def by simp
    show ?thesis
      unfolding audited_def c
      using ok by (intro conjI exI [of _ "[?row]"])
        (simp_all add: pending_events_def sum_counts_def own_row_def cache_ok_def subs_agree_def)
  qed
  from audited_trans [OF refl assms this] show ?thesis by simp
qed

section \<open>The roads through the handler\<close>

text \<open>
  A state on the way: only the cache operations \<open>ops\<close> have run on the cache since the start, and no
  outcome has been counted.
\<close>

definition on_the_way :: "libs \<Rightarrow> cache_op list \<Rightarrow> state \<Rightarrow> state \<Rightarrow> bool" where
  "on_the_way L ops st st' \<longleftrightarrow>
     st_cache st' = run_ops (lib_hash L) ops (st_cache st)
     \<and> total_outcomes (st_metrics st') = total_outcomes (st_metrics st)
     \<and> (metrics_ok (st_metrics st) \<longrightarrow> metrics_ok (st_metrics st'))"

lemma on_the_way_simps:
  "on_the_way L [] st st"
  "on_the_way L ops st st' \<Longrightarrow> on_the_way L ops st (st'\<lparr>st_metrics := cache_lookup b (st_metrics st')\<rparr>)"
  "on_the_way L ops st st' \<Longrightarrow> on_the_way L ops st (st'\<lparr>st_redis := r\<rparr>)"
  "on_the_way L ops st st' \<Longrightarrow>
     on_the_way L (ops @ ops') st (st'\<lparr>st_cache := run_ops (lib_hash L) ops' (st_cache st')\<rparr>)"
  by (simp_all add: on_the_way_def frame_simps run_ops_append)

definition insert_ops :: "env \<Rightarrow> subrequest \<Rightarrow> identity \<Rightarrow> cached \<Rightarrow> cache_op list" where
  "insert_ops e request i v =
     (case req_key request of None \<Rightarrow> [] | Some k \<Rightarrow> [Insert (now_insert e) k (text_or_default (id_sub i)) v])"

definition session_of :: "libs \<Rightarrow> header_value option \<Rightarrow> string option" where
  "session_of L cookie =
     Option.bind (case session_cookie (Option.bind cookie to_str) of Inl _ \<Rightarrow> None | Inr s \<Rightarrow> s)
       (\<lambda>val. session_key (lib_base64 L) val COOKIE_NAME)"

lemma record_session_ok:
  assumes "record_session ok sub k r = (r', Inr u)"
  shows "k \<in> set (members (index_key sub) r')" "expiry r' (index_key sub) = Some INDEX_TTL"
  using assms by (auto simp: record_session_def Let_def members_def split: if_splits option.splits)

datatype road = Refused deny | Sent_to_login | From_cache subrequest cached | From_fill subrequest identity cached

text \<open>One constructor per way the handler ends, with the state it is in just before.\<close>

inductive ends :: "libs \<Rightarrow> env \<Rightarrow> headers \<Rightarrow> state \<Rightarrow> road \<Rightarrow> cache_op list \<Rightarrow> state \<Rightarrow> state \<times> response \<Rightarrow> bool"
  for L e hs st where
  refused: "on_the_way L ops st st' \<Longrightarrow> set ops \<subseteq> set (others_waiting e) \<Longrightarrow>
    ends L e hs st (Refused reason) ops st' (refuse reason st')"
| login: "on_the_way L ops st st' \<Longrightarrow> set ops \<subseteq> set (others_waiting e) \<Longrightarrow>
    ends L e hs st Sent_to_login ops st'
      (st'\<lparr>st_metrics := unauthenticated (st_metrics st')\<rparr>, \<lparr>status = 401, response_headers = []\<rparr>)"
| cached: "on_the_way L ops st st' \<Longrightarrow> set ops \<subseteq> set (others_waiting e) \<Longrightarrow>
    get_for now request (st_cache st') = Some v \<Longrightarrow> now \<in> {now_first_get e, now_second_get e} \<Longrightarrow>
    ends L e hs st (From_cache request v) ops st' (answer L e request v st')"
| filled: "on_the_way L ops st st' \<Longrightarrow>
    ops = others_waiting e @ others_filling e @ insert_ops e request i v \<Longrightarrow>
    authenticate e (map_of hs ''cookie'') = Verified i set_cookie \<Longrightarrow>
    session_of L (map_of hs ''cookie'') = Some s \<Longrightarrow>
    record_session (redis_ok e) (text_or_default (id_sub i)) s (st_redis st) = (st_redis st', Inr ()) \<Longrightarrow>
    load e request i = Inr v \<Longrightarrow>
    result = (fst (answer L e request v st'),
      foldl (\<lambda>r cookie. append_header ''set-cookie'' cookie r) (snd (answer L e request v st')) set_cookie) \<Longrightarrow>
    ends L e hs st (From_fill request i v) ops st' result"

lemma ends_refused:
  assumes "on_the_way L ops st st'" "set ops \<subseteq> set (others_waiting e)"
  shows "\<exists>road ops st''. ends L e hs st road ops st'' (refuse reason st')"
  using ends.refused [OF assms, of hs reason] by blast

lemma fill_ends:
  assumes "on_the_way L (others_waiting e) st st0" "st_redis st0 = st_redis st"
  shows "\<exists>road ops st'. ends L e hs st road ops st' (fill_and_answer L e (map_of hs ''cookie'') request st0)"
proof (cases "authenticate e (map_of hs ''cookie'')")
  case Anonymous
  then have "fill_and_answer L e (map_of hs ''cookie'') request st0 =
      (st0\<lparr>st_metrics := unauthenticated (st_metrics st0)\<rparr>, \<lparr>status = 401, response_headers = []\<rparr>)"
    by (simp add: fill_and_answer_def)
  with ends.login [OF assms(1) order.refl, of hs] show ?thesis by metis
next
  case Unavailable
  then have "fill_and_answer L e (map_of hs ''cookie'') request st0 = refuse AuthUnavailable st0"
    by (simp add: fill_and_answer_def)
  with ends_refused [OF assms(1) order.refl] show ?thesis by metis
next
  case (Verified i set_cookie)
  show ?thesis
  proof (cases "session_of L (map_of hs ''cookie'')")
    case None
    then have "fill_and_answer L e (map_of hs ''cookie'') request st0 = refuse StoreUnavailable st0"
      using Verified by (simp add: fill_and_answer_def session_of_def Let_def)
    with ends_refused [OF assms(1) order.refl] show ?thesis by metis
  next
    case (Some s)
    obtain r u where r: "record_session (redis_ok e) (text_or_default (id_sub i)) s (st_redis st0) = (r, u)"
      by (cases "record_session (redis_ok e) (text_or_default (id_sub i)) s (st_redis st0)")
    let ?st = "st0\<lparr>st_redis := r\<rparr>"
    note way = on_the_way_simps(3) [OF assms(1), of r]
    show ?thesis
    proof (cases u)
      case (Inl err)
      then have "fill_and_answer L e (map_of hs ''cookie'') request st0 = refuse StoreUnavailable ?st"
        using Verified Some r by (simp add: fill_and_answer_def session_of_def Let_def)
      with ends_refused [OF way order.refl] show ?thesis by metis
    next
      case (Inr _)
      show ?thesis
      proof (cases "load e request i")
        case (Inl reason)
        then have "fill_and_answer L e (map_of hs ''cookie'') request st0 = refuse reason ?st"
          using Verified Some r Inr by (simp add: fill_and_answer_def session_of_def Let_def)
        with ends_refused [OF way order.refl] show ?thesis by metis
      next
        case loaded: (Inr v)
        let ?ops = "others_filling e @ insert_ops e request i v"
        let ?st' = "?st\<lparr>st_cache := run_ops (lib_hash L) ?ops (st_cache ?st)\<rparr>"
        have way': "on_the_way L (others_waiting e @ ?ops) st ?st'" by (rule on_the_way_simps(4) [OF way])
        have "fill_and_answer L e (map_of hs ''cookie'') request st0 =
            (fst (answer L e request v ?st'),
             foldl (\<lambda>r cookie. append_header ''set-cookie'' cookie r) (snd (answer L e request v ?st')) set_cookie)"
          using Verified Some r Inr loaded
          by (cases "req_key request")
            (simp_all add: fill_and_answer_def session_of_def Let_def case_prod_beta insert_ops_def
              run_ops_append run_ops_single)
        moreover have "record_session (redis_ok e) (text_or_default (id_sub i)) s (st_redis st) = (st_redis ?st', Inr ())"
          using r Inr assms(2) by simp
        ultimately show ?thesis
          using ends.filled [OF way' _ Verified Some _ loaded refl] by auto
      qed
    qed
  qed
qed

lemma decided_ends: "\<exists>road ops st'. ends L e hs st road ops st' (decided L e hs st)"
proof -
  note start = on_the_way_simps(1) [of L st]
  have refused: "\<exists>road ops st'. ends L e hs st road ops st' (refuse reason st)" for reason
    by (rule ends_refused [OF start]) simp
  show ?thesis
  proof (cases "header_text hs ''x-app-slug''")
    case None
    then show ?thesis using refused by (simp add: decided_def)
  next
    case (Some wanted)
    show ?thesis
    proof (cases "header_text hs ''x-original-uri''")
      case None
      then show ?thesis using Some refused by (simp add: decided_def)
    next
      case uri: (Some uri)
      let ?text = "Option.bind (map_of hs ''cookie'') to_str"
      let ?request = "subrequest_of L hs ?text wanted uri"
      show ?thesis
      proof (cases "list_ex (\<lambda>name. map_of hs name = None) required_headers \<or> \<not> is_ok (session_cookie ?text)")
        case True
        then show ?thesis using Some uri refused
          by (cases "session_cookie ?text") (auto simp: decided_def)
      next
        case False
        then obtain sc where sc: "session_cookie ?text = Inr sc" by (auto simp: is_ok_iff)
        let ?c = "run_ops (lib_hash L) (others_waiting e) (st_cache st)"
        have way: "on_the_way L (others_waiting e) st (st\<lparr>st_cache := ?c\<rparr>)"
          using on_the_way_simps(4) [OF start, of "others_waiting e"] by simp
        consider (first) v where "get_for (now_first_get e) ?request (st_cache st) = Some v"
          | (second) v where "get_for (now_first_get e) ?request (st_cache st) = None"
              "get_for (now_second_get e) ?request ?c = Some v"
          | (miss) "get_for (now_first_get e) ?request (st_cache st) = None"
              "get_for (now_second_get e) ?request ?c = None"
          by (cases "get_for (now_first_get e) ?request (st_cache st)"; cases "get_for (now_second_get e) ?request ?c") auto
        then show ?thesis
        proof cases
          case first
          then show ?thesis
            using Some uri False sc ends.cached [OF on_the_way_simps(2) [OF start, of True], of e "now_first_get e" ?request v]
            by (auto simp: decided_def)
        next
          case second
          then show ?thesis
            using Some uri False sc ends.cached [OF on_the_way_simps(2) [OF way, of True], of e "now_second_get e" ?request v]
            by (auto simp: decided_def Let_def)
        next
          case miss
          let ?st = "st\<lparr>st_cache := ?c\<rparr>"
          let ?st0 = "if req_key ?request \<noteq> None then ?st\<lparr>st_metrics := cache_lookup False (st_metrics ?st)\<rparr> else ?st"
          have "on_the_way L (others_waiting e) st ?st0" using way on_the_way_simps(2) [OF way] by simp
          then have "\<exists>road ops st'. ends L e hs st road ops st' (fill_and_answer L e (map_of hs ''cookie'') ?request ?st0)"
            by (rule fill_ends) simp
          moreover have "decided L e hs st = fill_and_answer L e (map_of hs ''cookie'') ?request ?st0"
            using Some uri False sc miss by (simp add: decided_def Let_def)
          ultimately show ?thesis by simp
        qed
      qed
    qed
  qed
qed

lemma ends_way: "ends L e hs st road ops st' result \<Longrightarrow> on_the_way L ops st st'"
  by (induction rule: ends.induct) simp_all

lemma ends_status: "ends L e hs st road ops st' result \<Longrightarrow> status (snd result) \<in> {200, 401, 403}"
  by (induction rule: ends.induct) (simp_all add: refuse_simps answer_status)

lemma load_identity: "load e request i = Inr v \<Longrightarrow> cached_identity v = i"
  by (auto simp: load_def split: db_reply.splits option.splits)

lemma ends_allow:
  assumes "ends L e hs st road ops st' result" "status (snd result) = 200"
  shows "\<exists>request v. verdict e request v = Allow
    \<and> map_of (response_headers (snd result)) ''x-auth-subject'' = Some (id_sub (cached_identity v))
    \<and> ((\<exists>ops now. set ops \<subseteq> set (others_waiting e) \<and>
          get_for now request (run_ops (lib_hash L) ops (st_cache st)) = Some v)
       \<or> (\<exists>set_cookie s. authenticate e (map_of hs ''cookie'') = Verified (cached_identity v) set_cookie
            \<and> session_of L (map_of hs ''cookie'') = Some s \<and> load e request (cached_identity v) = Inr v
            \<and> s \<in> set (members (index_key (text_or_default (id_sub (cached_identity v)))) (st_redis (fst result)))))"
  using assms(1)
proof (cases rule: ends.cases)
  case (refused reason)
  then show ?thesis using assms(2) by (simp add: refuse_simps)
next
  case login
  then show ?thesis using assms(2) by simp
next
  case (cached now request v)
  then have "verdict e request v = Allow" using assms(2) answer_status [of L e request v st'] by (auto split: if_splits)
  moreover have "st_cache st' = run_ops (lib_hash L) ops (st_cache st)" using cached by (simp add: on_the_way_def)
  ultimately show ?thesis using cached answer_headers(1) [of L e request v st'] by metis
next
  case (filled request i v set_cookie s)
  have v: "verdict e request v = Allow"
    using assms(2) filled answer_status [of L e request v st'] by (auto split: if_splits)
  moreover have i: "cached_identity v = i" using load_identity filled(7) .
  moreover have "s \<in> set (members (index_key (text_or_default (id_sub i))) (st_redis (fst result)))"
    using record_session_ok(1) [OF filled(6)] filled(8) answer_redis [of L e request v st'] by simp
  moreover have "map_of (response_headers (snd result)) ''x-auth-subject'' = Some (id_sub (cached_identity v))"
    using filled(8) answer_headers(1) [of L e request v st'] by (simp add: map_of_append_all)
  ultimately show ?thesis using filled by blast
qed

lemma ends_outcomes:
  assumes "ends L e hs st road ops st' result" "metrics_ok (st_metrics st)"
  shows "total_outcomes (st_metrics (fst result)) = total_outcomes (st_metrics st) + 1"
proof -
  have way: "on_the_way L ops st st'" using ends_way [OF assms(1)] .
  then have w: "metrics_ok (st_metrics st')" "total_outcomes (st_metrics st') = total_outcomes (st_metrics st)"
    using assms(2) by (simp_all add: on_the_way_def)
  from assms(1) show ?thesis
    by (cases rule: ends.cases) (use w in \<open>simp_all add: refuse_simps answer_metrics total_outcome frame_simps\<close>)
qed

definition identified :: "response \<Rightarrow> bool" where
  "identified r \<longleftrightarrow> map_of (response_headers r) ''x-auth-subject'' \<noteq> None"

definition others_only :: "env \<Rightarrow> cache_op list \<Rightarrow> bool" where
  "others_only e ops \<longleftrightarrow>
     (\<forall>op\<in>set ops. op \<in> set (others_waiting e) \<union> set (others_filling e) \<union> set (others_counting e)
        \<or> (\<exists>now k sub v. op = Insert now k sub v))"

lemma ends_audited:
  assumes "ends L e hs st road ops st' result" "cache_ok (st_cache st)"
  shows "\<exists>ops. others_only e ops \<and>
    audited (lib_hash L) ops (if identified (snd result) then 1 else 0) (st_cache st) (st_cache (fst result))"
proof -
  have way: "on_the_way L ops st st'" using ends_way [OF assms(1)] .
  then have c: "st_cache st' = run_ops (lib_hash L) ops (st_cache st)" by (simp add: on_the_way_def)
  have run: "audited (lib_hash L) ops 0 (st_cache st) (st_cache st')"
    unfolding c by (rule audited_run [OF assms(2)])
  then have "cache_ok (st_cache st')" by (simp add: audited_def)
  then have answered: "audited (lib_hash L) (ops @ others_counting e) 1 (st_cache st) (st_cache (fst (answer L e request v st')))"
    for request v by (rule audited_trans [OF c assms(2) audited_answer])
  from assms(1) show ?thesis
  proof (cases rule: ends.cases)
    case (refused reason)
    then have "others_only e ops" by (auto simp: others_only_def)
    then show ?thesis using run refused by (auto simp: identified_def refuse_simps)
  next
    case login
    then have "others_only e ops" by (auto simp: others_only_def)
    then show ?thesis using run login by (auto simp: identified_def)
  next
    case (cached now request v)
    then have "others_only e (ops @ others_counting e)" by (auto simp: others_only_def)
    then show ?thesis using answered [of request v] cached by (auto simp: identified_def answer_headers)
  next
    case (filled request i v set_cookie s)
    then have "others_only e (ops @ others_counting e)"
      by (auto simp: others_only_def insert_ops_def split: option.splits)
    then show ?thesis
      using answered [of request v] filled by (auto simp: identified_def answer_headers map_of_append_all)
  qed
qed

section \<open>Properties\<close>

lemma handler_result:
  "decide_handler L e hs st = (st', r) \<Longrightarrow>
   \<exists>st0. decided L e hs st = (st0, r) \<and> st' = st0\<lparr>st_metrics := observe (elapsed e) (st_metrics st0)\<rparr>"
  by (cases "decided L e hs st") (auto simp: decide_handler_def)

text \<open>The handler never answers anything but 200, 401 and 403, whatever the request, the state and
  the failures of every dependency.\<close>

theorem decide_never_5xx:
  "status (snd (decide_handler L e hs st)) \<in> {200, 401, 403}"
proof -
  obtain road ops st' where "ends L e hs st road ops st' (decided L e hs st)" using decided_ends by blast
  from ends_status [OF this] show ?thesis by (simp add: decide_handler_def case_prod_beta)
qed


definition sample_libs :: libs where
  "sample_libs = \<lparr>lib_digest = id, lib_hash = (\<lambda>_. 0), lib_base64 = percent_codec, lib_parse_ip = (\<lambda>_. None)\<rparr>"

definition sample_state :: state where
  "sample_state = \<lparr>st_cache = run_ops (\<lambda>_. 0) sample_ops (new_cache (audit_channel 4)),
     st_metrics = new_metrics, st_redis = sample_redis\<rparr>"

definition sample_headers :: headers where
  "sample_headers = [(''x-app-slug'', ''wiki''), (''x-original-uri'', ''/x?q''), (''x-original-method'', ''GET''),
     (''x-real-ip'', ''10.0.0.1''), (''x-request-id'', ''r1''), (''cookie'', ''_oauth2_proxy=c'')]"

definition sample_env :: env where
  "sample_env = \<lparr>now_first_get = 6, now_second_get = 6, now_insert = 6, now_decide = 0, now_count = 0,
     elapsed = 3, others_waiting = [], others_filling = [], others_counting = [], proxy = (\<lambda>_. No_answer),
     redis_ok = (True, True), database = Db_timeout\<rparr>"

lemma sample_request:
  "subrequest_of sample_libs sample_headers (Some ''_oauth2_proxy=c'') ''wiki'' ''/x?q'' =
     \<lparr>req_key = Some sample_key, req_slug = ''wiki'', req_uri = ''/x?q'', req_audit_path = ''/x'',
      req_src_ip = None, req_request_id = Some ''r1''\<rparr>"
proof -
  have c: "session_cookie (Some ''_oauth2_proxy=c'') = Inr (Some ''c'')"
  proof -
    have "str_trim ''_oauth2_proxy'' = ''_oauth2_proxy''" by (simp add: trims)
    then show ?thesis by (simp add: session_cookie_def scan_cookie_def split_once_def COOKIE_NAME_def)
  qed
  have "chars_of ''/x'' = [47, 120]" by (simp add: chars_of_def)
  then have p: "utf8_encode (take AUDIT_PATH_LIMIT (chars_of ''/x'')) = ''/x''"
    by (simp add: AUDIT_PATH_LIMIT_def utf8_encode_def encode_char_def char_of_def bit_0)
  have f: "first_piece CHR ''?'' ''/x?q'' = ''/x''" by code_simp
  show ?thesis
    by (simp add: subrequest_of_def new_key_def c p f header_text_def sample_headers_def sample_libs_def
        sample_key_def to_str_def)
qed

lemma sample_allows: "status (snd (decide_handler sample_libs sample_env sample_headers sample_state)) = 200"
proof -
  let ?c = "run_ops (\<lambda>_. 0) sample_ops (new_cache (audit_channel 4))"
  have t: "header_text sample_headers ''x-app-slug'' = Some ''wiki''"
    "header_text sample_headers ''x-original-uri'' = Some ''/x?q''"
    "map_of sample_headers ''cookie'' = Some ''_oauth2_proxy=c''" "to_str ''_oauth2_proxy=c'' = Some ''_oauth2_proxy=c''"
    "\<not> list_ex (\<lambda>name. map_of sample_headers name = None) required_headers"
    by (simp_all add: header_text_def sample_headers_def to_str_def required_headers_def)
  obtain sc where sc: "session_cookie (Some ''_oauth2_proxy=c'') = Inr sc"
    using sample_request by (cases "session_cookie (Some ''_oauth2_proxy=c'')") (auto simp: subrequest_of_def new_key_def)
  have "decide True example_rules ''/x?q'' 0 = Allow" by code_simp
  then show ?thesis
    using sample_run
    by (simp add: decide_handler_def case_prod_beta decided_def t sc sample_request get_for_def Let_def
        sample_env_def sample_state_def answer_status verdict_def sample_cached_def)
qed


text \<open>The outcomes add up to the requests: whatever road a request takes, exactly one of the allow,
  deny and unauthenticated counters goes up by one, so the error rate has an honest denominator.\<close>

theorem one_outcome_per_request:
  assumes "metrics_ok (st_metrics st)"
  shows "total_outcomes (st_metrics (fst (decide_handler L e hs st))) = total_outcomes (st_metrics st) + 1"
proof -
  obtain road ops st' where "ends L e hs st road ops st' (decided L e hs st)" using decided_ends by blast
  from ends_outcomes [OF this assms] show ?thesis
    by (simp add: decide_handler_def case_prod_beta frame_simps)
qed

theorem one_outcome_per_request_witness:
  "total_outcomes (st_metrics (fst (decide_handler sample_libs sample_env [] sample_state))) = 1"
proof -
  have "metrics_ok (st_metrics sample_state)" using metrics_ok_new by (simp add: sample_state_def)
  from one_outcome_per_request [OF this, where L = sample_libs and e = sample_env and hs = "[]"] show ?thesis
    by (simp add: sample_state_def total_outcomes_def new_metrics_def sum_list_replicate)
qed

text \<open>C15: every decision about a named user is audited exactly once: besides what the cache operations of
  other tasks and the insert of this one do, a request whose answer names an identity adds exactly
  one to the counted requests - in a live entry's counter or as a row of its own - and one that
  names none adds nothing.\<close>

theorem decision_is_audited_once:
  assumes "cache_ok (st_cache st)" "decide_handler L e hs st = (st', r)"
  shows "\<exists>ops evs. others_only e ops \<and> sink (st_cache st') = fold record_event evs (sink (st_cache st))
    \<and> sum_counts evs + sum_counts (pending_events (st_cache st')) =
        sum_counts (pending_events (st_cache st)) + of_nat (counted_hits (lib_hash L) ops (st_cache st))
        + (if identified r then 1 else 0)"
proof -
  obtain st0 where d: "decided L e hs st = (st0, r)" "st_cache st' = st_cache st0"
    using handler_result [OF assms(2)] by auto
  obtain road ops st1 where "ends L e hs st road ops st1 (st0, r)"
    using decided_ends [of L e hs st] d(1) by metis
  from ends_audited [OF this assms(1)] obtain ops' where "others_only e ops'"
    "audited (lib_hash L) ops' (if identified r then 1 else 0) (st_cache st) (st_cache st')"
    using d(2) by auto
  then show ?thesis unfolding audited_def by (auto split: if_splits)
qed

theorem decision_is_audited_once_witness:
  "\<exists>ops evs. others_only sample_env ops
    \<and> sink (st_cache (fst (decide_handler sample_libs sample_env sample_headers sample_state))) =
        fold record_event evs (sink (st_cache sample_state))
    \<and> sum_counts evs
        + sum_counts (pending_events (st_cache (fst (decide_handler sample_libs sample_env sample_headers sample_state)))) =
        sum_counts (pending_events (st_cache sample_state))
        + of_nat (counted_hits (lib_hash sample_libs) ops (st_cache sample_state))
        + (if identified (snd (decide_handler sample_libs sample_env sample_headers sample_state)) then 1 else 0)"
proof -
  have "cache_ok (st_cache sample_state)" by (simp add: sample_state_def cache_ok_run)
  from decision_is_audited_once [OF this surjective_pairing] show ?thesis .
qed

text \<open>A group name that is not ASCII switches a user's deny rules off: \<open>load\<close> reads the groups header
  with \<open>to_str\<close> and takes the empty list when that fails, so one such name drops every group rule,
  denies included, while a rule on the user still allows.\<close>

theorem unreadable_groups_drop_denies:
  "\<exists>e request i v. load e request i = Inr v \<and> verdict e request v = Allow
     \<and> decide True (rules_of (the (rules_for [sample_app] sample_entitlements ''wiki'' ''u1''
          (split_on CHR '','' (id_groups i))))) (req_uri request) 0 = Deny ExplicitDeny
     \<and> database e = Db_rows [sample_app] sample_entitlements \<and> id_sub i = ''u1'' \<and> req_slug request = ''wiki''"
proof -
  let ?e = "sample_env\<lparr>database := Db_rows [sample_app] sample_entitlements\<rparr>"
  let ?i = "sample_identity\<lparr>id_groups := ''staff,M'' @ [char_of (195 :: nat), char_of (188 :: nat)]\<rparr>"
  let ?r = "\<lparr>req_key = None, req_slug = ''wiki'', req_uri = ''/admin/x'', req_audit_path = '''',
      req_src_ip = None, req_request_id = None\<rparr>"
  let ?allow = "\<lparr>effect = Effect_Allow, path_pattern = '''', expires_at = None\<rparr>"
  let ?v = "\<lparr>cached_identity = ?i, cached_rules = [?allow], cached_enabled = True, cached_application_id = Some 1\<rparr>"
  have "groups_of ?i = []"
    by (simp add: groups_of_def text_or_default_def to_str_def sample_identity_def)
  moreover have "text_or_default ''u1'' = ''u1''" by (simp add: text_or_default_def to_str_def)
  ultimately have "load ?e ?r ?i = Inr ?v"
    by (simp add: load_def rules_for_def sample_app_def sample_entitlements_def applicable_def rule_of_def
        effect_of_def sample_identity_def)
  moreover have "decide True [?allow] ''/admin/x'' 0 = Allow" by code_simp
  then have "verdict ?e ?r ?v = Allow" by (simp add: verdict_def sample_env_def)
  moreover have "rules_of (the (rules_for [sample_app] sample_entitlements ''wiki'' ''u1''
      (split_on CHR '','' (id_groups ?i)))) = example_rules"
    by (simp add: rules_for_def sample_app_def sample_entitlements_def applicable_def rule_of_def
        effect_of_def example_rules_def)
  moreover have "decide True example_rules ''/admin/x'' 0 = Deny ExplicitDeny" by code_simp
  ultimately show ?thesis
    by (intro exI [of _ ?e] exI [of _ ?r] exI [of _ ?i] exI [of _ ?v]) (simp add: sample_identity_def)
qed

end
