(* ===== verification/Keycloak.thy ===== *)
theory Keycloak
  imports Decide
begin

text \<open>
  \<open>keycloak.rs\<close>: the calls to Keycloak's Admin API. What Keycloak answers is an argument, a function of
  every request sent so far; the state is the list of those requests, in order. The lemmas say which
  requests each call can send, whatever Keycloak answers: the resets and the kill switch rest on it.
\<close>

section \<open>JSON values\<close>

text \<open>\<open>serde_json::Value\<close>. A number is kept as an integer or, outside 64 bits, as its text.\<close>

datatype json =
    Null
  | Bool bool
  | Number int
  | Float string
  | String string
  | Array "json list"
  | Object "(string \<times> json) list"

text \<open>\<open>v["key"]\<close> as a shared reference: null for a missing key and for anything but an object.\<close>

fun json_get :: "json \<Rightarrow> string \<Rightarrow> json" where
  "json_get (Object kvs) k = (case map_of kvs k of None \<Rightarrow> Null | Some v \<Rightarrow> v)"
| "json_get _ k = Null"

fun as_str :: "json \<Rightarrow> string option" where
  "as_str (String s) = Some s"
| "as_str _ = None"

fun as_bool :: "json \<Rightarrow> bool option" where
  "as_bool (Bool b) = Some b"
| "as_bool _ = None"

fun as_array :: "json \<Rightarrow> json list option" where
  "as_array (Array vs) = Some vs"
| "as_array _ = None"

fun as_u64 :: "json \<Rightarrow> nat option" where
  "as_u64 (Number n) = (if 0 \<le> n \<and> n < 2 ^ 64 then Some (nat n) else None)"
| "as_u64 _ = None"

text \<open>\<open>as_array().into_iter().flatten()\<close>.\<close>

definition elements :: "json \<Rightarrow> json list" where
  "elements v = (case as_array v of None \<Rightarrow> [] | Some vs \<Rightarrow> vs)"

section \<open>Requests, replies and fallible steps\<close>

datatype http_method = GET | POST | DELETE | HEAD | PATCH | Method string

record http_request =
  http_method :: http_method
  http_url :: string
  http_bearer :: "string option"
  http_params :: "(string \<times> string) list"

text \<open>No reply within the timeout, or a status and a body that can fail to be read.\<close>

datatype http_reply = No_reply string | Http_reply nat "string + string"

type_synonym world = "http_request list \<Rightarrow> http_reply"

definition send :: "world \<Rightarrow> http_request \<Rightarrow> http_request list \<Rightarrow> http_request list \<times> http_reply" where
  "send w q log = (log @ [q], w (log @ [q]))"

definition is_success :: "nat \<Rightarrow> bool" where
  "is_success code \<longleftrightarrow> 200 \<le> code \<and> code < 300"

text \<open>A step of the conversation, and the operator \<open>?\<close> after one.\<close>

type_synonym ('e, 'a) step = "http_request list \<Rightarrow> http_request list \<times> ('e + 'a)"

definition give :: "'a \<Rightarrow> ('e, 'a) step" where
  "give a log = (log, Inr a)"

definition fail_with :: "'e \<Rightarrow> ('e, 'a) step" where
  "fail_with e log = (log, Inl e)"

definition try_then :: "('e, 'a) step \<Rightarrow> ('a \<Rightarrow> ('e, 'b) step) \<Rightarrow> ('e, 'b) step" where
  "try_then f g log =
     (case f log of
        (log, Inl e) \<Rightarrow> (log, Inl e)
      | (log, Inr a) \<Rightarrow> g a log)"

definition map_err :: "('e \<Rightarrow> 'f) \<Rightarrow> ('e, 'a) step \<Rightarrow> ('f, 'a) step" where
  "map_err h f log =
     (case f log of
        (log, Inl e) \<Rightarrow> (log, Inl (h e))
      | (log, Inr a) \<Rightarrow> (log, Inr a))"

text \<open>
  Library functions: \<open>serde_json\<close>'s parser and printer, the \<open>uuid\<close> crate's parser and printer, the
  printed form of a status.
\<close>

record kc_libs =
  parse_json :: "string \<Rightarrow> string + json"
  show_json :: "json \<Rightarrow> string"
  parse_uuid :: "string \<Rightarrow> uuid option"
  show_uuid :: "uuid \<Rightarrow> string"
  show_status :: "nat \<Rightarrow> string"

section \<open>The client\<close>

datatype logout_error = NoSuchUser | LogoutUnavailable string

definition logout_error_text :: "logout_error \<Rightarrow> string" where
  "logout_error_text e =
     (case e of NoSuchUser \<Rightarrow> ''no such user in the realm'' | LogoutUnavailable why \<Rightarrow> why)"

record keycloak =
  base :: string
  realm :: string
  client_id :: string
  client_secret :: string

definition new_keycloak :: "string \<Rightarrow> string \<Rightarrow> string \<Rightarrow> string \<Rightarrow> keycloak" where
  "new_keycloak base_url realm_name client secret =
     \<lparr>base = trim_end_on (\<lambda>c. c = CHR ''/'') base_url, realm = realm_name, client_id = client,
      client_secret = secret\<rparr>"

definition token_request :: "keycloak \<Rightarrow> http_request" where
  "token_request k =
     \<lparr>http_method = POST, http_url = base k @ ''/realms/'' @ realm k @ ''/protocol/openid-connect/token'',
      http_bearer = None,
      http_params = [(''grant_type'', ''client_credentials''), (''client_id'', client_id k),
        (''client_secret'', client_secret k)]\<rparr>"

definition token :: "kc_libs \<Rightarrow> world \<Rightarrow> keycloak \<Rightarrow> (string, string) step" where
  "token lib w k log =
     (case send w (token_request k) log of
        (log, No_reply e) \<Rightarrow> (log, Inl (''Keycloak did not answer: '' @ e))
      | (log, Http_reply code (Inl e)) \<Rightarrow> (log, Inl (''Keycloak token response unreadable: '' @ e))
      | (log, Http_reply code (Inr body)) \<Rightarrow>
          (log,
           if \<not> is_success code then Inl (''Keycloak refused the service account: '' @ show_status lib code)
           else (case parse_json lib body of
                   Inl _ \<Rightarrow> Inl ''Keycloak token response carried no access_token''
                 | Inr v \<Rightarrow>
                     (case as_str (json_get v ''access_token'') of
                        None \<Rightarrow> Inl ''Keycloak token response carried no access_token''
                      | Some t \<Rightarrow> Inr t))))"

definition admin_url :: "keycloak \<Rightarrow> string \<Rightarrow> string" where
  "admin_url k path = base k @ ''/admin/realms/'' @ realm k @ ''/'' @ path"

definition logout_all :: "kc_libs \<Rightarrow> world \<Rightarrow> keycloak \<Rightarrow> uuid \<Rightarrow> (logout_error, unit) step" where
  "logout_all lib w k sub =
     try_then (map_err LogoutUnavailable (token lib w k)) (\<lambda>t log.
       case send w \<lparr>http_method = POST, http_url = admin_url k (''users/'' @ show_uuid lib sub @ ''/logout''),
                    http_bearer = Some t, http_params = []\<rparr> log of
         (log, No_reply e) \<Rightarrow> (log, Inl (LogoutUnavailable (''Keycloak did not answer: '' @ e)))
       | (log, Http_reply code _) \<Rightarrow>
           (log, if is_success code then Inr ()
                 else if code = 404 then Inl NoSuchUser
                 else Inl (LogoutUnavailable (''Keycloak refused logout-all: '' @ show_status lib code))))"

definition kc_get ::
  "kc_libs \<Rightarrow> world \<Rightarrow> keycloak \<Rightarrow> string \<Rightarrow> string \<Rightarrow> (string \<times> string) list \<Rightarrow> (string, json) step" where
  "kc_get lib w k t path query log =
     (case send w \<lparr>http_method = GET, http_url = admin_url k path, http_bearer = Some t, http_params = query\<rparr> log of
        (log, No_reply e) \<Rightarrow> (log, Inl (''Keycloak did not answer: '' @ e))
      | (log, Http_reply code body) \<Rightarrow>
          (log,
           if \<not> is_success code then Inl (''Keycloak refused the directory read: '' @ show_status lib code)
           else (case body of
                   Inl e \<Rightarrow> Inl (''Keycloak answered the directory read unreadably: '' @ e)
                 | Inr text \<Rightarrow>
                     (case parse_json lib text of
                        Inl e \<Rightarrow> Inl (''Keycloak answered the directory read unreadably: '' @ e)
                      | Inr v \<Rightarrow> Inr v))))"

section \<open>The directory reads\<close>

record kc_user =
  user_sub :: string
  user_username :: string
  user_email :: string
  user_totp :: bool
  user_privileged :: bool

definition usernames :: "json \<Rightarrow> string list" where
  "usernames v = List.map_filter (\<lambda>m. as_str (json_get m ''username'')) (elements v)"

definition members_of_group :: "kc_libs \<Rightarrow> world \<Rightarrow> keycloak \<Rightarrow> string \<Rightarrow> string \<Rightarrow> (string, string list) step" where
  "members_of_group lib w k t grp =
     (if grp = '''' then give []
      else try_then (kc_get lib w k t ''groups'' [(''search'', grp), (''exact'', ''true'')]) (\<lambda>found.
        case Option.bind
               (Option.bind (find (\<lambda>g. json_get g ''name'' = String grp) (elements found))
                  (\<lambda>g. as_str (json_get g ''id'')))
               (parse_uuid lib) of
          None \<Rightarrow> give []
        | Some gid \<Rightarrow>
            try_then (kc_get lib w k t (''groups/'' @ show_uuid lib gid @ ''/members'') [])
              (\<lambda>ms. give (usernames ms))))"

fun privileged_names ::
  "kc_libs \<Rightarrow> world \<Rightarrow> keycloak \<Rightarrow> string \<Rightarrow> string list \<Rightarrow> string list \<Rightarrow> (string, string list) step" where
  "privileged_names lib w k t privileged [] = give privileged"
| "privileged_names lib w k t privileged (grp # groups) =
     try_then (members_of_group lib w k t grp)
       (\<lambda>ms. privileged_names lib w k t (privileged @ ms) groups)"

definition user_row :: "string list \<Rightarrow> json \<Rightarrow> kc_user option" where
  "user_row privileged user =
     Option.bind (as_str (json_get user ''username'')) (\<lambda>username.
       Option.bind (as_str (json_get user ''id'')) (\<lambda>sub.
         Some \<lparr>user_sub = sub, user_username = username,
               user_email = (case as_str (json_get user ''email'') of None \<Rightarrow> '''' | Some m \<Rightarrow> m),
               user_totp = (as_bool (json_get user ''totp'') = Some True),
               user_privileged = List.member privileged username\<rparr>))"

definition users ::
  "kc_libs \<Rightarrow> world \<Rightarrow> keycloak \<Rightarrow> string \<Rightarrow> nat \<Rightarrow> nat \<Rightarrow> string list \<Rightarrow> (string, kc_user list) step" where
  "users lib w k search first most privileged_groups =
     try_then (token lib w k) (\<lambda>t.
       try_then (kc_get lib w k t ''users''
           ([(''first'', decimal first), (''max'', decimal most)]
            @ (if search \<noteq> '''' then [(''search'', search)] else []))) (\<lambda>listed.
         try_then (privileged_names lib w k t [] privileged_groups) (\<lambda>privileged.
           give (List.map_filter (user_row privileged) (elements listed)))))"

section \<open>The target of a reset\<close>

record reset_target =
  target_id :: uuid
  target_groups :: "string list"

definition GROUPS_READ :: string where
  "GROUPS_READ = ''1000''"

text \<open>
  \<open>v["count"].take()\<close> indexes mutably: it inserts into an object, turns null into an object, and panics
  on any other value. A panic unwinds the request's task.
\<close>

datatype trouble = Failed string | Panicked

definition take_field :: "json \<Rightarrow> string \<Rightarrow> trouble + json" where
  "take_field v key =
     (case v of
        Object kvs \<Rightarrow> Inr (json_get v key)
      | Null \<Rightarrow> Inr Null
      | _ \<Rightarrow> Inl Panicked)"

definition group_names :: "json \<Rightarrow> string list" where
  "group_names v = List.map_filter (\<lambda>g. as_str (json_get g ''name'')) (elements v)"

definition target :: "kc_libs \<Rightarrow> world \<Rightarrow> keycloak \<Rightarrow> string \<Rightarrow> (trouble, reset_target option) step" where
  "target lib w k username =
     try_then (map_err Failed (token lib w k)) (\<lambda>t.
       try_then (map_err Failed (kc_get lib w k t ''users'' [(''username'', username), (''exact'', ''true'')])) (\<lambda>found.
         case Option.bind (case elements found of [] \<Rightarrow> None | u # _ \<Rightarrow> Some u) (\<lambda>u. as_str (json_get u ''id'')) of
           None \<Rightarrow> give None
         | Some raw \<Rightarrow>
             (case parse_uuid lib raw of
                None \<Rightarrow> fail_with (Failed ''Keycloak named a user whose id is not a UUID'')
              | Some tid \<Rightarrow>
                  try_then (map_err Failed
                      (kc_get lib w k t (''users/'' @ show_uuid lib tid @ ''/groups'') [(''max'', GROUPS_READ)])) (\<lambda>listed.
                    try_then (map_err Failed
                        (kc_get lib w k t (''users/'' @ show_uuid lib tid @ ''/groups/count'') [])) (\<lambda>counted.
                      case take_field counted ''count'' of
                        Inl e \<Rightarrow> fail_with e
                      | Inr n \<Rightarrow>
                          if as_u64 n \<noteq> Some (length (group_names listed)) then
                            fail_with (Failed (''Keycloak listed '' @ decimal (length (group_names listed))
                              @ '' of the target's groups and counted '' @ show_json lib n
                              @ ''; reset this user at the Keycloak console''))
                          else give (Some \<lparr>target_id = tid, target_groups = group_names listed\<rparr>))))))"

section \<open>Deleting the second factor\<close>

definition otp_credentials :: "kc_libs \<Rightarrow> json \<Rightarrow> uuid list" where
  "otp_credentials lib held =
     List.map_filter (parse_uuid lib)
       (List.map_filter (\<lambda>c. as_str (json_get c ''id''))
         (filter (\<lambda>c. json_get c ''type'' = String ''otp'') (elements held)))"

definition credential_delete :: "kc_libs \<Rightarrow> keycloak \<Rightarrow> string \<Rightarrow> uuid \<Rightarrow> uuid \<Rightarrow> http_request" where
  "credential_delete lib k t uid credential =
     \<lparr>http_method = DELETE,
      http_url = admin_url k (''users/'' @ show_uuid lib uid @ ''/credentials/'' @ show_uuid lib credential),
      http_bearer = Some t, http_params = []\<rparr>"

fun delete_credentials ::
  "kc_libs \<Rightarrow> world \<Rightarrow> keycloak \<Rightarrow> string \<Rightarrow> uuid \<Rightarrow> uuid list \<Rightarrow> (string, unit) step" where
  "delete_credentials lib w k t uid [] = give ()"
| "delete_credentials lib w k t uid (credential # rest) =
     (\<lambda>log. case send w (credential_delete lib k t uid credential) log of
        (log, No_reply e) \<Rightarrow> (log, Inl (''Keycloak did not answer: '' @ e))
      | (log, Http_reply code _) \<Rightarrow>
          if \<not> is_success code then
            (log, Inl (''Keycloak refused the credential delete: '' @ show_status lib code))
          else delete_credentials lib w k t uid rest log)"

definition delete_otp :: "kc_libs \<Rightarrow> world \<Rightarrow> keycloak \<Rightarrow> uuid \<Rightarrow> (string, nat) step" where
  "delete_otp lib w k uid =
     try_then (token lib w k) (\<lambda>t.
       try_then (kc_get lib w k t (''users/'' @ show_uuid lib uid @ ''/credentials'') []) (\<lambda>held.
         try_then (delete_credentials lib w k t uid (otp_credentials lib held)) (\<lambda>_.
           give (length (otp_credentials lib held)))))"

section \<open>Which requests a step can send\<close>

text \<open>
  Whatever Keycloak answers, a step only adds requests to the log, and all of them satisfy \<open>P\<close>. The
  rules follow the way the steps are put together.
\<close>

named_theorems send_rules

definition sends :: "(http_request \<Rightarrow> bool) \<Rightarrow> ('e, 'a) step \<Rightarrow> bool" where
  "sends P f \<longleftrightarrow> (\<forall>log. \<exists>new. fst (f log) = log @ new \<and> list_all P new)"

lemma sendsI: "(\<And>log. \<exists>new. fst (f log) = log @ new \<and> list_all P new) \<Longrightarrow> sends P f"
  by (simp add: sends_def)

lemma sendsD: "sends P f \<Longrightarrow> f log = (log', r) \<Longrightarrow> \<exists>new. log' = log @ new \<and> list_all P new"
  unfolding sends_def by (metis fst_conv)

lemma sends_weaken: "sends P f \<Longrightarrow> (\<And>q. P q \<Longrightarrow> Q q) \<Longrightarrow> sends Q f"
  unfolding sends_def by (metis list_all_iff)

lemma sends_give [send_rules]: "sends P (give a)"
  by (simp add: sends_def give_def)

lemma sends_fail [send_rules]: "sends P (fail_with e)"
  by (simp add: sends_def fail_with_def)

lemma sends_map_err [send_rules]: "sends P f \<Longrightarrow> sends P (map_err h f)"
  unfolding sends_def map_err_def by (metis (no_types, lifting) case_prod_unfold fst_conv sum.case_eq_if)

lemma sends_try_value:
  assumes "sends P f" "\<And>a log log'. f log = (log', Inr a) \<Longrightarrow> sends P (g a)"
  shows "sends P (try_then f g)"
proof (rule sendsI)
  fix log
  obtain log' r where f: "f log = (log', r)" by (cases "f log")
  from sendsD [OF assms(1) f] obtain new where new: "log' = log @ new" "list_all P new" by blast
  show "\<exists>new. fst (try_then f g log) = log @ new \<and> list_all P new"
  proof (cases r)
    case (Inl e)
    then show ?thesis using f new by (simp add: try_then_def)
  next
    case (Inr a)
    obtain log2 r2 where g: "g a log' = (log2, r2)" by (cases "g a log'")
    have "sends P (g a)" using assms(2) f Inr by simp
    from sendsD [OF this g] obtain new2 where "log2 = log' @ new2" "list_all P new2" by blast
    then show ?thesis using f g new Inr by (simp add: try_then_def)
  qed
qed

lemma sends_try [send_rules]: "sends P f \<Longrightarrow> (\<And>a. sends P (g a)) \<Longrightarrow> sends P (try_then f g)"
  by (rule sends_try_value)

lemma sends_one:
  "(\<And>log. \<exists>q. fst (f log) = log @ [q] \<and> P q) \<Longrightarrow> sends P f"
  unfolding sends_def by (metis list.pred_inject)

definition reads :: "keycloak \<Rightarrow> http_request \<Rightarrow> bool" where
  "reads k q \<longleftrightarrow> q = token_request k \<or> (http_method q = GET \<and> prefix (admin_url k '''') (http_url q))"

lemma fst_token: "fst (token lib w k log) = log @ [token_request k]"
  by (simp add: token_def send_def split: http_reply.split sum.split)

lemma fst_kc_get:
  "fst (kc_get lib w k t path query log) =
     log @ [\<lparr>http_method = GET, http_url = admin_url k path, http_bearer = Some t, http_params = query\<rparr>]"
  by (simp add: kc_get_def send_def split: http_reply.split)

lemma sends_token [send_rules]: "sends (reads k) (token lib w k)"
  by (rule sends_one) (auto simp: fst_token reads_def)

lemma sends_kc_get [send_rules]: "sends (reads k) (kc_get lib w k t path query)"
  by (rule sends_one) (auto simp: fst_kc_get reads_def admin_url_def)

lemma sends_members [send_rules]: "sends (reads k) (members_of_group lib w k t grp)"
  unfolding members_of_group_def by (auto intro!: send_rules split: option.split)

lemma sends_privileged [send_rules]: "sends (reads k) (privileged_names lib w k t privileged groups)"
  by (induction groups arbitrary: privileged) (auto intro!: send_rules)

lemma sends_users: "sends (reads k) (users lib w k search first most groups)"
  unfolding users_def by (auto intro!: send_rules)

lemma sends_target: "sends (reads k) (target lib w k username)"
  unfolding target_def by (auto intro!: send_rules split: option.split sum.split)

text \<open>What Keycloak answered to a directory read.\<close>

definition answered :: "kc_libs \<Rightarrow> world \<Rightarrow> keycloak \<Rightarrow> string \<Rightarrow> (string \<times> string) list \<Rightarrow> json \<Rightarrow> bool" where
  "answered lib w k path query v \<longleftrightarrow> (\<exists>t log log'. kc_get lib w k t path query log = (log', Inr v))"

text \<open>A deletion of one of the user's OTP credentials, as Keycloak listed them.\<close>

definition deletes_otp :: "kc_libs \<Rightarrow> world \<Rightarrow> keycloak \<Rightarrow> uuid \<Rightarrow> http_request \<Rightarrow> bool" where
  "deletes_otp lib w k uid q \<longleftrightarrow>
     (\<exists>held c raw i. answered lib w k (''users/'' @ show_uuid lib uid @ ''/credentials'') [] held
        \<and> c \<in> set (elements held) \<and> json_get c ''type'' = String ''otp'' \<and> json_get c ''id'' = String raw
        \<and> parse_uuid lib raw = Some i \<and> http_method q = DELETE
        \<and> http_url q = base k @ ''/admin/realms/'' @ realm k @ ''/users/'' @ show_uuid lib uid @ ''/credentials/'' @ show_uuid lib i)"

lemma otp_credentials_mem:
  "i \<in> set (otp_credentials lib held) \<longleftrightarrow>
     (\<exists>c raw. c \<in> set (elements held) \<and> json_get c ''type'' = String ''otp'' \<and> json_get c ''id'' = String raw
        \<and> parse_uuid lib raw = Some i)"
proof -
  have text_of: "as_str v = Some raw \<longleftrightarrow> v = String raw" for v raw by (cases v) auto
  show ?thesis unfolding otp_credentials_def set_map_filter Bex_def set_filter mem_Collect_eq text_of by metis
qed

lemma sends_delete_credentials:
  "sends (\<lambda>q. \<exists>c\<in>set cs. q = credential_delete lib k t uid c) (delete_credentials lib w k t uid cs)"
proof (induction cs)
  case (Cons c cs)
  show ?case
  proof (rule sendsI)
    fix log
    let ?log = "log @ [credential_delete lib k t uid c]"
    obtain log2 r2 where rest: "delete_credentials lib w k t uid cs ?log = (log2, r2)"
      by (cases "delete_credentials lib w k t uid cs ?log")
    from sendsD [OF Cons this] obtain new where "log2 = ?log @ new"
      "list_all (\<lambda>q. \<exists>c\<in>set cs. q = credential_delete lib k t uid c) new" by blast
    then have "fst (delete_credentials lib w k t uid (c # cs) log) \<in> {?log, ?log @ new}"
      "list_all (\<lambda>q. \<exists>c\<in>set (c # cs). q = credential_delete lib k t uid c) new"
      using rest by (auto simp: send_def list_all_iff split: http_reply.split)
    then show "\<exists>new. fst (delete_credentials lib w k t uid (c # cs) log) = log @ new
        \<and> list_all (\<lambda>q. \<exists>c\<in>set (c # cs). q = credential_delete lib k t uid c) new"
      by (intro exI [of _ "drop (length log) (fst (delete_credentials lib w k t uid (c # cs) log))"]) auto
  qed
qed (simp add: sends_give)

lemma sends_delete_otp: "sends (\<lambda>q. reads k q \<or> deletes_otp lib w k uid q) (delete_otp lib w k uid)"
proof -
  let ?P = "\<lambda>q. reads k q \<or> deletes_otp lib w k uid q"
  let ?path = "''users/'' @ show_uuid lib uid @ ''/credentials''"
  have "sends ?P (delete_credentials lib w k t uid (otp_credentials lib held))"
    if "kc_get lib w k t ?path [] log = (log', Inr held)" for t held log log'
  proof -
    have "answered lib w k ?path [] held" using that unfolding answered_def by blast
    then show ?thesis by (intro sends_weaken [OF sends_delete_credentials]) 
        (use \<open>answered lib w k ?path [] held\<close> in \<open>fastforce simp: deletes_otp_def otp_credentials_mem credential_delete_def admin_url_def\<close>)
  qed
  then have reset: "sends ?P (try_then (kc_get lib w k t ?path []) (\<lambda>held.
      try_then (delete_credentials lib w k t uid (otp_credentials lib held)) (\<lambda>_.
        give (length (otp_credentials lib held)))))" for t
    by (intro sends_try_value [OF sends_weaken [OF sends_kc_get]] sends_try sends_give) auto
  have "sends ?P (token lib w k)" by (rule sends_weaken [OF sends_token]) simp
  from sends_try [OF this reset] show ?thesis unfolding delete_otp_def .
qed

end
