(* ===== verification/Api.thy ===== *)
theory Api
  imports Keycloak
begin

text \<open>
  \<open>api.rs\<close>: what every endpoint behind the session index shares. The whole state of the process and of
  the stores it writes, the configuration, the caller as nginx names it on the request, the origin
  test, the middleware that indexes the session first, and the readiness endpoint.
\<close>

section \<open>Replies\<close>

datatype body = No_body | Text string | Json json

record reply = response +
  body :: body

definition plain :: "nat \<Rightarrow> reply" where
  "plain code = \<lparr>status = code, response_headers = [], body = No_body\<rparr>"

definition with_json :: "nat \<Rightarrow> json \<Rightarrow> reply" where
  "with_json code v = \<lparr>status = code, response_headers = [(''content-type'', ''application/json'')], body = Json v\<rparr>"

definition with_text :: "nat \<Rightarrow> string \<Rightarrow> reply" where
  "with_text code s =
     \<lparr>status = code, response_headers = [(''content-type'', ''text/plain; charset=utf-8'')], body = Text s\<rparr>"

definition error_json :: "string \<Rightarrow> json" where
  "error_json message = Object [(''error'', String message)]"

text \<open>\<open>admin.rs\<close>, \<open>bad_request\<close>.\<close>

definition bad_request :: "string \<Rightarrow> reply" where
  "bad_request message = with_json 400 (error_json message)"

text \<open>
  \<open>admin.rs\<close>, \<open>failed\<close>: what a database error becomes. A unique violation is a conflict, everything else
  an outage; the message is the same whichever table was written.
\<close>

datatype db_error = Unique_violation | Db_failure

definition failed :: "db_error \<Rightarrow> reply" where
  "failed e =
     (case e of
        Unique_violation \<Rightarrow> with_json 409 (error_json ''slug or external_hostname already exists'')
      | Db_failure \<Rightarrow> plain 503)"

section \<open>The context\<close>

record ctx =
  ctx_keycloak :: keycloak
  admin_group :: string
  auditor_group :: string
  portal_origin :: string
  nginx_conf_dir :: "string option"

text \<open>
  Everything a request can change: what \<open>/decide\<close> changes, the two tables, the requests sent to
  Keycloak and the volume shared with nginx.
\<close>

record system = state +
  sys_applications :: "application list"
  sys_entitlements :: "entitlement list"
  sys_sent :: "http_request list"
  sys_volume :: volume

section \<open>The caller\<close>

record caller =
  caller_sub :: string
  caller_username :: string
  caller_email :: string
  caller_groups :: "string list"

definition text_header :: "headers \<Rightarrow> string \<Rightarrow> string" where
  "text_header hs name = (case header_text hs name of None \<Rightarrow> '''' | Some v \<Rightarrow> v)"

definition caller_from :: "headers \<Rightarrow> caller option" where
  "caller_from hs =
     (let sub = text_header hs ''x-auth-subject''
      in if sub = '''' then None
         else Some \<lparr>caller_sub = sub, caller_username = text_header hs ''x-auth-username'',
           caller_email = text_header hs ''x-auth-email'',
           caller_groups = filter (\<lambda>g. g \<noteq> '''') (split_on CHR '','' (text_header hs ''x-auth-groups''))\<rparr>)"

definition from_portal :: "headers \<Rightarrow> string \<Rightarrow> bool" where
  "from_portal hs origin \<longleftrightarrow> header_text hs ''origin'' = Some origin"

section \<open>Indexing before answering\<close>

text \<open>\<open>rest\<close> is the chain after it, \<open>next.run(request)\<close>; a chain that panics gives no reply.\<close>

definition indexed ::
  "libs \<Rightarrow> bool \<times> bool \<Rightarrow> headers \<Rightarrow> ('a state_scheme \<Rightarrow> 'a state_scheme \<times> reply option) \<Rightarrow> 'a state_scheme
     \<Rightarrow> 'a state_scheme \<times> reply option" where
  "indexed L ok hs rest st =
     (case Option.bind (header_text hs ''x-auth-subject'') (\<lambda>sub. if sub = '''' then None else Some sub) of
        None \<Rightarrow> rest st
      | Some sub \<Rightarrow>
          (case session_of L (map_of hs ''cookie'') of
             None \<Rightarrow> (st, Some (plain 503))
           | Some k \<Rightarrow>
               (case record_session ok sub k (st_redis st) of
                  (r, Inl _) \<Rightarrow> (st\<lparr>st_redis := r\<rparr>, Some (plain 503))
                | (r, Inr _) \<Rightarrow> rest (st\<lparr>st_redis := r\<rparr>))))"

section \<open>Readiness and exposition\<close>

text \<open>Whether each dependency answered within its budget.\<close>

definition readyz :: "bool \<Rightarrow> bool \<Rightarrow> reply" where
  "readyz postgres_up redis_up =
     (let down = (if postgres_up then [] else [''postgres'']) @ (if redis_up then [] else [''redis''])
      in if down = [] then plain 200
         else with_text 503 (''unreachable: '' @ join_on CHR '' '' down @ [newline]))"

definition exposition :: "string \<Rightarrow> 'a state_scheme \<Rightarrow> reply" where
  "exposition version st =
     \<lparr>status = 200, response_headers = [(''content-type'', ''text/plain; version=0.0.4; charset=utf-8'')],
      body = Text (render version (dropped (sink (st_cache st))) (st_metrics st))\<rparr>"

section \<open>Lemmas\<close>

named_theorems reply_simps

lemma reply_status [reply_simps, simp]:
  "status (plain c) = c" "status (with_json c v) = c" "status (with_text c s) = c"
  "status (bad_request m) = 400"
  by (simp_all add: plain_def with_json_def with_text_def bad_request_def)

lemma caller_from_Some:
  "caller_from hs = Some c \<Longrightarrow>
     header_text hs ''x-auth-subject'' = Some (caller_sub c) \<and> caller_sub c \<noteq> ''''"
  by (auto simp: caller_from_def Let_def text_header_def split: option.splits if_splits)

lemma indexed_cases:
  obtains (anonymous) "caller_from hs = None" "indexed L ok hs rest st = rest st"
  | (refused) r where "indexed L ok hs rest st = (st\<lparr>st_redis := r\<rparr>, Some (plain 503))"
      "r = st_redis st \<or> (\<exists>sub k. session_of L (map_of hs ''cookie'') = Some k \<and> r = fst (record_session ok sub k (st_redis st)))"
  | (recorded) c k r where "caller_from hs = Some c" "session_of L (map_of hs ''cookie'') = Some k"
      "record_session ok (caller_sub c) k (st_redis st) = (r, Inr ())"
      "indexed L ok hs rest st = rest (st\<lparr>st_redis := r\<rparr>)"
proof (cases "Option.bind (header_text hs ''x-auth-subject'') (\<lambda>sub. if sub = '''' then None else Some sub)")
  case None
  then have "caller_from hs = None" "indexed L ok hs rest st = rest st"
    by (auto simp: caller_from_def text_header_def indexed_def Let_def split: option.splits if_splits)
  then show ?thesis by (rule that(1))
next
  case (Some sub)
  then have sub: "header_text hs ''x-auth-subject'' = Some sub" "sub \<noteq> ''''"
    by (auto simp: bind_eq_Some_conv split: if_splits)
  then obtain c where c: "caller_from hs = Some c" "caller_sub c = sub"
    by (auto simp: caller_from_def text_header_def Let_def)
  show ?thesis
  proof (cases "session_of L (map_of hs ''cookie'')")
    case None
    then have "indexed L ok hs rest st = (st\<lparr>st_redis := st_redis st\<rparr>, Some (plain 503))"
      using sub by (simp add: indexed_def)
    then show ?thesis by (rule that(2)) simp
  next
    case (Some k)
    obtain r res where r: "record_session ok sub k (st_redis st) = (r, res)"
      by (cases "record_session ok sub k (st_redis st)")
    show ?thesis
    proof (cases res)
      case (Inl e)
      then have "indexed L ok hs rest st = (st\<lparr>st_redis := r\<rparr>, Some (plain 503))"
        using sub r \<open>session_of L (map_of hs ''cookie'') = Some k\<close> by (simp add: indexed_def)
      moreover have "r = fst (record_session ok sub k (st_redis st))" using r by simp
      ultimately show ?thesis using that(2) Some by blast
    next
      case (Inr u)
      then have "indexed L ok hs rest st = rest (st\<lparr>st_redis := r\<rparr>)"
        using sub r Some by (simp add: indexed_def)
      then show ?thesis using that(3) [OF c(1) Some] c(2) r Inr by (cases u) simp
    qed
  qed
qed

end
