(* ===== verification/Portal.thy ===== *)
theory Portal
  imports Api
begin

text \<open>
  \<open>portal.rs\<close>: signing out, the list of applications and the signed-in user. The sign-out has the kill
  switch's four steps; each step's failure ends it.
\<close>

section \<open>Signing out\<close>

text \<open>
  What the world answers to one sign-out: oauth2-proxy, the three Redis commands, and the cache
  operations other tasks run before the entries are dropped.
\<close>

record logout_env =
  out_proxy :: "header_value \<Rightarrow> proxy_reply"
  out_del_ok :: bool
  out_publish_ok :: bool
  out_forget_ok :: bool
  out_others :: "cache_op list"

definition is_redirection :: "nat \<Rightarrow> bool" where
  "is_redirection code \<longleftrightarrow> 300 \<le> code \<and> code < 400"

definition logout ::
  "libs \<Rightarrow> string \<Rightarrow> logout_env \<Rightarrow> headers \<Rightarrow> 'a state_scheme \<Rightarrow> 'a state_scheme \<times> reply" where
  "logout L origin e hs st =
     (case caller_from hs of
        None \<Rightarrow> (st, plain 401)
      | Some caller \<Rightarrow>
          if \<not> from_portal hs origin then (st, plain 403)
          else (case map_of hs ''cookie'' of
                  None \<Rightarrow> (st, plain 503)
                | Some cookie \<Rightarrow>
                    (case session_of L (Some cookie) of
                       None \<Rightarrow> (st, plain 503)
                     | Some k \<Rightarrow>
                         (case out_proxy e cookie of
                            No_answer \<Rightarrow> (st, plain 503)
                          | Answered code _ \<Rightarrow>
                              if \<not> (is_success code \<or> is_redirection code) then (st, plain 503)
                              else (case drop_sessions (out_del_ok e) [k] (st_redis st) of
                                      (r, Inl _) \<Rightarrow> (st\<lparr>st_redis := r\<rparr>, plain 503)
                                    | (r, Inr _) \<Rightarrow>
                                        (let (r, announced) = publish_invalidation (out_publish_ok e) (caller_sub caller) r;
                                             c = run_ops (lib_hash L) (out_others e) (st_cache st);
                                             st = st\<lparr>st_redis := r, st_cache := drop_sub (caller_sub caller) c\<rparr>
                                         in case announced of
                                              Inl _ \<Rightarrow> (st, plain 503)
                                            | Inr _ \<Rightarrow>
                                                (case forget_session (out_forget_ok e) (caller_sub caller) k r of
                                                   (r, Inl _) \<Rightarrow> (st\<lparr>st_redis := r\<rparr>, plain 503)
                                                 | (r, Inr _) \<Rightarrow> (st\<lparr>st_redis := r\<rparr>, plain 204))))))))"

section \<open>The applications and the user\<close>

definition portal_app_json :: "portal_app \<Rightarrow> json" where
  "portal_app_json app = Object
     [(''slug'', String (portal_slug app)), (''name'', String (portal_name app)),
      (''icon'', case portal_icon app of None \<Rightarrow> Null | Some i \<Rightarrow> String i),
      (''url'', String (''https://'' @ portal_hostname app @ ''/''))]"

text \<open>The rows, or the query's failure; \<open>order\<close> is the database's \<open>order by a.name, a.slug\<close>.\<close>

definition reachable :: "time \<Rightarrow> portal_app list \<Rightarrow> portal_app list" where
  "reachable now found = filter (\<lambda>app. decide True (portal_rules app) ''/'' now = Allow) found"

definition apps ::
  "(application list \<Rightarrow> application list) \<Rightarrow> (application list \<times> entitlement list) option \<Rightarrow> time \<Rightarrow> headers \<Rightarrow> reply" where
  "apps order tables now hs =
     (case caller_from hs of
        None \<Rightarrow> plain 401
      | Some caller \<Rightarrow>
          (case tables of
             None \<Rightarrow> plain 503
           | Some (applications, entitlements) \<Rightarrow>
               with_json 200 (Array (map portal_app_json
                 (reachable now (portal_apps order applications entitlements (caller_sub caller) (caller_groups caller)))))))"

definition me :: "string \<Rightarrow> string \<Rightarrow> headers \<Rightarrow> reply" where
  "me admin auditor hs =
     (case caller_from hs of
        None \<Rightarrow> plain 401
      | Some c \<Rightarrow> with_json 200 (Object
          [(''sub'', String (caller_sub c)), (''username'', String (caller_username c)),
           (''email'', String (caller_email c)), (''groups'', Array (map String (caller_groups c))),
           (''admin'', Bool (in_group (caller_groups c) admin)),
           (''auditor'', Bool (in_group (caller_groups c) auditor))]))"

section \<open>What one sign-out leaves behind\<close>

lemma session_of_name: "session_of L cookie = Some k \<Longrightarrow> session_name k"
  by (auto simp: session_of_def bind_eq_Some_conv intro: session_key_name)

text \<open>The steps taken once oauth2-proxy signed the browser out: which of them ran, and the reply.\<close>

lemma logout_cases:
  assumes "logout L origin e hs st = (st', r)"
  obtains (early) "st' = st" "status r \<in> {401, 403, 503}"
  | (deleting) "out_del_ok e = False" "st' = st" "status r = 503"
  | (cut) c cookie k red rpub rfor where
      "caller_from hs = Some c" "from_portal hs origin" "map_of hs ''cookie'' = Some cookie"
      "session_of L (Some cookie) = Some k"
      "drop_sessions (out_del_ok e) [k] (st_redis st) = (red, Inr ())"
      "publish_invalidation (out_publish_ok e) (caller_sub c) red = (rpub, if out_publish_ok e then Inr () else Inl Redis_error)"
      "forget_session (out_forget_ok e) (caller_sub c) k rpub = (rfor, if out_forget_ok e then Inr () else Inl Redis_error)"
      "st_cache st' = drop_sub (caller_sub c) (run_ops (lib_hash L) (out_others e) (st_cache st))"
      "st_redis st' = (if out_publish_ok e then rfor else rpub)"
      "status r = (if out_publish_ok e \<and> out_forget_ok e then 204 else 503)"
      "st' = st\<lparr>st_redis := st_redis st', st_cache := st_cache st'\<rparr>"
proof (cases "caller_from hs")
  case None
  then show ?thesis using assms that(1) by (auto simp: logout_def)
next
  case c: (Some c)
  show ?thesis
  proof (cases "from_portal hs origin \<and> map_of hs ''cookie'' \<noteq> None \<and> session_of L (map_of hs ''cookie'') \<noteq> None")
    case False
    then show ?thesis using assms c that(1) by (auto simp: logout_def split: option.splits if_splits)
  next
    case True
    then obtain cookie k where k: "from_portal hs origin" "map_of hs ''cookie'' = Some cookie"
      "session_of L (Some cookie) = Some k" by auto
    show ?thesis
    proof (cases "\<exists>code h. out_proxy e cookie = Answered code h \<and> (is_success code \<or> is_redirection code)")
      case False
      then show ?thesis using assms c k that(1) by (auto simp: logout_def split: proxy_reply.splits if_splits)
    next
      case True
      then obtain code h where signed: "out_proxy e cookie = Answered code h" "is_success code \<or> is_redirection code"
        by blast
      show ?thesis
      proof (cases "out_del_ok e")
        case False
        then show ?thesis
          using assms c k signed that(2) by (auto simp: logout_def drop_sessions_def)
      next
        case del: True
        define red where "red = redis_del [k] (st_redis st)"
        obtain rpub res where pub: "publish_invalidation (out_publish_ok e) (caller_sub c) red = (rpub, res)" by force
        obtain rfor res2 where fgt: "forget_session (out_forget_ok e) (caller_sub c) k rpub = (rfor, res2)" by force
        have d: "drop_sessions (out_del_ok e) [k] (st_redis st) = (red, Inr ())"
          using del by (simp add: drop_sessions_def red_def)
        have res: "res = (if out_publish_ok e then Inr () else Inl Redis_error)"
          "res2 = (if out_forget_ok e then Inr () else Inl Redis_error)"
          using pub fgt by (auto simp: publish_invalidation_def forget_session_def Let_def split: if_splits)
        have "logout L origin e hs st =
          (let st1 = st\<lparr>st_redis := rpub,
                 st_cache := drop_sub (caller_sub c) (run_ops (lib_hash L) (out_others e) (st_cache st))\<rparr>
           in if \<not> out_publish_ok e then (st1, plain 503)
              else (st1\<lparr>st_redis := rfor\<rparr>, if out_forget_ok e then plain 204 else plain 503))"
          using c k signed d pub fgt res by (simp add: logout_def Let_def)
        then have "st_cache st' = drop_sub (caller_sub c) (run_ops (lib_hash L) (out_others e) (st_cache st))"
          "st_redis st' = (if out_publish_ok e then rfor else rpub)"
          "status r = (if out_publish_ok e \<and> out_forget_ok e then 204 else 503)"
          "st' = st\<lparr>st_redis := st_redis st', st_cache := st_cache st'\<rparr>"
          using assms by (auto simp: Let_def split: if_splits)
        then show ?thesis using that(3) [OF c k d] pub fgt res by simp
      qed
    qed
  qed
qed

text \<open>Sign-out as a revocation of one session: what the index and the session store hold afterwards.\<close>

lemma cache_ok_runs: "cache_ok c \<Longrightarrow> cache_ok (run_ops hash ops c)"
  by (induction ops rule: rev_induct) (simp_all add: cache_ok_apply)

lemma logout_failed:
  assumes "logout L origin e hs st = (st', r)" "status r \<noteq> 204" "index_ok (st_redis st)"
  shows "members (index_key sub) (st_redis st') = members (index_key sub) (st_redis st)"
  using assms(1)
proof (cases rule: logout_cases)
  case (cut c cookie k red rpub rfor)
  have "list_all session_name [k]" using session_of_name cut by auto
  note frames = drop_sessions_members(1) [OF cut(5) this, of sub] publish_frame(3) [OF cut(6), of "index_key sub"]
    forget_session_frame(4) [OF cut(7), of sub]
  show ?thesis using frames cut(9,10) assms(2) by (auto split: if_splits)
qed simp_all

text \<open>What a sign-out that answers 204 has done.\<close>

definition signed_out ::
  "libs \<Rightarrow> string \<Rightarrow> headers \<Rightarrow> 'a state_scheme \<Rightarrow> 'b state_scheme \<Rightarrow> caller \<Rightarrow> string \<Rightarrow> bool" where
  "signed_out L origin hs st st' c k \<longleftrightarrow>
     caller_from hs = Some c \<and> session_of L (map_of hs ''cookie'') = Some k \<and> from_portal hs origin
     \<and> present (st_redis st') = filter (\<lambda>x. x \<noteq> k) (present (st_redis st))
     \<and> (\<forall>sub. members (index_key sub) (st_redis st') =
           (if sub = caller_sub c then removeAll k (members (index_key sub) (st_redis st))
            else members (index_key sub) (st_redis st)))
     \<and> (\<forall>x. owner x (st_cache st') \<noteq> Some (caller_sub c))
     \<and> published (st_redis st') = published (st_redis st) @ [(INVALIDATE_CHANNEL, caller_sub c)]"

lemma logout_succeeded:
  assumes "logout L origin e hs st = (st', r)" "status r = 204" "cache_ok (st_cache st)"
  shows "\<exists>c k. signed_out L origin hs st st' c k"
  using assms(1)
proof (cases rule: logout_cases)
  case (cut c cookie k red rpub rfor)
  have ok: "out_publish_ok e" "out_forget_ok e" using cut(10) assms(2) by (auto split: if_splits)
  have "list_all session_name [k]" using session_of_name cut by auto
  note del = drop_sessions_members [OF cut(5) this]
  note pub = publish_frame [OF cut(6)]
  note fgt = forget_session_frame [OF cut(7)]
  have r: "st_redis st' = rfor" using cut(9) ok by simp
  have "present (st_redis st') = filter (\<lambda>x. x \<noteq> k) (present (st_redis st))"
    using r del(4) pub(2) fgt(3) by (simp cong: filter_cong)
  moreover have "members (index_key sub) (st_redis st') =
      (if sub = caller_sub c then removeAll k (members (index_key sub) (st_redis st))
       else members (index_key sub) (st_redis st))" for sub
    using r del(1) pub(3) fgt(4) ok by simp
  moreover have "published (st_redis st') = published (st_redis st) @ [(INVALIDATE_CHANNEL, caller_sub c)]"
    using r del(2) pub(4) fgt(2) ok by simp
  moreover have "owner x (st_cache st') \<noteq> Some (caller_sub c)" for x
    using decisions.owner_drop [OF cache_ok_runs [OF assms(3)]] cut(8) by metis
  ultimately have "signed_out L origin hs st st' c k"
    unfolding signed_out_def using cut(1-4) by simp
  then show ?thesis by blast
qed (use assms(2) in simp_all)

section \<open>A concrete session\<close>

definition sample_cookie :: string where
  "sample_cookie = ''_oauth2_proxy='' @ sample_signed"

definition sample_browser :: headers where
  "sample_browser = [(''x-auth-subject'', ''u1''), (''x-auth-username'', ''ada''), (''x-auth-groups'', ''staff''),
     (''origin'', ''https://portal''), (''cookie'', sample_cookie)]"

lemma sample_session: "session_of sample_libs (Some sample_cookie) = Some ''_oauth2_proxy-a1''"
proof -
  let ?c = "''_oauth2_proxy='' @ sample_signed"
  have signed: "list_all (\<lambda>b. b \<noteq> CHR '';'' \<and> 32 \<le> byte b \<and> byte b < 127) sample_signed"
    using percent_encode_visible unfolding sample_signed_def list_all_append by (auto simp: list_all_iff)
  then have txt_ok: "to_str ?c = Some ?c" by (auto simp: to_str_def list_all_iff)
  have "CHR '';'' \<notin> set ?c" using signed by (auto simp: list_all_iff)
  then have pieces: "split_on CHR '';'' ?c = [?c]" by (rule split_on_no_sep)
  have "str_trim ''_oauth2_proxy'' = ''_oauth2_proxy''" by (simp add: trims)
  then have "session_cookie (Some ?c) = Inr (Some sample_signed)"
    using pieces by (simp add: session_cookie_def scan_cookie_def split_once_def COOKIE_NAME_def)
  then show ?thesis
    using txt_ok sample_signed_key by (simp add: session_of_def sample_libs_def sample_cookie_def)
qed

section \<open>Properties\<close>


definition sample_index :: redis where
  "sample_index = \<lparr>sets = [index_key ''u1'' \<mapsto> [''_oauth2_proxy-a1'', ''_oauth2_proxy-b2'']],
     present = [''_oauth2_proxy-a1'', ''_oauth2_proxy-b2''], expiry = Map.empty, published = []\<rparr>"

definition sample_logout_env :: logout_env where
  "sample_logout_env = \<lparr>out_proxy = (\<lambda>_. Answered 302 []), out_del_ok = True, out_publish_ok = True,
     out_forget_ok = True, out_others = []\<rparr>"

lemma sample_index_ok: "index_ok sample_index"
  by (auto simp: index_ok_def members_def sample_index_def session_name_def COOKIE_NAME_def)

lemma sample_caller:
  "caller_from sample_browser =
     Some \<lparr>caller_sub = ''u1'', caller_username = ''ada'', caller_email = '''', caller_groups = [''staff'']\<rparr>"
  "map_of sample_browser ''cookie'' = Some sample_cookie"
  "from_portal sample_browser ''https://portal''"
  by (simp_all add: caller_from_def text_header_def header_text_def sample_browser_def to_str_def Let_def
      from_portal_def)


text \<open>The slugs a reply of \<open>/api/apps\<close> lists.\<close>

definition listed_slugs :: "reply \<Rightarrow> string list" where
  "listed_slugs r =
     (case body r of Json v \<Rightarrow> List.map_filter (\<lambda>app. as_str (json_get app ''slug'')) (elements v) | _ \<Rightarrow> [])"

lemma listed_slugs_apps:
  assumes "caller_from hs = Some c"
  shows "listed_slugs (apps order (Some (as, es)) now hs) =
    map portal_slug (reachable now (portal_apps order as es (caller_sub c) (caller_groups c)))"
  by (simp add: apps_def assms listed_slugs_def with_json_def elements_def map_filter_def portal_app_json_def comp_def)

lemma caller_from_identity:
  assumes "map_of hs ''x-auth-subject'' = Some (id_sub i)" "map_of hs ''x-auth-groups'' = Some (id_groups i)"
    and "text_or_default (id_sub i) \<noteq> ''''"
  obtains c where "caller_from hs = Some c" "caller_sub c = text_or_default (id_sub i)" "caller_groups c = groups_of i"
  using assms by (auto simp: caller_from_def text_header_def header_text_def groups_of_def text_or_default_def
      Let_def split: option.splits)

text \<open>C34: the portal shows a button exactly when the button opens: with the identity headers \<open>/decide\<close>
  hands to nginx, an application is in the portal's list if and only if a decision filled from the
  same rows allows its root.\<close>

theorem portal_button_opens:
  assumes "distinct (map slug as)" "\<And>xs. mset (order xs) = mset xs" "a \<in> set as"
    and "map_of hs ''x-auth-subject'' = Some (id_sub i)" "map_of hs ''x-auth-groups'' = Some (id_groups i)"
    and "text_or_default (id_sub i) \<noteq> ''''"
    and "database e = Db_rows as es" "req_slug request = slug a" "req_uri request = ''/''"
  shows "slug a \<in> set (listed_slugs (apps order (Some (as, es)) (now_decide e) hs)) \<longleftrightarrow>
    (\<exists>v. load e request i = Inr v \<and> verdict e request v = Allow)"
proof -
  obtain c where c: "caller_from hs = Some c" "caller_sub c = text_or_default (id_sub i)" "caller_groups c = groups_of i"
    using caller_from_identity [OF assms(4-6)] .
  have disabled: "decide False rs p n \<noteq> Allow" for rs p n by (simp add: decide_def split: sum.split)
  let ?rules = "map rule_of (filter (applicable (app_id a) (caller_groups c) (caller_sub c)) es)"
  have m: "set (order (filter enabled as)) = {b \<in> set as. enabled b}"
    using mset_eq_setD [OF assms(2) [of "filter enabled as"]] by simp
  have "distinct (map slug (order (filter enabled as)))"
    using distinct_map_filter [OF assms(1)] assms(2) by (metis mset_map mset_eq_imp_distinct_iff)
  from portal_apps_eq [of order, OF this]
  have "slug a \<in> set (listed_slugs (apps order (Some (as, es)) (now_decide e) hs)) \<longleftrightarrow>
      (\<exists>b. b \<in> set as \<and> enabled b \<and> slug b = slug a \<and> decide True
        (map rule_of (filter (applicable (app_id b) (caller_groups c) (caller_sub c)) es)) ''/'' (now_decide e) = Allow)"
    unfolding listed_slugs_apps [OF c(1)] reachable_def
    by (auto simp: portal_app_of_def m image_iff intro: rev_bexI)
  also have "\<dots> \<longleftrightarrow> enabled a \<and> decide True ?rules ''/'' (now_decide e) = Allow"
    using assms(1,3) by (auto dest: eq_key_imp_eq_value simp: inj_on_eq_iff distinct_map)
  also have "\<dots> \<longleftrightarrow> (\<exists>v. load e request i = Inr v \<and> verdict e request v = Allow)"
    using rules_for_row [OF assms(1,3), of es "caller_sub c" "caller_groups c"] assms(7-9) c
    by (cases "enabled a") (simp_all add: load_def verdict_def disabled)
  finally show ?thesis .
qed

theorem portal_button_opens_witness:
  "''wiki'' \<in> set (listed_slugs (apps id (Some ([sample_app], sample_entitlements)) 0
     [(''x-auth-subject'', id_sub sample_identity), (''x-auth-groups'', id_groups sample_identity)]))"
proof -
  let ?e = "sample_env\<lparr>database := Db_rows [sample_app] sample_entitlements\<rparr>"
  let ?r = "\<lparr>req_key = None, req_slug = ''wiki'', req_uri = ''/'', req_audit_path = '''',
      req_src_ip = None, req_request_id = None\<rparr>"
  let ?v = "\<lparr>cached_identity = sample_identity, cached_rules = example_rules, cached_enabled = True,
      cached_application_id = Some 1\<rparr>"
  have "groups_of sample_identity = [''staff'']" "text_or_default (id_sub sample_identity) = ''u1''"
    by (simp_all add: groups_of_def text_or_default_def to_str_def sample_identity_def)
  then have "load ?e ?r sample_identity = Inr ?v"
    by (simp add: load_def rules_for_def sample_app_def sample_entitlements_def applicable_def rule_of_def
        effect_of_def example_rules_def)
  moreover have "decide True example_rules ''/'' 0 = Allow" by code_simp
  then have "verdict ?e ?r ?v = Allow" by (simp add: verdict_def sample_env_def)
  moreover note portal_button_opens [of "[sample_app]" id sample_app
      "[(''x-auth-subject'', id_sub sample_identity), (''x-auth-groups'', id_groups sample_identity)]"
      sample_identity ?e sample_entitlements ?r]
  ultimately show ?thesis
    by (auto simp: text_or_default_def to_str_def sample_identity_def sample_app_def sample_env_def)
qed

end
