(* ===== verification/Kill_Switch.thy ===== *)
theory Kill_Switch
  imports Portal
begin

text \<open>
  The part of \<open>admin.rs\<close> that is not about rows: the guard in front of every management endpoint, the
  kill switch, the user list and the reset of a second factor. Keycloak, Redis and the other tasks are
  arguments. Two contracts are stated as locales: a revocation that is attempted until it succeeds,
  interpreted by the kill switch and by the sign-out.
\<close>

section \<open>The guard\<close>

definition reads_only :: "http_method \<Rightarrow> bool" where
  "reads_only m \<longleftrightarrow> m = GET \<or> m = HEAD"

definition guard :: "ctx \<Rightarrow> http_method \<Rightarrow> headers \<Rightarrow> ('s \<Rightarrow> 's \<times> reply option) \<Rightarrow> 's \<Rightarrow> 's \<times> reply option" where
  "guard x m hs rest s =
     (case caller_from hs of
        None \<Rightarrow> (s, Some (plain 401))
      | Some caller \<Rightarrow>
          if \<not> may_manage (caller_groups caller) (admin_group x) (auditor_group x) (reads_only m) then
            (s, Some (plain 403))
          else if \<not> reads_only m \<and> \<not> from_portal hs (portal_origin x) then (s, Some (plain 403))
          else rest s)"

section \<open>The kill switch\<close>

text \<open>What the world answers to one call, the texts of its errors included.\<close>

record kill_env =
  kill_world :: world
  kill_read_ok :: bool
  kill_del_ok :: bool
  kill_publish_ok :: bool
  kill_forget_ok :: bool
  kill_redis_error :: string
  kill_others :: "cache_op list"

definition step_failed :: "string \<Rightarrow> string \<Rightarrow> reply" where
  "step_failed step_name why = with_json 503 (Object [(''error'', String why), (''step'', String step_name)])"

definition kill ::
  "kc_libs \<Rightarrow> (string \<Rightarrow> 64 word) \<Rightarrow> ctx \<Rightarrow> kill_env \<Rightarrow> uuid \<Rightarrow> system \<Rightarrow> system \<times> reply" where
  "kill lib hash x e uid s =
     (case logout_all lib (kill_world e) (ctx_keycloak x) uid (sys_sent s) of
        (log, Inl NoSuchUser) \<Rightarrow>
          (s\<lparr>sys_sent := log\<rparr>, with_json 404 (error_json (logout_error_text NoSuchUser)))
      | (log, Inl err) \<Rightarrow>
          (s\<lparr>sys_sent := log\<rparr>, step_failed ''keycloak_logout_all'' (logout_error_text err))
      | (log, Inr _) \<Rightarrow>
          (let s = s\<lparr>sys_sent := log\<rparr>; sub = show_uuid lib uid
           in case sessions (kill_read_ok e) sub (st_redis s) of
                Inl _ \<Rightarrow> (s, step_failed ''read_session_index'' (kill_redis_error e))
              | Inr ks \<Rightarrow>
                  (case drop_sessions (kill_del_ok e) ks (st_redis s) of
                     (r, Inl _) \<Rightarrow> (s\<lparr>st_redis := r\<rparr>, step_failed ''delete_sessions'' (kill_redis_error e))
                   | (r, Inr _) \<Rightarrow>
                       (let (r, announced) = publish_invalidation (kill_publish_ok e) sub r;
                            c = run_ops hash (kill_others e) (st_cache s);
                            s = s\<lparr>st_redis := r, st_cache := drop_sub sub c\<rparr>
                        in case announced of
                             Inl _ \<Rightarrow> (s, step_failed ''publish_invalidation'' (kill_redis_error e))
                           | Inr _ \<Rightarrow>
                               (case forget (kill_forget_ok e) sub r of
                                  (r, Inl _) \<Rightarrow>
                                    (s\<lparr>st_redis := r\<rparr>, step_failed ''forget_index_entry'' (kill_redis_error e))
                                | (r, Inr _) \<Rightarrow>
                                    (s\<lparr>st_redis := r\<rparr>,
                                     with_json 200 (Object [(''sessions'', Number (int (length ks)))])))))))"

section \<open>The users\<close>

definition PAGE :: nat where
  "PAGE = 50"

text \<open>\<open>u32::saturating_mul\<close>.\<close>

definition saturating_mul32 :: "nat \<Rightarrow> nat \<Rightarrow> nat" where
  "saturating_mul32 a b = min (2 ^ 32 - 1) (a * b)"

definition user_json :: "kc_user \<Rightarrow> json" where
  "user_json u = Object
     [(''sub'', String (user_sub u)), (''username'', String (user_username u)), (''email'', String (user_email u)),
      (''totp'', Bool (user_totp u)), (''privileged'', Bool (user_privileged u))]"

definition list_users ::
  "kc_libs \<Rightarrow> ctx \<Rightarrow> world \<Rightarrow> string \<Rightarrow> nat \<Rightarrow> system \<Rightarrow> system \<times> reply" where
  "list_users lib x w raw page s =
     (let search = str_trim raw
      in if length (chars_of search) > 100 then (s, bad_request ''the search is too long'')
         else (case users lib w (ctx_keycloak x) search (saturating_mul32 page PAGE) PAGE
                      [admin_group x, auditor_group x] (sys_sent s) of
                 (log, Inr us) \<Rightarrow> (s\<lparr>sys_sent := log\<rparr>, with_json 200 (Array (map user_json us)))
               | (log, Inl why) \<Rightarrow> (s\<lparr>sys_sent := log\<rparr>, with_json 503 (error_json why))))"

section \<open>Resetting a second factor\<close>

text \<open>No reply at all is a panic of the request's task.\<close>

definition reset_second_factor ::
  "kc_libs \<Rightarrow> ctx \<Rightarrow> world \<Rightarrow> headers \<Rightarrow> string \<Rightarrow> system \<Rightarrow> system \<times> reply option" where
  "reset_second_factor lib x w hs raw s =
     (case caller_from hs of
        None \<Rightarrow> (s, Some (plain 401))
      | Some caller \<Rightarrow>
          (let username = str_trim raw
           in if username = '''' \<or> length (chars_of username) > 255 then
                (s, Some (bad_request ''a username is required''))
              else (case target lib w (ctx_keycloak x) username (sys_sent s) of
                      (log, Inl Panicked) \<Rightarrow> (s\<lparr>sys_sent := log\<rparr>, None)
                    | (log, Inl (Failed why)) \<Rightarrow> (s\<lparr>sys_sent := log\<rparr>, Some (with_json 503 (error_json why)))
                    | (log, Inr None) \<Rightarrow>
                        (s\<lparr>sys_sent := log\<rparr>, Some (with_json 404 (error_json ''no such user in the realm'')))
                    | (log, Inr (Some t)) \<Rightarrow>
                        (case may_reset_second_factor (to_ascii_lowercase (caller_sub caller))
                                (show_uuid lib (target_id t)) (target_groups t) (admin_group x) (auditor_group x) of
                           Inl why \<Rightarrow> (s\<lparr>sys_sent := log\<rparr>, Some (with_json 403 (error_json why)))
                         | Inr _ \<Rightarrow>
                             (case delete_otp lib w (ctx_keycloak x) (target_id t) log of
                                (log, Inr removed) \<Rightarrow>
                                  (s\<lparr>sys_sent := log\<rparr>,
                                   Some (with_json 200 (Object [(''removed'', Number (int removed))])))
                              | (log, Inl why) \<Rightarrow>
                                  (s\<lparr>sys_sent := log\<rparr>, Some (with_json 503 (error_json why))))))))"

section \<open>Revocation by repeated attempts\<close>

text \<open>
  The contract the kill switch and the sign-out share: an attempt that fails leaves the list of what to
  delete as it was, one that succeeds has deleted all of it, and none of them brings a session back.
\<close>

locale revocation =
  fixes attempt :: "'e \<Rightarrow> 's \<Rightarrow> 's \<times> bool"
    and listed :: "'s \<Rightarrow> string set"
    and existing :: "'s \<Rightarrow> string set"
    and good :: "'s \<Rightarrow> bool"
  assumes attempt_good: "good s \<Longrightarrow> good (fst (attempt e s))"
    and none_return: "good s \<Longrightarrow> existing (fst (attempt e s)) \<subseteq> existing s"
    and failed_keeps: "good s \<Longrightarrow> attempt e s = (s', False) \<Longrightarrow> listed s' = listed s"
    and done_cuts: "good s \<Longrightarrow> attempt e s = (s', True) \<Longrightarrow> existing s' \<inter> listed s = {}"
begin

definition attempts :: "'e list \<Rightarrow> 's \<Rightarrow> 's" where
  "attempts es s = fold (\<lambda>e s. fst (attempt e s)) es s"

lemma attempts_good: "good s \<Longrightarrow> good (attempts es s)"
  unfolding attempts_def by (induction es arbitrary: s) (simp_all add: attempt_good)

lemma attempts_none_return: "good s \<Longrightarrow> existing (attempts es s) \<subseteq> existing s"
proof (induction es arbitrary: s)
  case (Cons e es)
  have "existing (attempts es (fst (attempt e s))) \<subseteq> existing (fst (attempt e s))"
    using Cons attempt_good by blast
  then show ?case using none_return [OF Cons.prems, of e] by (auto simp: attempts_def)
qed (simp add: attempts_def)

text \<open>However many attempts failed before, the one that succeeds has cut everything listed at the start.\<close>

lemma success_cuts_all:
  assumes "good s" "attempt e (attempts es s) = (s', True)"
  shows "existing s' \<inter> listed s = {}"
  using assms
proof (induction es arbitrary: s)
  case Nil
  then show ?case using done_cuts by (simp add: attempts_def)
next
  case (Cons d es)
  obtain s1 b where d: "attempt d s = (s1, b)" by (cases "attempt d s")
  have s1: "attempts (d # es) s = attempts es s1" using d by (simp add: attempts_def)
  have good1: "good s1" using attempt_good [OF Cons.prems(1), of d] d by simp
  show ?case
  proof (cases b)
    case False
    then show ?thesis using Cons.IH [OF good1] Cons.prems(2) s1 failed_keeps [OF Cons.prems(1)] d by metis
  next
    case True
    have "existing s' \<subseteq> existing s1"
      using attempts_none_return [OF good1, of es] none_return [OF attempts_good [OF good1], of e es]
        Cons.prems(2) s1 by (metis fst_conv subset_trans)
    then show ?thesis using done_cuts [OF Cons.prems(1), of d s1] d True by auto
  qed
qed

end

section \<open>What one call leaves behind\<close>

lemma kill_cases:
  assumes "kill lib hash x e uid s = (s', r)"
  obtains (early) "st_redis s' = st_redis s" "st_cache s' = st_cache s" "status r \<in> {404, 503}"
  | (cut) log rdel rpub rfor where
      "logout_all lib (kill_world e) (ctx_keycloak x) uid (sys_sent s) = (log, Inr ())" "sys_sent s' = log"
      "drop_sessions (kill_del_ok e) (members (index_key (show_uuid lib uid)) (st_redis s)) (st_redis s) = (rdel, Inr ())"
      "publish_invalidation (kill_publish_ok e) (show_uuid lib uid) rdel =
        (rpub, if kill_publish_ok e then Inr () else Inl Redis_error)"
      "forget (kill_forget_ok e) (show_uuid lib uid) rpub = (rfor, if kill_forget_ok e then Inr () else Inl Redis_error)"
      "st_cache s' = drop_sub (show_uuid lib uid) (run_ops hash (kill_others e) (st_cache s))"
      "st_redis s' = (if kill_publish_ok e then rfor else rpub)"
      "status r = (if kill_publish_ok e \<and> kill_forget_ok e then 200 else 503)"
proof -
  let ?sub = "show_uuid lib uid"
  obtain log out where l: "logout_all lib (kill_world e) (ctx_keycloak x) uid (sys_sent s) = (log, out)" by force
  show ?thesis
  proof (cases "(\<exists>u. out = Inr u) \<and> kill_read_ok e
      \<and> (\<exists>rdel. drop_sessions (kill_del_ok e) (members (index_key ?sub) (st_redis s)) (st_redis s) = (rdel, Inr ()))")
    case False
    then have "st_redis s' = st_redis s \<and> st_cache s' = st_cache s \<and> status r \<in> {404, 503}"
      using assms l by (auto simp: kill_def sessions_def step_failed_def Let_def drop_sessions_def
          split: sum.splits logout_error.splits if_splits)
    then show ?thesis using that(1) by blast
  next
    case True
    then obtain rdel where t: "out = Inr ()" "kill_read_ok e"
      "drop_sessions (kill_del_ok e) (members (index_key ?sub) (st_redis s)) (st_redis s) = (rdel, Inr ())" by auto
    obtain rpub res where pub: "publish_invalidation (kill_publish_ok e) ?sub rdel = (rpub, res)" by force
    obtain rfor res2 where fgt: "forget (kill_forget_ok e) ?sub rpub = (rfor, res2)" by force
    have res: "res = (if kill_publish_ok e then Inr () else Inl Redis_error)"
      "res2 = (if kill_forget_ok e then Inr () else Inl Redis_error)"
      using pub fgt by (auto simp: publish_invalidation_def forget_def split: if_splits)
    have "sys_sent s' = log" "st_cache s' = drop_sub ?sub (run_ops hash (kill_others e) (st_cache s))"
      "st_redis s' = (if kill_publish_ok e then rfor else rpub)"
      "status r = (if kill_publish_ok e \<and> kill_forget_ok e then 200 else 503)"
      using assms l t pub fgt res
      by (auto simp: kill_def sessions_def step_failed_def Let_def split: if_splits)
    then show ?thesis using that(2) l t pub fgt res by simp
  qed
qed

text \<open>What a call does to the index and to the sessions of user \<open>sub\<close>; \<open>finished\<close> is whether it answers 200.\<close>

definition redis_after_kill :: "string \<Rightarrow> bool \<Rightarrow> redis \<Rightarrow> redis \<Rightarrow> bool" where
  "redis_after_kill sub finished r r' \<longleftrightarrow>
     set (present r') \<subseteq> set (present r)
     \<and> (\<forall>t. members (index_key t) r' = (if t = sub \<and> finished then [] else members (index_key t) r))
     \<and> (\<forall>k. session_name k \<longrightarrow> k \<in> set (present r) \<longrightarrow> k \<notin> set (members (index_key sub) r) \<longrightarrow> k \<in> set (present r'))
     \<and> (finished \<longrightarrow> (\<forall>k\<in>set (members (index_key sub) r). k \<notin> set (present r'))
          \<and> published r' = published r @ [(INVALIDATE_CHANNEL, sub)])"

lemma kill_redis:
  assumes "kill lib hash x e uid s = (s', r)" "index_ok (st_redis s)"
  shows "redis_after_kill (show_uuid lib uid) (status r = 200) (st_redis s) (st_redis s')"
  using assms(1)
proof (cases rule: kill_cases)
  case (cut log rdel rpub rfor)
  let ?sub = "show_uuid lib uid"
  have names: "list_all session_name (members (index_key ?sub) (st_redis s))"
    using assms(2) by (simp add: index_ok_def)
  note del = drop_sessions_members [OF cut(3) names]
  note pub = publish_frame [OF cut(4)]
  note fgt = forget_frame [OF cut(5)]
  have p: "present rdel = filter (\<lambda>k. k \<notin> set (members (index_key ?sub) (st_redis s))) (present (st_redis s))"
    using del(4) by simp
  have "set (present (st_redis s')) \<subseteq> set (present rdel)" using cut(7) pub(2) fgt(4) by auto
  moreover have "members (index_key t) (st_redis s') =
      (if t = ?sub \<and> status r = 200 then [] else members (index_key t) (st_redis s))" for t
    using cut(7,8) del(1) pub(3) fgt(1,3) by (auto split: if_splits)
  moreover have "k \<in> set (present (st_redis s'))"
    if "session_name k" "k \<in> set (present (st_redis s))" "k \<notin> set (members (index_key ?sub) (st_redis s))" for k
    using that cut(7) p pub(2) fgt(5) [OF session_name_not_index] by auto
  moreover have "status r = 200 \<Longrightarrow> published (st_redis s') = published (st_redis s) @ [(INVALIDATE_CHANNEL, ?sub)]"
    using cut(7,8) del(2) pub(4) fgt(2) by (auto split: if_splits)
  ultimately show ?thesis unfolding redis_after_kill_def p set_filter by blast
qed (auto simp: redis_after_kill_def)

lemma kill_cache:
  assumes "kill lib hash x e uid s = (s', r)" "status r = 200" "cache_ok (st_cache s)"
  shows "owner k (st_cache s') \<noteq> Some (show_uuid lib uid) \<and>
    logout_all lib (kill_world e) (ctx_keycloak x) uid (sys_sent s) = (sys_sent s', Inr ())"
  using assms(1)
proof (cases rule: kill_cases)
  case (cut log rdel rpub rfor)
  have "owner k (st_cache s') \<noteq> Some (show_uuid lib uid)"
    using decisions.owner_drop [OF cache_ok_runs [OF assms(3)]] cut(6) by metis
  then show ?thesis using cut(1,2) by simp
qed (use assms(2) in auto)

lemma index_ok_kill:
  assumes "kill lib hash x e uid s = (s', r)" "index_ok (st_redis s)"
  shows "index_ok (st_redis s')"
  using assms(2) kill_redis [OF assms] by (simp add: index_ok_def redis_after_kill_def)

interpretation kill_switch: revocation
  "\<lambda>e s. (fst (kill lib hash x e uid s), status (snd (kill lib hash x e uid s)) = 200)"
  "\<lambda>s. set (members (index_key (show_uuid lib uid)) (st_redis s))"
  "\<lambda>s. set (present (st_redis s))"
  "\<lambda>s. index_ok (st_redis s)"
  for lib hash x uid
proof (unfold_locales, goal_cases)
  case (1 s e)
  then show ?case using index_ok_kill [OF surjective_pairing] by simp
next
  case (2 s e)
  then show ?case using kill_redis [OF surjective_pairing] unfolding redis_after_kill_def by simp
next
  case (3 s e s')
  then show ?case using kill_redis [OF surjective_pairing 3(1), where e = e and uid = uid]
    unfolding redis_after_kill_def by auto
next
  case (4 s e s')
  then show ?case using kill_redis [OF surjective_pairing 4(1), where e = e and uid = uid]
    unfolding redis_after_kill_def by auto
qed

text \<open>The sign-out, for the one session its cookie names.\<close>

definition own_session :: "libs \<Rightarrow> headers \<Rightarrow> 'a state_scheme \<Rightarrow> string set" where
  "own_session L hs st =
     (case (caller_from hs, session_of L (map_of hs ''cookie'')) of
        (Some c, Some k) \<Rightarrow> {k} \<inter> set (members (index_key (caller_sub c)) (st_redis st))
      | _ \<Rightarrow> {})"

lemma logout_shrinks:
  assumes "logout L origin e hs st = (st', r)" "index_ok (st_redis st)" "cache_ok (st_cache st)"
  shows "set (present (st_redis st')) \<subseteq> set (present (st_redis st)) \<and> index_ok (st_redis st') \<and> cache_ok (st_cache st')"
  using assms(1)
proof (cases rule: logout_cases)
  case (cut c cookie k red rpub rfor)
  have "list_all session_name [k]" using session_of_name cut by auto
  note del = drop_sessions_members [OF cut(5) this]
  note pub = publish_frame [OF cut(6)]
  note fgt = forget_session_frame [OF cut(7)]
  have "set (members (index_key t) (st_redis st')) \<subseteq> set (members (index_key t) (st_redis st))" for t
    using cut(9) del(1) pub(3) fgt(4) by auto
  then have "index_ok (st_redis st')" using assms(2) unfolding index_ok_def list_all_iff by blast
  moreover have "cache_ok (st_cache st')" using cut(8) by (simp add: cache_ok_drop cache_ok_runs assms(3))
  ultimately show ?thesis using cut(9) del(3) pub(2) fgt(3) by auto
qed (use assms in auto)

interpretation sign_out: revocation
  "\<lambda>e st. (fst (logout L origin e hs st), status (snd (logout L origin e hs st)) = 204)"
  "own_session L hs"
  "\<lambda>st. set (present (st_redis st))"
  "\<lambda>st :: 'a state_scheme. index_ok (st_redis st) \<and> cache_ok (st_cache st)"
  for L origin hs
proof (unfold_locales, goal_cases)
  case (1 st e)
  then show ?case using logout_shrinks [OF surjective_pairing, where L = L and origin = origin and e = e and hs = hs and st = st]
    unfolding fst_conv by blast
next
  case (2 st e)
  then show ?case using logout_shrinks [OF surjective_pairing, where L = L and origin = origin and e = e and hs = hs and st = st]
    unfolding fst_conv by blast
next
  case (3 st e st')
  then have "members (index_key t) (st_redis st') = members (index_key t) (st_redis st)" for t
    using logout_failed [OF surjective_pairing, of L origin e hs st t] by simp
  then show ?case by (simp add: own_session_def split: option.split)
next
  case (4 st e st')
  then have "\<exists>c k. signed_out L origin hs st st' c k"
    using logout_succeeded [OF surjective_pairing, of L origin e hs st] by simp
  then show ?case by (auto simp: own_session_def signed_out_def)
qed

lemma kill_completes:
  assumes "kill lib hash x e uid s = (s', r)"
    and "snd (logout_all lib (kill_world e) (ctx_keycloak x) uid (sys_sent s)) = Inr ()"
    and "kill_read_ok e" "kill_del_ok e" "kill_publish_ok e" "kill_forget_ok e"
  shows "status r = 200"
proof -
  obtain log where "logout_all lib (kill_world e) (ctx_keycloak x) uid (sys_sent s) = (log, Inr ())"
    using assms(2) by (metis surjective_pairing)
  then show ?thesis
    using assms(1,3-6) by (auto simp: kill_def sessions_def drop_sessions_def publish_invalidation_def forget_def
        Let_def split: if_splits)
qed

section \<open>Properties\<close>

text \<open>The guard lets a request through to a handler exactly when the caller has a name, is in the
  admin group or reads as an auditor, and - for anything but \<open>GET\<close> and \<open>HEAD\<close> - comes from the portal;
  otherwise nothing runs and nothing changes.\<close>

theorem guard_admits:
  "guard x m hs rest s =
     (if (\<exists>c. caller_from hs = Some c
            \<and> (in_group (caller_groups c) (admin_group x)
               \<or> (m \<in> {GET, HEAD} \<and> in_group (caller_groups c) (auditor_group x)))
            \<and> (m \<in> {GET, HEAD} \<or> header_text hs ''origin'' = Some (portal_origin x)))
      then rest s
      else (s, Some (plain (if caller_from hs = None then 401 else 403))))"
  by (auto simp: guard_def may_manage_def reads_only_def from_portal_def split: option.split)


text \<open>C21: the kill switch gets there: however many attempts failed before, at whichever step, as soon as
  every dependency answers one call returns 200 and every session the index listed before the first
  attempt is gone.\<close>

theorem kill_retry_succeeds:
  assumes "index_ok (st_redis s)"
    and "\<And>log. snd (logout_all lib (kill_world e) (ctx_keycloak x) uid log) = Inr ()"
    and "kill_read_ok e" "kill_del_ok e" "kill_publish_ok e" "kill_forget_ok e"
    and "kill lib hash x e uid (fold (\<lambda>e s. fst (kill lib hash x e uid s)) attempts s) = (s', r)"
  shows "status r = 200 \<and>
    (\<forall>k\<in>set (members (index_key (show_uuid lib uid)) (st_redis s)). k \<notin> set (present (st_redis s')))"
proof -
  let ?s = "fold (\<lambda>e s. fst (kill lib hash x e uid s)) attempts s"
  have ok: "status r = 200" using kill_completes [OF assms(7,2-6)] .
  have s: "kill_switch.attempts lib hash x uid attempts s = ?s"
    by (simp add: kill_switch.attempts_def)
  show ?thesis
    using kill_switch.success_cuts_all [OF assms(1), where lib = lib and hash = hash and x = x and uid = uid
        and e = e and es = attempts and s' = s'] ok assms(7) unfolding s by auto
qed

text \<open>
  A user the realm resolved under the name, with the group list Keycloak's own count confirms, who is
  neither the caller nor in one of the two groups of the management plane.
\<close>

definition resettable :: "kc_libs \<Rightarrow> world \<Rightarrow> ctx \<Rightarrow> string \<Rightarrow> caller \<Rightarrow> reset_target \<Rightarrow> bool" where
  "resettable lib w x username c t \<longleftrightarrow>
     (let path = ''users/'' @ show_uuid lib (target_id t) @ ''/groups'' in
      (\<exists>log log'. target lib w (ctx_keycloak x) username log = (log', Inr (Some t)))
      \<and> (\<exists>listed counted. answered lib w (ctx_keycloak x) path [(''max'', GROUPS_READ)] listed
           \<and> answered lib w (ctx_keycloak x) (path @ ''/count'') [] counted
           \<and> target_groups t = group_names listed
           \<and> as_u64 (json_get counted ''count'') = Some (length (target_groups t)))
      \<and> to_ascii_lowercase (caller_sub c) \<noteq> show_uuid lib (target_id t)
      \<and> \<not> in_group (target_groups t) (admin_group x) \<and> \<not> in_group (target_groups t) (auditor_group x))"

lemma try_then_Inr:
  assumes "try_then f g log = (log', Inr b)"
  obtains a log1 where "f log = (log1, Inr a)" "g a log1 = (log', Inr b)"
  using assms by (auto simp: try_then_def split: prod.splits sum.splits)

lemma map_err_Inr: "map_err h f log = (log', Inr a) \<longleftrightarrow> f log = (log', Inr a)"
  by (auto simp: map_err_def split: prod.splits sum.splits)

lemma take_field_Inr: "take_field v key = Inr n \<Longrightarrow> n = json_get v key"
  by (cases v) (auto simp: take_field_def)

lemma target_groups_complete:
  assumes "target lib w k username log = (log', Inr (Some t))"
  shows "\<exists>listed counted. answered lib w k (''users/'' @ show_uuid lib (target_id t) @ ''/groups'') [(''max'', GROUPS_READ)] listed
     \<and> answered lib w k (''users/'' @ show_uuid lib (target_id t) @ ''/groups/count'') [] counted
     \<and> target_groups t = group_names listed
     \<and> as_u64 (json_get counted ''count'') = Some (length (target_groups t))"
  using assms unfolding target_def
  by (elim try_then_Inr)
    (auto simp: give_def fail_with_def map_err_Inr answered_def dest!: take_field_Inr elim!: try_then_Inr
      split: option.splits sum.splits if_splits, blast)

lemma may_reset_ok:
  "may_reset_second_factor self other groups admin auditor = Inr u \<longleftrightarrow>
     self \<noteq> other \<and> \<not> in_group groups admin \<and> \<not> in_group groups auditor"
  by (auto simp: may_reset_second_factor_def)

text \<open>C20: a reset reaches nothing but the one-time-password credentials of an unprivileged other user:
  whatever Keycloak answers, the call changes nothing in this process, sends only directory reads
  besides the deletions, and every deletion is of a credential Keycloak listed as \<open>otp\<close> under a user
  it resolved, whose complete group list holds neither management group and who is not the caller.\<close>

theorem reset_is_confined:
  assumes "reset_second_factor lib x w hs raw s = (s', r)"
  shows "\<exists>new. s' = s\<lparr>sys_sent := sys_sent s @ new\<rparr>
    \<and> list_all (\<lambda>q. reads (ctx_keycloak x) q
        \<or> (\<exists>c t. caller_from hs = Some c \<and> resettable lib w x (str_trim raw) c t
             \<and> deletes_otp lib w (ctx_keycloak x) (target_id t) q)) new"
proof (cases "caller_from hs")
  case None
  then show ?thesis using assms by (auto simp: reset_second_factor_def intro: exI [of _ "[]"])
next
  case (Some c)
  let ?k = "ctx_keycloak x" and ?name = "str_trim raw"
  let ?P = "\<lambda>q. reads ?k q \<or> (\<exists>c t. caller_from hs = Some c \<and> resettable lib w x ?name c t \<and> deletes_otp lib w ?k (target_id t) q)"
  obtain log res where target: "target lib w ?k ?name (sys_sent s) = (log, res)" by force
  obtain new where new: "log = sys_sent s @ new" "list_all (reads ?k) new"
    using sendsD [OF sends_target target] by blast
  show ?thesis
  proof (cases "?name = '''' \<or> length (chars_of ?name) > 255")
    case True
    then show ?thesis using assms Some
      by (auto simp: reset_second_factor_def Let_def intro: exI [of _ "[]"])
  next
    case False
    show ?thesis
    proof (cases "\<exists>t. res = Inr (Some t) \<and> (\<exists>u. may_reset_second_factor (to_ascii_lowercase (caller_sub c))
        (show_uuid lib (target_id t)) (target_groups t) (admin_group x) (auditor_group x) = Inr u)")
      case no: False
      have "s' = s\<lparr>sys_sent := log\<rparr>"
        using assms Some False target no
        by (auto simp: reset_second_factor_def Let_def split: sum.splits trouble.splits option.splits)
      moreover have "list_all ?P new" using new(2) by (auto simp: list_all_iff)
      ultimately show ?thesis using new(1) by blast
    next
      case True
      then obtain t u where t: "res = Inr (Some t)" "may_reset_second_factor (to_ascii_lowercase (caller_sub c))
          (show_uuid lib (target_id t)) (target_groups t) (admin_group x) (auditor_group x) = Inr u" by blast
      have ok: "resettable lib w x ?name c t"
        using target_groups_complete [of lib w ?k ?name "sys_sent s" log t] target t
        by (auto simp: resettable_def may_reset_ok)
      obtain log2 res2 where del: "delete_otp lib w ?k (target_id t) log = (log2, res2)" by force
      obtain new2 where new2: "log2 = log @ new2" "list_all (\<lambda>q. reads ?k q \<or> deletes_otp lib w ?k (target_id t) q) new2"
        using sendsD [OF sends_delete_otp del] by blast
      have "s' = s\<lparr>sys_sent := log2\<rparr>"
        using assms Some False target t del
        by (auto simp: reset_second_factor_def Let_def split: sum.splits)
      moreover have "list_all ?P (new @ new2)" using new(2) new2(2) ok Some by (auto simp: list_all_iff)
      ultimately show ?thesis using new(1) new2(1) by (intro exI [of _ "new @ new2"]) simp
    qed
  qed
qed

section \<open>A concrete Keycloak\<close>

text \<open>It answers every read with its URL, which the parser maps to a document.\<close>

definition sample_document :: "json \<Rightarrow> string \<Rightarrow> json" where
  "sample_document counted doc =
     (if doc = ''token'' then Object [(''access_token'', String ''t'')]
      else if doc = ''k/admin/realms/r/users'' then Array [Object [(''id'', String ''7'')]]
      else if doc = ''k/admin/realms/r/users/7/groups'' then Array [Object [(''name'', String ''staff'')]]
      else if doc = ''k/admin/realms/r/users/7/groups/count'' then counted
      else Array [Object [(''type'', String ''password''), (''id'', String ''8'')],
                  Object [(''type'', String ''otp''), (''id'', String ''9'')]])"

definition sample_kc :: "json \<Rightarrow> kc_libs" where
  "sample_kc counted = \<lparr>parse_json = (\<lambda>doc. Inr (sample_document counted doc)), show_json = (\<lambda>_. ''...''),
     parse_uuid = (\<lambda>s. find (\<lambda>n. decimal n = s) [7, 8, 9]), show_uuid = decimal, show_status = decimal\<rparr>"

definition sample_world :: world where
  "sample_world log =
     (case http_method (last log) of
        POST \<Rightarrow> Http_reply 200 (Inr ''token'')
      | GET \<Rightarrow> Http_reply 200 (Inr (http_url (last log)))
      | _ \<Rightarrow> Http_reply 204 (Inr ''''))"

definition sample_ctx :: ctx where
  "sample_ctx = \<lparr>ctx_keycloak = new_keycloak ''k/'' ''r'' ''c'' ''s'', admin_group = ''admins'',
     auditor_group = ''auditors'', portal_origin = ''https://portal'', nginx_conf_dir = Some ''/conf''\<rparr>"

definition sample_system :: system where
  "sample_system = \<lparr>st_cache = st_cache sample_state, st_metrics = new_metrics, st_redis = sample_index,
     sys_applications = [], sys_entitlements = [], sys_sent = [], sys_volume = Map.empty\<rparr>"

lemma sample_decimal [simp]: "decimal 7 = ''7''" "decimal 8 = ''8''" "decimal 9 = ''9''" "decimal 1 = ''1''"
  by (code_simp)+

lemmas sample_kc_simps = sample_kc_def sample_world_def sample_ctx_def new_keycloak_def sample_document_def
  token_def token_request_def kc_get_def send_def is_success_def admin_url_def try_then_def map_err_def give_def
  fail_with_def trim_end_on_def elements_def group_names_def map_filter_simps GROUPS_READ_def

lemma sample_name: "str_trim ''bob'' = ''bob''" "chars_of ''bob'' = [98, 111, 98]"
  by (simp_all add: trims chars_of_def)

lemma sample_target:
  "snd (target (sample_kc (Object [(''count'', Number 1)])) sample_world (ctx_keycloak sample_ctx) ''bob'' []) =
     Inr (Some \<lparr>target_id = 7, target_groups = [''staff'']\<rparr>)"
  "snd (target (sample_kc (Array [])) sample_world (ctx_keycloak sample_ctx) ''bob'' []) = Inl Panicked"
  by (simp_all add: target_def sample_kc_simps take_field_def)

abbreviation sample_lib :: kc_libs where
  "sample_lib \<equiv> sample_kc (Object [(''count'', Number 1)])"

lemma sample_reset:
  "snd (reset_second_factor sample_lib sample_ctx sample_world sample_browser ''bob'' sample_system) =
     Some (with_json 200 (Object [(''removed'', Number 1)]))"
proof -
  obtain log where t: "target sample_lib sample_world (ctx_keycloak sample_ctx) ''bob'' [] =
      (log, Inr (Some \<lparr>target_id = 7, target_groups = [''staff'']\<rparr>))"
    using sample_target(1) by (metis surjective_pairing)
  have "snd (delete_otp sample_lib sample_world (ctx_keycloak sample_ctx) 7 log) = Inr 1"
    by (simp add: delete_otp_def sample_kc_simps otp_credentials_def credential_delete_def)
  then obtain log2 where d: "delete_otp sample_lib sample_world (ctx_keycloak sample_ctx) 7 log = (log2, Inr 1)"
    by (metis surjective_pairing)
  have u: "show_uuid sample_lib 7 = ''7''" by (simp add: sample_kc_def)
  have "may_reset_second_factor ''u1'' ''7'' [''staff''] (admin_group sample_ctx) (auditor_group sample_ctx) = Inr ()"
    by (simp add: may_reset_ok sample_ctx_def in_group_def)
  moreover have "to_ascii_lowercase ''u1'' = ''u1''" by code_simp
  moreover have "sys_sent sample_system = []" by (simp add: sample_system_def)
  ultimately show ?thesis
    by (simp add: reset_second_factor_def sample_caller sample_name Let_def t d u)
qed

theorem reset_is_confined_witness:
  "\<exists>new. reset_second_factor sample_lib sample_ctx sample_world sample_browser ''bob'' sample_system =
      (sample_system\<lparr>sys_sent := new\<rparr>, Some (with_json 200 (Object [(''removed'', Number 1)])))
    \<and> list_all (\<lambda>q. reads (ctx_keycloak sample_ctx) q
        \<or> (\<exists>c t. caller_from sample_browser = Some c \<and> resettable sample_lib sample_world sample_ctx (str_trim ''bob'') c t
             \<and> deletes_otp sample_lib sample_world (ctx_keycloak sample_ctx) (target_id t) q)) new"
proof -
  have e: "sys_sent sample_system = []" by (simp add: sample_system_def)
  note reset_is_confined [OF surjective_pairing, of sample_lib sample_ctx sample_world sample_browser "''bob''" sample_system]
  then obtain new where new: "fst (reset_second_factor sample_lib sample_ctx sample_world sample_browser ''bob'' sample_system) =
      sample_system\<lparr>sys_sent := new\<rparr>"
    "list_all (\<lambda>q. reads (ctx_keycloak sample_ctx) q
        \<or> (\<exists>c t. caller_from sample_browser = Some c \<and> resettable sample_lib sample_world sample_ctx (str_trim ''bob'') c t
             \<and> deletes_otp sample_lib sample_world (ctx_keycloak sample_ctx) (target_id t) q)) new"
    unfolding e append_Nil by blast
  show ?thesis by (intro exI [of _ new] conjI new(2) prod_eqI) (simp_all only: new(1) sample_reset fst_conv snd_conv)
qed

text \<open>
  A group count that is neither an object nor null does not refuse: the handler's task panics and the
  request gets no reply.
\<close>

lemma reset_can_panic:
  "snd (reset_second_factor (sample_kc (Array [])) sample_ctx sample_world sample_browser ''bob'' sample_system) = None"
proof -
  obtain log where t: "target (sample_kc (Array [])) sample_world (ctx_keycloak sample_ctx) ''bob'' [] = (log, Inl Panicked)"
    using sample_target(2) by (metis surjective_pairing)
  then show ?thesis by (simp add: reset_second_factor_def sample_caller sample_name Let_def sample_system_def)
qed

definition sample_kill_env :: kill_env where
  "sample_kill_env = \<lparr>kill_world = sample_world, kill_read_ok = True, kill_del_ok = True, kill_publish_ok = True,
     kill_forget_ok = True, kill_redis_error = ''down'', kill_others = []\<rparr>"

definition sample_victim :: system where
  "sample_victim = sample_system\<lparr>st_redis := sample_redis\<lparr>sets :=
     [index_key ''7'' \<mapsto> [''_oauth2_proxy-a1'']], present := [''_oauth2_proxy-a1'', ''_oauth2_proxy-b2'']\<rparr>\<rparr>"

lemma sample_victim_ok: "cache_ok (st_cache sample_victim)" "index_ok (st_redis sample_victim)"
  by (auto simp: sample_victim_def sample_system_def sample_state_def cache_ok_run index_ok_def members_def
      session_name_def COOKIE_NAME_def)

lemma sample_logout_all: "snd (logout_all sample_lib sample_world (ctx_keycloak sample_ctx) 7 log) = Inr ()"
  by (simp add: logout_all_def sample_kc_simps)


theorem kill_retry_succeeds_witness:
  "filter (\<lambda>k. k \<in> set (present (st_redis (fst (kill sample_lib (\<lambda>_. 0) sample_ctx sample_kill_env 7
      (fst (kill sample_lib (\<lambda>_. 0) sample_ctx (sample_kill_env\<lparr>kill_publish_ok := False\<rparr>) 7 sample_victim)))))))
     (members (index_key ''7'') (st_redis sample_victim)) = []"
proof -
  let ?kill = "kill sample_lib (\<lambda>_. 0) sample_ctx sample_kill_env 7"
  have e: "kill_read_ok sample_kill_env" "kill_del_ok sample_kill_env" "kill_publish_ok sample_kill_env"
    "kill_forget_ok sample_kill_env" "kill_world sample_kill_env = sample_world"
    by (simp_all add: sample_kill_env_def)
  have u: "show_uuid sample_lib 7 = ''7''" by (simp add: sample_kc_def)
  from kill_retry_succeeds [OF sample_victim_ok(2), where lib = sample_lib and e = sample_kill_env and x = sample_ctx
        and uid = 7 and hash = "\<lambda>_. 0" and attempts = "[sample_kill_env\<lparr>kill_publish_ok := False\<rparr>]", OF _ e(1-4) surjective_pairing] sample_logout_all e(5)
  show ?thesis unfolding u by (simp add: filter_empty_conv)
qed

end
