(* ===== verification/Tables.thy ===== *)
theory Tables
  imports Kill_Switch
begin

text \<open>
  The part of \<open>admin.rs\<close> that changes rows: creating, changing and deleting applications and
  entitlements, and publishing the generated configuration after each change to an application. The
  statements run against the two tables as \<open>0001_init.sql\<close> declares them: its CHECK constraints, its
  unique constraints, the foreign key with its cascade. The properties: whatever sequence of calls
  succeeds, the rows stay what the validators accept, and every enabled one is rendered.
\<close>

section \<open>The schema\<close>

text \<open>\<open>upstream_url ~ '^https?://[^[:space:]]+$'\<close>; which characters are spaces is the database's locale.\<close>

definition upstream_shape :: "(nat \<Rightarrow> bool) \<Rightarrow> string \<Rightarrow> bool" where
  "upstream_shape space s \<longleftrightarrow>
     (let rest = (case strip_prefix ''http://'' s of Some r \<Rightarrow> r
                  | None \<Rightarrow> (case strip_prefix ''https://'' s of Some r \<Rightarrow> r | None \<Rightarrow> ''''))
      in rest \<noteq> '''' \<and> list_all (\<lambda>c. \<not> space c) (chars_of rest))"

text \<open>A text with a NUL in it cannot be sent to the database at all.\<close>

definition storable :: "string \<Rightarrow> bool" where
  "storable s \<longleftrightarrow> CHR 0x00 \<notin> set s"

definition application_row_ok :: "(nat \<Rightarrow> bool) \<Rightarrow> application \<Rightarrow> bool" where
  "application_row_ok space a \<longleftrightarrow>
     labelled (slug a) ''-'' \<and> labelled (external_hostname a) ''.-'' \<and> app_name a \<noteq> ''''
     \<and> upstream_shape space (upstream_url a)
     \<and> list_all storable ([slug a, external_hostname a, app_name a, upstream_url a]
         @ (case icon a of None \<Rightarrow> [] | Some i \<Rightarrow> [i]))"

definition entitlement_row_ok :: "entitlement \<Rightarrow> bool" where
  "entitlement_row_ok e \<longleftrightarrow>
     List.member [''ad_group'', ''user''] (subject_type e) \<and> subject_id e \<noteq> ''''
     \<and> List.member [''allow'', ''deny''] (ent_effect e)
     \<and> (ent_path_pattern e = '''' \<or> prefix ''/'' (ent_path_pattern e))
     \<and> list_all storable [subject_type e, subject_id e, ent_effect e, ent_path_pattern e]"

text \<open>\<open>unique nulls not distinct\<close> on these five columns.\<close>

definition entitlement_key :: "entitlement \<Rightarrow> uuid option \<times> string \<times> string \<times> string \<times> string" where
  "entitlement_key e = (ent_application_id e, subject_type e, subject_id e, ent_effect e, ent_path_pattern e)"

section \<open>Statements\<close>

text \<open>
  Whether the database answers at all, the id its default would draw, its notion of a space.
\<close>

record db_env =
  db_up :: bool
  db_fresh :: uuid
  db_space :: "nat \<Rightarrow> bool"

definition insert_application ::
  "db_env \<Rightarrow> application \<Rightarrow> application list \<Rightarrow> application list \<times> (db_error + application)" where
  "insert_application d a as =
     (let a = a\<lparr>app_id := db_fresh d\<rparr>
      in if \<not> db_up d \<or> \<not> application_row_ok (db_space d) a then (as, Inl Db_failure)
         else if list_ex (\<lambda>b. app_id b = app_id a \<or> slug b = slug a \<or> external_hostname b = external_hostname a) as
              then (as, Inl Unique_violation)
         else (as @ [a], Inr a))"

text \<open>What a patch sets: \<open>coalesce\<close> keeps the column on null, the icon has its own flag.\<close>

record columns =
  set_name :: "string option"
  set_icon :: "string option option"
  set_upstream :: "string option"
  set_enabled :: "bool option"

definition coalesce :: "'a option \<Rightarrow> 'a \<Rightarrow> 'a" where
  "coalesce p v = (case p of None \<Rightarrow> v | Some w \<Rightarrow> w)"

definition set_columns :: "columns \<Rightarrow> application \<Rightarrow> application" where
  "set_columns cs a = a\<lparr>app_name := coalesce (set_name cs) (app_name a), icon := coalesce (set_icon cs) (icon a),
     upstream_url := coalesce (set_upstream cs) (upstream_url a), enabled := coalesce (set_enabled cs) (enabled a)\<rparr>"

definition columns_storable :: "columns \<Rightarrow> bool" where
  "columns_storable cs \<longleftrightarrow>
     list_all (\<lambda>p. case p of None \<Rightarrow> True | Some v \<Rightarrow> storable v)
       [set_name cs, Option.bind (set_icon cs) id, set_upstream cs]"

definition update_row ::
  "db_env \<Rightarrow> uuid \<Rightarrow> columns \<Rightarrow> application list \<Rightarrow> application list \<times> (db_error + application option)" where
  "update_row d uid cs as =
     (if \<not> db_up d \<or> \<not> columns_storable cs then (as, Inl Db_failure)
      else (case find (\<lambda>a. app_id a = uid) as of
              None \<Rightarrow> (as, Inr None)
            | Some a \<Rightarrow>
                if \<not> application_row_ok (db_space d) (set_columns cs a) then (as, Inl Db_failure)
                else (map (\<lambda>b. if app_id b = uid then set_columns cs b else b) as, Inr (Some (set_columns cs a)))))"

text \<open>The rows affected, and the cascade to the entitlements.\<close>

definition delete_application_row ::
  "db_env \<Rightarrow> uuid \<Rightarrow> application list \<times> entitlement list \<Rightarrow> (application list \<times> entitlement list) \<times> (db_error + nat)" where
  "delete_application_row d uid t =
     (if \<not> db_up d then (t, Inl Db_failure)
      else ((filter (\<lambda>a. app_id a \<noteq> uid) (fst t), filter (\<lambda>e. ent_application_id e \<noteq> Some uid) (snd t)),
            Inr (length (filter (\<lambda>a. app_id a = uid) (fst t)))))"

definition insert_entitlement ::
  "db_env \<Rightarrow> entitlement \<Rightarrow> application list \<Rightarrow> entitlement list \<Rightarrow> entitlement list \<times> (db_error + entitlement)" where
  "insert_entitlement d e as es =
     (let e = e\<lparr>ent_id := db_fresh d\<rparr>
      in if \<not> db_up d \<or> \<not> entitlement_row_ok e then (es, Inl Db_failure)
         else if list_ex (\<lambda>b. ent_id b = ent_id e \<or> entitlement_key b = entitlement_key e) es
              then (es, Inl Unique_violation)
         else if (case ent_application_id e of None \<Rightarrow> False | Some uid \<Rightarrow> \<not> list_ex (\<lambda>a. app_id a = uid) as)
              then (es, Inl Db_failure)
         else (es @ [e], Inr e))"

definition delete_entitlement_row ::
  "db_env \<Rightarrow> uuid \<Rightarrow> entitlement list \<Rightarrow> entitlement list \<times> (db_error + nat)" where
  "delete_entitlement_row d uid es =
     (if \<not> db_up d then (es, Inl Db_failure)
      else (filter (\<lambda>e. ent_id e \<noteq> uid) es, Inr (length (filter (\<lambda>e. ent_id e = uid) es))))"

section \<open>Publishing after a change\<close>

text \<open>The query of \<open>publish_conf\<close> - its error, or the rows in the database's order - and the two stagings.\<close>

record publish_env =
  pub_error :: "string option"
  pub_order :: "application list \<Rightarrow> application list"
  pub_io1 :: "write_outcome \<times> rename_outcome"
  pub_io2 :: "write_outcome \<times> rename_outcome"

definition publish :: "url_parser \<Rightarrow> ctx \<Rightarrow> publish_env \<Rightarrow> system \<Rightarrow> system \<times> (string + unit)" where
  "publish parse x p s =
     (case nginx_conf_dir x of
        None \<Rightarrow> (s, Inr ())
      | Some dir \<Rightarrow>
          (case publish_conf parse
                  (case pub_error p of Some e \<Rightarrow> Inl e | None \<Rightarrow> Inr (pub_order p (sys_applications s)))
                  (pub_io1 p) (pub_io2 p) dir (portal_origin x) (sys_volume s) of
             (fs, res) \<Rightarrow> (s\<lparr>sys_volume := fs\<rparr>, res)))"

definition publish_status :: "url_parser \<Rightarrow> ctx \<Rightarrow> publish_env \<Rightarrow> system \<Rightarrow> system \<times> json" where
  "publish_status parse x p s =
     (case publish parse x p s of
        (s, Inr _) \<Rightarrow> (s, String ''staged'')
      | (s, Inl why) \<Rightarrow> (s, String why))"

section \<open>The handlers\<close>

record new_application =
  new_slug :: string
  new_name :: string
  new_icon :: "string option"
  new_upstream_url :: string
  new_external_hostname :: string
  new_enabled :: bool

text \<open>\<open>#[serde(default = "yes")]\<close> and the two levels of the icon in a patch, as the field arrives in JSON.\<close>

definition default_enabled :: "bool option \<Rightarrow> bool" where
  "default_enabled field = (case field of None \<Rightarrow> True | Some b \<Rightarrow> b)"

record application_patch =
  patch_name :: "string option"
  patch_icon :: "string option option"
  patch_upstream_url :: "string option"
  patch_enabled :: "bool option"

text \<open>A field of the body that is absent, null, or a string; \<open>present\<close> reads it.\<close>

definition present_field :: "json option \<Rightarrow> string + string option option" where
  "present_field field =
     (case field of
        None \<Rightarrow> Inr None
      | Some Null \<Rightarrow> Inr (Some None)
      | Some (String s) \<Rightarrow> Inr (Some (Some s))
      | Some _ \<Rightarrow> Inl ''invalid type'')"

definition optional_text :: "string option \<Rightarrow> json" where
  "optional_text p = (case p of None \<Rightarrow> Null | Some v \<Rightarrow> String v)"

definition application_json :: "kc_libs \<Rightarrow> application \<Rightarrow> json" where
  "application_json lib a = Object
     [(''id'', String (show_uuid lib (app_id a))), (''slug'', String (slug a)), (''name'', String (app_name a)),
      (''icon'', optional_text (icon a)), (''upstream_url'', String (upstream_url a)),
      (''external_hostname'', String (external_hostname a)), (''enabled'', Bool (enabled a))]"

definition list_applications :: "kc_libs \<Rightarrow> (db_error + application list) \<Rightarrow> reply" where
  "list_applications lib rows =
     (case rows of
        Inl e \<Rightarrow> failed e
      | Inr as \<Rightarrow> with_json 200 (Array (map (application_json lib) as)))"

text \<open>The row a create binds: the checks in the order of the code, the first refusal wins.\<close>

definition checked_application :: "url_parser \<Rightarrow> string \<Rightarrow> new_application \<Rightarrow> string + application" where
  "checked_application parse origin n =
     and_then (validate_slug (new_slug n)) (\<lambda>_.
       and_then (validate_upstream parse (new_upstream_url n)) (\<lambda>_.
         and_then (validate_hostname parse (new_external_hostname n) origin) (\<lambda>hostname.
           and_then (validate_name (new_name n)) (\<lambda>name.
             and_then (validate_icon (new_icon n)) (\<lambda>picture.
               Inr \<lparr>app_id = 0, slug = new_slug n, app_name = name, icon = picture,
                    upstream_url = new_upstream_url n, external_hostname = hostname, enabled = new_enabled n\<rparr>)))))"

definition create_application ::
  "kc_libs \<Rightarrow> url_parser \<Rightarrow> ctx \<Rightarrow> db_env \<Rightarrow> publish_env \<Rightarrow> new_application \<Rightarrow> system \<Rightarrow> system \<times> reply" where
  "create_application lib parse x d p n s =
     (case checked_application parse (portal_origin x) n of
        Inl why \<Rightarrow> (s, bad_request why)
      | Inr row \<Rightarrow>
          (case insert_application d row (sys_applications s) of
             (as, Inl e) \<Rightarrow> (s\<lparr>sys_applications := as\<rparr>, failed e)
           | (as, Inr a) \<Rightarrow>
               (case publish_status parse x p (s\<lparr>sys_applications := as\<rparr>) of
                  (s, nginx) \<Rightarrow>
                    (s, with_json 201 (Object [(''application'', application_json lib a), (''nginx'', nginx)])))))"

text \<open>\<open>transpose\<close> of an optional validation, and the columns a patch sets.\<close>

definition check_optional :: "('a \<Rightarrow> string + 'b) \<Rightarrow> 'a option \<Rightarrow> string + 'b option" where
  "check_optional check p =
     (case p of
        None \<Rightarrow> Inr None
      | Some v \<Rightarrow> (case check v of Inl why \<Rightarrow> Inl why | Inr w \<Rightarrow> Inr (Some w)))"

definition checked_patch :: "url_parser \<Rightarrow> application_patch \<Rightarrow> string + columns" where
  "checked_patch parse patch =
     and_then (check_optional (validate_upstream parse) (patch_upstream_url patch)) (\<lambda>_.
       and_then (check_optional validate_name (patch_name patch)) (\<lambda>name.
         and_then (check_optional validate_icon (patch_icon patch)) (\<lambda>picture.
           Inr \<lparr>set_name = name, set_icon = picture, set_upstream = patch_upstream_url patch,
                set_enabled = patch_enabled patch\<rparr>)))"

definition update_application ::
  "kc_libs \<Rightarrow> url_parser \<Rightarrow> ctx \<Rightarrow> db_env \<Rightarrow> publish_env \<Rightarrow> uuid \<Rightarrow> application_patch \<Rightarrow> system \<Rightarrow> system \<times> reply" where
  "update_application lib parse x d p uid patch s =
     (case checked_patch parse patch of
        Inl why \<Rightarrow> (s, bad_request why)
      | Inr cs \<Rightarrow>
          (case update_row d uid cs (sys_applications s) of
             (as, Inl e) \<Rightarrow> (s\<lparr>sys_applications := as\<rparr>, failed e)
           | (as, Inr None) \<Rightarrow> (s\<lparr>sys_applications := as\<rparr>, plain 404)
           | (as, Inr (Some a)) \<Rightarrow>
               (case publish_status parse x p (s\<lparr>sys_applications := as\<rparr>) of
                  (s, nginx) \<Rightarrow>
                    (s, with_json 200 (Object [(''application'', application_json lib a), (''nginx'', nginx)])))))"

definition delete_application ::
  "url_parser \<Rightarrow> ctx \<Rightarrow> db_env \<Rightarrow> publish_env \<Rightarrow> uuid \<Rightarrow> system \<Rightarrow> system \<times> reply" where
  "delete_application parse x d p uid s =
     (case delete_application_row d uid (sys_applications s, sys_entitlements s) of
        ((as, es), Inl e) \<Rightarrow> (s\<lparr>sys_applications := as, sys_entitlements := es\<rparr>, failed e)
      | ((as, es), Inr n) \<Rightarrow>
          (let s = s\<lparr>sys_applications := as, sys_entitlements := es\<rparr>
           in if n > 0 then
                (case publish_status parse x p s of
                   (s, nginx) \<Rightarrow> (s, with_json 200 (Object [(''nginx'', nginx)])))
              else (s, plain 404)))"

record new_entitlement =
  ne_application_id :: "uuid option"
  ne_subject_type :: string
  ne_subject_id :: string
  ne_effect :: string
  ne_path_pattern :: string
  ne_expires_at :: "time option"

text \<open>\<open>show_time\<close> is the printed form of a \<open>DateTime\<close>.\<close>

definition entitlement_json :: "kc_libs \<Rightarrow> (time \<Rightarrow> string) \<Rightarrow> entitlement \<Rightarrow> json" where
  "entitlement_json lib show_time e = Object
     [(''id'', String (show_uuid lib (ent_id e))),
      (''application_id'', optional_text (map_option (show_uuid lib) (ent_application_id e))),
      (''subject_type'', String (subject_type e)), (''subject_id'', String (subject_id e)),
      (''effect'', String (ent_effect e)), (''path_pattern'', String (ent_path_pattern e)),
      (''expires_at'', optional_text (map_option show_time (ent_expires_at e)))]"

definition list_entitlements :: "kc_libs \<Rightarrow> (time \<Rightarrow> string) \<Rightarrow> (db_error + entitlement list) \<Rightarrow> reply" where
  "list_entitlements lib show_time rows =
     (case rows of
        Inl e \<Rightarrow> failed e
      | Inr es \<Rightarrow> with_json 200 (Array (map (entitlement_json lib show_time) es)))"

definition checked_entitlement :: "new_entitlement \<Rightarrow> string + entitlement" where
  "checked_entitlement n =
     (if \<not> List.member [''ad_group'', ''user''] (ne_subject_type n) then
        Inl ''subject_type must be ad_group or user''
      else if \<not> List.member [''allow'', ''deny''] (ne_effect n) then Inl ''effect must be allow or deny''
      else
        (let subject = str_trim (ne_subject_id n)
         in if subject = '''' then Inl ''subject_id is required''
            else if ne_subject_type n = ''ad_group'' \<and> List.member subject CHR '','' then
              Inl ''an AD group name cannot contain a comma''
            else (case validate_path_pattern (ne_path_pattern n) of
                    Inl why \<Rightarrow> Inl why
                  | Inr _ \<Rightarrow> Inr \<lparr>ent_id = 0, ent_application_id = ne_application_id n,
                      subject_type = ne_subject_type n, subject_id = subject, ent_effect = ne_effect n,
                      ent_path_pattern = ne_path_pattern n, ent_expires_at = ne_expires_at n\<rparr>)))"

definition create_entitlement ::
  "kc_libs \<Rightarrow> (time \<Rightarrow> string) \<Rightarrow> db_env \<Rightarrow> new_entitlement \<Rightarrow> system \<Rightarrow> system \<times> reply" where
  "create_entitlement lib show_time d n s =
     (case checked_entitlement n of
        Inl why \<Rightarrow> (s, bad_request why)
      | Inr row \<Rightarrow>
          (case insert_entitlement d row (sys_applications s) (sys_entitlements s) of
             (es, Inl e) \<Rightarrow> (s\<lparr>sys_entitlements := es\<rparr>, failed e)
           | (es, Inr e) \<Rightarrow> (s\<lparr>sys_entitlements := es\<rparr>, with_json 201 (entitlement_json lib show_time e))))"

definition delete_entitlement :: "db_env \<Rightarrow> uuid \<Rightarrow> system \<Rightarrow> system \<times> reply" where
  "delete_entitlement d uid s =
     (case delete_entitlement_row d uid (sys_entitlements s) of
        (es, Inl e) \<Rightarrow> (s\<lparr>sys_entitlements := es\<rparr>, failed e)
      | (es, Inr n) \<Rightarrow> (s\<lparr>sys_entitlements := es\<rparr>, if n > 0 then plain 204 else plain 404))"

section \<open>Well-formed tables\<close>

text \<open>
  What the rest of the program takes for granted of a row: it passes the same validators again, and
  its stored spelling is their fixed point.
\<close>

definition application_valid :: "url_parser \<Rightarrow> string \<Rightarrow> application \<Rightarrow> bool" where
  "application_valid parse origin a \<longleftrightarrow>
     validate_slug (slug a) = Inr () \<and> validate_upstream parse (upstream_url a) = Inr ()
     \<and> validate_hostname parse (external_hostname a) origin = Inr (external_hostname a)
     \<and> validate_name (app_name a) = Inr (app_name a) \<and> validate_icon (icon a) = Inr (icon a)"

definition entitlement_valid :: "entitlement \<Rightarrow> bool" where
  "entitlement_valid e \<longleftrightarrow>
     subject_type e \<in> {''ad_group'', ''user''} \<and> ent_effect e \<in> {''allow'', ''deny''}
     \<and> str_trim (subject_id e) = subject_id e \<and> subject_id e \<noteq> ''''
     \<and> (subject_type e = ''ad_group'' \<longrightarrow> CHR '','' \<notin> set (subject_id e))
     \<and> validate_path_pattern (ent_path_pattern e) = Inr ()"

definition tables_ok :: "url_parser \<Rightarrow> string \<Rightarrow> application list \<Rightarrow> entitlement list \<Rightarrow> bool" where
  "tables_ok parse origin as es \<longleftrightarrow>
     distinct (map app_id as) \<and> distinct (map slug as) \<and> distinct (map external_hostname as)
     \<and> (\<forall>a\<in>set as. application_valid parse origin a)
     \<and> distinct (map ent_id es) \<and> distinct (map entitlement_key es)
     \<and> (\<forall>e\<in>set es. entitlement_valid e \<and> (\<forall>u. ent_application_id e = Some u \<longrightarrow> u \<in> app_id ` set as))"

lemma validate_icon_idem: "validate_icon raw = Inr i \<Longrightarrow> validate_icon i = Inr i"
  by (auto simp: validate_icon_def Let_def str_trim_idem split: option.splits if_splits)

lemma checked_application_valid:
  "checked_application parse origin n = Inr a \<Longrightarrow> application_valid parse origin (a\<lparr>app_id := u\<rparr>)"
  by (auto simp: checked_application_def application_valid_def and_then_eq_Inr
      dest: stored_hostname_is_stable stored_name_is_stable validate_icon_idem)

lemma checked_entitlement_valid:
  "checked_entitlement n = Inr e \<Longrightarrow> entitlement_valid (e\<lparr>ent_id := u\<rparr>)"
  by (auto simp: checked_entitlement_def entitlement_valid_def Let_def str_trim_idem split: if_splits sum.splits)

lemma check_optional_Inr: "check_optional f p = Inr q \<Longrightarrow> q = Some w \<Longrightarrow> \<exists>v. p = Some v \<and> f v = Inr w"
  by (auto simp: check_optional_def split: option.splits sum.splits)

lemma check_optional_upstream:
  "check_optional (validate_upstream parse) p = Inr q \<Longrightarrow> p = Some v \<Longrightarrow> validate_upstream parse v = Inr ()"
  by (auto simp: check_optional_def split: sum.splits)

lemma set_columns_keeps [simp]:
  "app_id (set_columns cs a) = app_id a" "slug (set_columns cs a) = slug a"
  "external_hostname (set_columns cs a) = external_hostname a"
  by (simp_all add: set_columns_def)

lemma set_columns_valid:
  assumes "checked_patch parse patch = Inr cs" "application_valid parse origin a"
  shows "application_valid parse origin (set_columns cs a)"
proof -
  obtain u name picture where cs: "check_optional (validate_upstream parse) (patch_upstream_url patch) = Inr u"
    "check_optional validate_name (patch_name patch) = Inr name"
    "check_optional validate_icon (patch_icon patch) = Inr picture"
    "cs = \<lparr>set_name = name, set_icon = picture, set_upstream = patch_upstream_url patch, set_enabled = patch_enabled patch\<rparr>"
    using assms(1) by (auto simp: checked_patch_def and_then_eq_Inr)
  have "validate_name n = Inr n" if "name = Some n" for n
    using check_optional_Inr [OF cs(2) that] stored_name_is_stable by blast
  moreover have "validate_icon i = Inr i" if "picture = Some i" for i
    using check_optional_Inr [OF cs(3) that] validate_icon_idem by blast
  moreover have "validate_upstream parse v = Inr ()" if "patch_upstream_url patch = Some v" for v
    using check_optional_upstream [OF cs(1) that] .
  ultimately show ?thesis
    using assms(2) by (auto simp: application_valid_def set_columns_def cs(4) coalesce_def split: option.splits)
qed

section \<open>Each statement keeps the tables well formed\<close>

lemma insert_application_cases:
  assumes "insert_application d a as = (as', res)"
  obtains (refused) e where "as' = as" "res = Inl e"
  | (added) b where "b = a\<lparr>app_id := db_fresh d\<rparr>" "as' = as @ [b]" "res = Inr b"
      "app_id b \<notin> app_id ` set as" "slug b \<notin> slug ` set as" "external_hostname b \<notin> external_hostname ` set as"
proof (cases "\<not> db_up d \<or> \<not> application_row_ok (db_space d) (a\<lparr>app_id := db_fresh d\<rparr>)
    \<or> list_ex (\<lambda>b. app_id b = db_fresh d \<or> slug b = slug a \<or> external_hostname b = external_hostname a) as")
  case True
  then show ?thesis using assms that(1) by (auto simp: insert_application_def Let_def split: if_splits)
next
  case False
  then show ?thesis
    using assms by (intro that(2) [of "a\<lparr>app_id := db_fresh d\<rparr>"]) (auto simp: insert_application_def Let_def list_ex_iff)
qed

lemma tables_ok_add_application:
  assumes "tables_ok parse origin as es" "application_valid parse origin b"
    and "app_id b \<notin> app_id ` set as" "slug b \<notin> slug ` set as" "external_hostname b \<notin> external_hostname ` set as"
  shows "tables_ok parse origin (as @ [b]) es"
  using assms by (auto simp: tables_ok_def)

lemma tables_ok_update:
  assumes "tables_ok parse origin as es" "checked_patch parse patch = Inr cs" "update_row d uid cs as = (as', res)"
  shows "tables_ok parse origin as' es"
proof -
  consider "as' = as" | "as' = map (\<lambda>b. if app_id b = uid then set_columns cs b else b) as"
    using assms(3) by (auto simp: update_row_def split: if_splits option.splits)
  then show ?thesis
  proof cases
    case 2
    have keep: "map f as' = map f as" if "\<And>a. f (set_columns cs a) = f a" for f :: "application \<Rightarrow> 'b"
      using that 2 by (simp add: comp_def if_distrib cong: if_cong)
    have "app_id ` set as' = app_id ` set as" using keep [of app_id] by (metis list.set_map set_columns_keeps(1))
    moreover have "\<forall>a\<in>set as'. application_valid parse origin a"
      using 2 assms(1) set_columns_valid [OF assms(2)] by (auto simp: tables_ok_def)
    ultimately show ?thesis
      using assms(1) keep [of app_id] keep [of slug] keep [of external_hostname] by (simp add: tables_ok_def)
  qed (use assms in simp)
qed

lemma tables_ok_delete_application:
  assumes "tables_ok parse origin as es" "delete_application_row d uid (as, es) = ((as', es'), res)"
  shows "tables_ok parse origin as' es'"
proof -
  consider "as' = as" "es' = es"
    | "as' = filter (\<lambda>a. app_id a \<noteq> uid) as" "es' = filter (\<lambda>e. ent_application_id e \<noteq> Some uid) es"
    using assms(2) by (auto simp: delete_application_row_def split: if_splits)
  moreover have "app_id ` {a \<in> set as. app_id a \<noteq> uid} = app_id ` set as - {uid}" by auto
  ultimately show ?thesis
    using assms(1) by cases (auto simp: tables_ok_def distinct_map_filter)
qed

lemma tables_ok_add_entitlement:
  assumes "tables_ok parse origin as es" "checked_entitlement n = Inr e" "insert_entitlement d e as es = (es', res)"
  shows "tables_ok parse origin as es'"
proof -
  let ?e = "e\<lparr>ent_id := db_fresh d\<rparr>"
  consider "es' = es" | "es' = es @ [?e]" "\<forall>b\<in>set es. ent_id b \<noteq> ent_id ?e" "\<forall>b\<in>set es. entitlement_key b \<noteq> entitlement_key ?e"
      "\<forall>u. ent_application_id ?e = Some u \<longrightarrow> u \<in> app_id ` set as"
    using assms(3) by (auto simp: insert_entitlement_def Let_def list_ex_iff split: if_splits option.splits)
  then show ?thesis
    using assms(1) checked_entitlement_valid [OF assms(2), of "db_fresh d"]
    by cases (auto simp: tables_ok_def)
qed

lemma tables_ok_delete_entitlement:
  assumes "tables_ok parse origin as es" "delete_entitlement_row d uid es = (es', res)"
  shows "tables_ok parse origin as es'"
  using assms by (auto simp: tables_ok_def delete_entitlement_row_def distinct_map_filter split: if_splits)

section \<open>Sequences of calls\<close>

datatype table_call =
    Create_application db_env publish_env new_application
  | Update_application db_env publish_env uuid application_patch
  | Delete_application db_env publish_env uuid
  | Create_entitlement db_env new_entitlement
  | Delete_entitlement db_env uuid

fun run_call ::
  "kc_libs \<Rightarrow> url_parser \<Rightarrow> (time \<Rightarrow> string) \<Rightarrow> ctx \<Rightarrow> table_call \<Rightarrow> system \<Rightarrow> system \<times> reply" where
  "run_call lib parse show_time x (Create_application d p n) s = create_application lib parse x d p n s"
| "run_call lib parse show_time x (Update_application d p uid patch) s = update_application lib parse x d p uid patch s"
| "run_call lib parse show_time x (Delete_application d p uid) s = delete_application parse x d p uid s"
| "run_call lib parse show_time x (Create_entitlement d n) s = create_entitlement lib show_time d n s"
| "run_call lib parse show_time x (Delete_entitlement d uid) s = delete_entitlement d uid s"

definition run_calls ::
  "kc_libs \<Rightarrow> url_parser \<Rightarrow> (time \<Rightarrow> string) \<Rightarrow> ctx \<Rightarrow> table_call list \<Rightarrow> system \<Rightarrow> system" where
  "run_calls lib parse show_time x cs s = fold (\<lambda>c s. fst (run_call lib parse show_time x c s)) cs s"

lemma publish_status_frame:
  assumes "publish_status parse x p s = (s', v)"
  shows "sys_applications s' = sys_applications s" "sys_entitlements s' = sys_entitlements s"
    "st_redis s' = st_redis s" "st_cache s' = st_cache s" "sys_sent s' = sys_sent s" "st_metrics s' = st_metrics s"
  using assms by (auto simp: publish_status_def publish_def split: option.splits prod.splits sum.splits)

definition system_ok :: "url_parser \<Rightarrow> ctx \<Rightarrow> system \<Rightarrow> bool" where
  "system_ok parse x s \<longleftrightarrow> tables_ok parse (portal_origin x) (sys_applications s) (sys_entitlements s)"

lemma system_ok_create:
  assumes "system_ok parse x s" "create_application lib parse x d p n s = (s', r)"
  shows "system_ok parse x s'"
proof (cases "checked_application parse (portal_origin x) n")
  case (Inl why)
  then show ?thesis using assms by (simp add: create_application_def)
next
  case (Inr row)
  obtain as res where i: "insert_application d row (sys_applications s) = (as, res)" by force
  then show ?thesis
  proof (cases rule: insert_application_cases)
    case refused
    then show ?thesis using assms Inr i by (auto simp: create_application_def system_ok_def)
  next
    case (added b)
    have "tables_ok parse (portal_origin x) as (sys_entitlements s)"
      using tables_ok_add_application [OF assms(1) [unfolded system_ok_def], of b]
        checked_application_valid [OF Inr] added by simp
    then show ?thesis
      using assms(2) Inr i added publish_status_frame(1,2)
      by (auto simp: create_application_def system_ok_def split: prod.splits)
  qed
qed

lemma system_ok_update:
  assumes "system_ok parse x s" "update_application lib parse x d p uid patch s = (s', r)"
  shows "system_ok parse x s'"
proof (cases "checked_patch parse patch")
  case (Inl why)
  then show ?thesis using assms by (simp add: update_application_def)
next
  case (Inr cs)
  obtain as res where u: "update_row d uid cs (sys_applications s) = (as, res)" by force
  have "tables_ok parse (portal_origin x) as (sys_entitlements s)"
    using tables_ok_update [OF _ Inr u] assms(1) by (simp add: system_ok_def)
  then show ?thesis
    using assms(2) Inr u publish_status_frame(1,2)
    by (auto simp: update_application_def system_ok_def split: prod.splits sum.splits option.splits)
qed

lemma system_ok_delete:
  assumes "system_ok parse x s" "delete_application parse x d p uid s = (s', r)"
  shows "system_ok parse x s'"
proof -
  obtain as es res where del: "delete_application_row d uid (sys_applications s, sys_entitlements s) = ((as, es), res)"
    by (cases "delete_application_row d uid (sys_applications s, sys_entitlements s)") force
  have ok: "tables_ok parse (portal_origin x) as es"
    using tables_ok_delete_application [OF _ del] assms(1) by (simp add: system_ok_def)
  let ?s = "s\<lparr>sys_applications := as, sys_entitlements := es\<rparr>"
  obtain s2 v where p: "publish_status parse x p ?s = (s2, v)" by force
  have "s' = ?s \<or> s' = s2"
    using assms(2) del p by (cases res) (auto simp: delete_application_def Let_def split: if_splits)
  then show ?thesis using ok publish_status_frame(1,2) [OF p] by (auto simp: system_ok_def)
qed

lemma system_ok_create_entitlement:
  assumes "system_ok parse x s" "create_entitlement lib show_time d n s = (s', r)"
  shows "system_ok parse x s'"
proof (cases "checked_entitlement n")
  case (Inl why)
  then show ?thesis using assms by (simp add: create_entitlement_def)
next
  case (Inr e)
  obtain es res where i: "insert_entitlement d e (sys_applications s) (sys_entitlements s) = (es, res)" by force
  have "tables_ok parse (portal_origin x) (sys_applications s) es"
    using tables_ok_add_entitlement [OF _ Inr i] assms(1) by (simp add: system_ok_def)
  then show ?thesis using assms(2) Inr i by (cases res) (auto simp: create_entitlement_def system_ok_def)
qed

lemma system_ok_delete_entitlement:
  assumes "system_ok parse x s" "delete_entitlement d uid s = (s', r)"
  shows "system_ok parse x s'"
proof -
  obtain es res where i: "delete_entitlement_row d uid (sys_entitlements s) = (es, res)" by force
  have "tables_ok parse (portal_origin x) (sys_applications s) es"
    using tables_ok_delete_entitlement [OF _ i] assms(1) by (simp add: system_ok_def)
  then show ?thesis using assms(2) i by (cases res) (auto simp: delete_entitlement_def system_ok_def)
qed

lemma system_ok_call:
  assumes "system_ok parse x s"
  shows "system_ok parse x (fst (run_call lib parse show_time x c s))"
  using system_ok_create [OF assms surjective_pairing] system_ok_update [OF assms surjective_pairing]
    system_ok_delete [OF assms surjective_pairing] system_ok_create_entitlement [OF assms surjective_pairing]
    system_ok_delete_entitlement [OF assms surjective_pairing]
  by (cases c) simp_all

lemma system_ok_calls: "system_ok parse x s \<Longrightarrow> system_ok parse x (run_calls lib parse show_time x cs s)"
  unfolding run_calls_def by (induction cs arbitrary: s) (simp_all add: system_ok_call)

section \<open>What is published\<close>

text \<open>Documented behaviour of the \<open>url\<close> crate: a host has a printed form, and both schemes a known port.\<close>

definition complete_url :: "url_parser \<Rightarrow> bool" where
  "complete_url parse \<longleftrightarrow>
     (\<forall>raw u. parse raw = Some u \<longrightarrow>
        (url_host u \<noteq> None \<longrightarrow> url_host_str u \<noteq> None)
        \<and> (url_scheme u \<in> {''http'', ''https''} \<longrightarrow> url_known_port u \<noteq> None))"

lemma renderable_complete:
  assumes "complete_url parse" "\<forall>a\<in>set as. application_valid parse origin a"
  shows "map fst (renderable parse as origin) = filter enabled as"
proof -
  have row: "\<exists>u host port. parse (upstream_url a) = Some u \<and> url_host_str u = Some host \<and> url_known_port u = Some port"
    if "application_valid parse origin a" for a
  proof -
    have "validate_upstream parse (upstream_url a) = Inr ()" using that by (simp add: application_valid_def)
    then obtain u where "parse (upstream_url a) = Some u" "url_scheme u \<in> {''http'', ''https''}" "url_host u \<noteq> None"
      by (auto simp: validate_upstream_ok)
    then show ?thesis using assms(1) unfolding complete_url_def by blast
  qed
  show ?thesis
    using assms(2)
  proof (induction as)
    case (Cons a as)
    then have "application_valid parse origin a" by simp
    from row [OF this] this show ?case
      using Cons by (auto simp: renderable_def application_valid_def map_filter_simps)
  qed (simp add: renderable_def map_filter_simps)
qed

lemma publish_staged:
  assumes "nginx_conf_dir x = Some dir" "pub_error p = None" "pub_io1 p = (Written, Renamed)" "pub_io2 p = (Written, Renamed)"
  shows "sys_volume (fst (publish parse x p s)) (path_join dir ''apps.conf.staged'') =
    Some (render_apps_conf parse (pub_order p (sys_applications s)) (portal_origin x))"
  using assms by (simp add: publish_def publish_conf_def stage_def Let_def)

lemma render_apps_conf_rows:
  "render_apps_conf parse as origin = out_lines (apps_header @ concat (map server_lines (renderable parse as origin)))"
  by (simp add: render_apps_conf_def foldl_out_lines)

text \<open>\<open>failed\<close> answers a duplicate entitlement with the message for applications.\<close>

lemma duplicate_entitlement_message:
  assumes "checked_entitlement n = Inr e" "db_up d" "entitlement_row_ok (e\<lparr>ent_id := db_fresh d\<rparr>)"
    and "b \<in> set (sys_entitlements s)" "entitlement_key b = entitlement_key e"
  shows "create_entitlement lib show_time d n s =
    (s, with_json 409 (error_json ''slug or external_hostname already exists''))"
proof -
  have "entitlement_key (e\<lparr>ent_id := db_fresh d\<rparr>) = entitlement_key b" using assms(5) by (simp add: entitlement_key_def)
  then have "insert_entitlement d e (sys_applications s) (sys_entitlements s) = (sys_entitlements s, Inl Unique_violation)"
    using assms(2-4) by (auto simp: insert_entitlement_def Let_def list_ex_iff)
  then show ?thesis using assms(1) by (simp add: create_entitlement_def failed_def)
qed

section \<open>Properties\<close>

text \<open>C14: whatever sequence of calls reaches the tables, with whatever failures of the database and of the
  publishing in between, the rows stay well formed: ids, slugs, hostnames and the five columns of an
  entitlement are unique, every value still passes its validator and is its fixed point, and every
  entitlement names an application that exists.\<close>

theorem stored_rows_stay_valid:
  assumes "tables_ok parse (portal_origin x) (sys_applications s) (sys_entitlements s)"
  shows "tables_ok parse (portal_origin x) (sys_applications (run_calls lib parse show_time x calls s))
    (sys_entitlements (run_calls lib parse show_time x calls s))"
  using system_ok_calls assms unfolding system_ok_def by blast

text \<open>C28: every enabled application is served: after any sequence of calls starting from empty tables, a
  publish that succeeds stages a file that is the header and one block per enabled application, in
  the order of the query - none is skipped, none is there twice, no disabled one is there.\<close>

theorem enabled_applications_are_served:
  assumes "complete_url parse" "sys_applications s = []" "sys_entitlements s = []"
    and "nginx_conf_dir x = Some dir" "pub_error p = None"
    and "pub_io1 p = (Written, Renamed)" "pub_io2 p = (Written, Renamed)"
    and "\<And>as. mset (pub_order p as) = mset as"
    and "final = run_calls lib parse show_time x calls s"
  shows "\<exists>rows. map fst rows = filter enabled (pub_order p (sys_applications final))
    \<and> sys_volume (fst (publish parse x p final)) (path_join dir ''apps.conf.staged'') =
        Some (out_lines (apps_header @ concat (map server_lines rows)))"
proof -
  have "system_ok parse x s" using assms(2,3) by (simp add: system_ok_def tables_ok_def)
  then have "system_ok parse x final" unfolding assms(9) by (rule system_ok_calls)
  then have "\<forall>a\<in>set (pub_order p (sys_applications final)). application_valid parse (portal_origin x) a"
    using mset_eq_setD [OF assms(8)] by (simp add: system_ok_def tables_ok_def)
  from renderable_complete [OF assms(1) this] publish_staged [OF assms(4-7), of parse final]
  show ?thesis unfolding render_apps_conf_rows by blast
qed


section \<open>Concrete calls\<close>

definition sample_pool :: db_env where
  "sample_pool = \<lparr>db_up = True, db_fresh = 1, db_space = (\<lambda>c. c = 32)\<rparr>"

definition sample_publish :: publish_env where
  "sample_publish = \<lparr>pub_error = None, pub_order = id, pub_io1 = (Written, Renamed), pub_io2 = (Written, Renamed)\<rparr>"

definition sample_new :: new_application where
  "sample_new = \<lparr>new_slug = ''wiki'', new_name = ''Wiki'', new_icon = None, new_upstream_url = ''http://wiki-app:8080'',
     new_external_hostname = ''Wiki.APPS'', new_enabled = True\<rparr>"

definition stored_app :: application where
  "stored_app = \<lparr>app_id = 1, slug = ''wiki'', app_name = ''Wiki'', icon = None,
     upstream_url = ''http://wiki-app:8080'', external_hostname = ''wiki.apps'', enabled = True\<rparr>"

abbreviation sample_call :: table_call where
  "sample_call \<equiv> Create_application sample_pool sample_publish sample_new"

lemma sample_checked:
  "checked_application sample_parser ''https://portal'' sample_new = Inr (stored_app\<lparr>app_id := 0\<rparr>)"
proof -
  have "validate_slug ''wiki'' = Inr ()" by code_simp
  moreover have "validate_upstream sample_parser ''http://wiki-app:8080'' = Inr ()"
  proof -
    have "labelled ''wiki-app'' ''.-''" "to_ascii_lowercase ''wiki-app'' = ''wiki-app''" by code_simp+
    then show ?thesis
      by (simp add: validate_upstream_def sample_parser_def sample_url_def infrastructure_ports_def infrastructure_names_def)
  qed
  moreover have "validate_hostname sample_parser ''Wiki.APPS'' ''https://portal'' = Inr ''wiki.apps''" by code_simp
  moreover have "validate_icon None = Inr None" by (simp add: validate_icon_def)
  ultimately show ?thesis
    using stored_name_is_stable_witness by (simp add: checked_application_def sample_new_def stored_app_def)
qed

lemma sample_created:
  assumes "sys_applications s = []"
  shows "sys_applications (fst (run_call lib sample_parser show_time sample_ctx sample_call s)) = [stored_app]"
proof -
  have "chars_of ''wiki-app:8080'' = [119, 105, 107, 105, 45, 97, 112, 112, 58, 56, 48, 56, 48]"
    by (simp add: chars_of_def)
  then have "upstream_shape (db_space sample_pool) ''http://wiki-app:8080''"
    by (simp add: upstream_shape_def strip_prefix_def sample_pool_def)
  moreover have "labelled ''wiki'' ''-''" "labelled ''wiki.apps'' ''.-''" by code_simp+
  ultimately have "insert_application sample_pool (stored_app\<lparr>app_id := 0\<rparr>) [] = ([stored_app], Inr stored_app)"
    by (simp add: insert_application_def application_row_ok_def stored_app_def storable_def sample_pool_def Let_def)
  moreover have "portal_origin sample_ctx = ''https://portal''"
    by (simp add: sample_ctx_def)
  ultimately show ?thesis
    using publish_status_frame(1) assms
    by (simp add: create_application_def sample_checked case_prod_beta publish_status_frame(1) [OF surjective_pairing])
qed

theorem enabled_applications_are_served_witness:
  "\<exists>rows. map fst rows = [stored_app]
    \<and> sys_volume (fst (publish sample_parser sample_ctx sample_publish
          (run_calls sample_lib sample_parser (\<lambda>_. '''') sample_ctx [sample_call] sample_system)))
        (path_join ''/conf'' ''apps.conf.staged'') = Some (out_lines (apps_header @ concat (map server_lines rows)))"
proof -
  have complete: "complete_url sample_parser" by (auto simp: complete_url_def sample_parser_def sample_url_def split: if_splits)
  have s: "sys_applications sample_system = []" "sys_entitlements sample_system = []" "nginx_conf_dir sample_ctx = Some ''/conf''"
    "pub_error sample_publish = None" "pub_io1 sample_publish = (Written, Renamed)" "pub_io2 sample_publish = (Written, Renamed)"
    "pub_order sample_publish = id"
    by (simp_all add: sample_system_def sample_ctx_def sample_publish_def)
  have "sys_applications (run_calls sample_lib sample_parser (\<lambda>_. '''') sample_ctx [sample_call] sample_system) = [stored_app]"
    using sample_created [OF s(1)] by (simp add: run_calls_def del: run_call.simps)
  moreover have "enabled stored_app" by (simp add: stored_app_def)
  moreover note enabled_applications_are_served [OF complete s(1-6) _ refl,
      where lib = sample_lib and show_time = "\<lambda>_. ''''" and calls = "[sample_call]"]
  ultimately show ?thesis unfolding s(7) by simp
qed

theorem stored_rows_stay_valid_witness:
  "tables_ok sample_parser (portal_origin sample_ctx)
     (sys_applications (run_calls sample_lib sample_parser (\<lambda>_. '''') sample_ctx [sample_call, sample_call] sample_system))
     (sys_entitlements (run_calls sample_lib sample_parser (\<lambda>_. '''') sample_ctx [sample_call, sample_call] sample_system))"
  by (rule stored_rows_stay_valid) (simp add: tables_ok_def sample_system_def)


end
