(* ===== verification/Audit_View.thy ===== *)
theory Audit_View
  imports Api "HOL-Library.Product_Lexorder" "HOL-Library.List_Lexorder" "HOL-Library.Char_ord"
begin

text \<open>
  \<open>audit.rs\<close>: the three screens that only read - the audit record with its keyset pages, who is signed
  in, and why a decision came out the way it did. Each handler is a function of what the stores
  answer: there is no state it could change. The properties: pages continue exactly where the last
  one ended while rows arrive, the session list loses nobody, and \<open>explain\<close> answers like \<open>/decide\<close>.
\<close>

section \<open>The audit record\<close>

text \<open>A stored row: the primary key's two columns and what the writer bound.\<close>

record audit_line =
  line_id :: uuid
  line_ts :: time
  line_row :: audit_row

definition line_key :: "audit_line \<Rightarrow> time \<times> uuid" where
  "line_key r = (line_ts r, line_id r)"

datatype audit_decision = Audit_Allow | Audit_Deny

record audit_query =
  q_actor :: "string option"
  q_app :: "string option"
  q_decision :: "audit_decision option"
  q_reason :: "string option"
  q_since :: "time option"
  q_until :: "time option"
  q_before_ts :: "time option"
  q_before_id :: "uuid option"
  q_limit :: "int option"

definition page_limit :: "audit_query \<Rightarrow> nat" where
  "page_limit q = nat (min 1000 (max 1 (case q_limit q of None \<Rightarrow> 100 | Some n \<Rightarrow> n)))"

definition decision_text :: "audit_decision \<Rightarrow> string" where
  "decision_text d = (case d of Audit_Allow \<Rightarrow> ''allow'' | Audit_Deny \<Rightarrow> ''deny'')"

text \<open>The \<open>where\<close> clause: a missing parameter is SQL's null and passes every row.\<close>

definition unless_null :: "'a option \<Rightarrow> ('a \<Rightarrow> bool) \<Rightarrow> bool" where
  "unless_null p test = (case p of None \<Rightarrow> True | Some v \<Rightarrow> test v)"

definition filters_match :: "audit_query \<Rightarrow> audit_line \<Rightarrow> bool" where
  "filters_match q r \<longleftrightarrow>
     (let event = row_event (line_row r)
      in unless_null (q_actor q) (\<lambda>a. ev_actor_sub event = a \<or> ev_actor_name event = Some a)
       \<and> unless_null (q_app q) (\<lambda>s. ev_application_slug event = s)
       \<and> unless_null (q_decision q) (\<lambda>d. row_decision (line_row r) = decision_text d)
       \<and> unless_null (q_reason q) (\<lambda>s. row_reason (line_row r) = s)
       \<and> unless_null (q_since q) (\<lambda>t. t \<le> line_ts r)
       \<and> unless_null (q_until q) (\<lambda>t. line_ts r < t))"

definition before_cursor :: "audit_query \<Rightarrow> audit_line \<Rightarrow> bool" where
  "before_cursor q r \<longleftrightarrow>
     (case (q_before_ts q, q_before_id q) of
        (None, _) \<Rightarrow> True
      | (Some t, None) \<Rightarrow> False
      | (Some t, Some u) \<Rightarrow> line_key r < (t, u))"

text \<open>\<open>order by ts desc, id desc\<close>.\<close>

definition newest_first :: "audit_line list \<Rightarrow> audit_line list" where
  "newest_first rows = rev (sort_key line_key rows)"

definition list_audit :: "(db_error + audit_line list) \<Rightarrow> audit_query \<Rightarrow> reply + audit_line list" where
  "list_audit rows q =
     (if (q_before_ts q = None) \<noteq> (q_before_id q = None) then
        Inl (bad_request ''before_ts and before_id are one cursor: pass both or neither'')
      else (case rows of
              Inl e \<Rightarrow> Inl (failed e)
            | Inr rows \<Rightarrow>
                Inr (take (page_limit q)
                  (newest_first (filter (\<lambda>r. filters_match q r \<and> before_cursor q r) rows)))))"

section \<open>Who is signed in\<close>

record live_session =
  live_sub :: string
  live_count :: nat
  last_seen_as :: "string option"
  last_activity :: "time option"

text \<open>\<open>distinct on\<close>: the first row of each subject, in the order the query sorts them.\<close>

fun distinct_on :: "('a \<Rightarrow> 'k) \<Rightarrow> 'a list \<Rightarrow> 'a list" where
  "distinct_on f [] = []"
| "distinct_on f (x # xs) = x # distinct_on f (filter (\<lambda>y. f y \<noteq> f x) xs)"

definition actor_of :: "audit_line \<Rightarrow> string" where
  "actor_of r = ev_actor_sub (row_event (line_row r))"

text \<open>
  \<open>order\<close> is the database's sort by subject and then by time, latest first; it is free where both
  are equal.
\<close>

definition last_seen ::
  "(audit_line list \<Rightarrow> audit_line list) \<Rightarrow> string list \<Rightarrow> audit_line list \<Rightarrow> (string \<times> string option \<times> time) list" where
  "last_seen order subs rows =
     map (\<lambda>r. (actor_of r, ev_actor_name (row_event (line_row r)), line_ts r))
       (distinct_on actor_of (order (filter (\<lambda>r. List.member subs (actor_of r)) rows)))"

definition live_row :: "(string \<times> string option \<times> time) list \<Rightarrow> string \<times> nat \<Rightarrow> live_session" where
  "live_row seen entry =
     (let s = find (\<lambda>(actor, _, _). actor = fst entry) seen
      in \<lparr>live_sub = fst entry, live_count = snd entry,
          last_seen_as = Option.bind s (\<lambda>(_, name, _). name),
          last_activity = map_option (\<lambda>(_, _, ts). ts) s\<rparr>)"

text \<open>Latest first, the never seen last, then by the bytes of the subject.\<close>

definition activity_key :: "live_session \<Rightarrow> (nat \<times> int) \<times> string" where
  "activity_key r = (case last_activity r of None \<Rightarrow> (1, 0) | Some t \<Rightarrow> (0, - t), live_sub r)"

definition list_sessions ::
  "(audit_line list \<Rightarrow> audit_line list) \<Rightarrow> (redis_error + (string \<times> nat) list) \<Rightarrow> (db_error + audit_line list)
     \<Rightarrow> reply + live_session list" where
  "list_sessions order found rows =
     (case found of
        Inl _ \<Rightarrow> Inl (plain 503)
      | Inr signed_in \<Rightarrow>
          (let seen = (case rows of Inl _ \<Rightarrow> [] | Inr rows \<Rightarrow> last_seen order (map fst signed_in) rows)
           in Inr (sort_key activity_key (map (live_row seen) signed_in))))"

section \<open>Explaining a decision\<close>

record explain_query =
  x_user :: string
  x_groups :: "string option"
  x_host :: string
  x_path :: string

record walked_rule =
  walked :: traced_rule
  walked_matched :: bool
  walked_expired :: bool

record explained =
  out_sub :: string
  out_groups :: "string list"
  out_host :: string
  out_slug :: string
  out_enabled :: bool
  out_path :: string
  out_normalised :: "string option"
  out_decision :: string
  out_reason :: string
  out_rules :: "walked_rule list"

definition explain_groups :: "string \<Rightarrow> string list" where
  "explain_groups text_of = filter (\<lambda>g. g \<noteq> '''') (map str_trim (split_on CHR '','' text_of))"

definition explain_host :: "string \<Rightarrow> string" where
  "explain_host raw = to_ascii_lowercase (first_piece CHR '':'' raw)"

definition explain_request ::
  "(entitlement list \<Rightarrow> entitlement list) \<Rightarrow> (db_error + application list) \<Rightarrow> (db_error + entitlement list) \<Rightarrow> time
     \<Rightarrow> explain_query \<Rightarrow> reply + explained" where
  "explain_request order applications entitlements now q =
     (case x_groups q of
        None \<Rightarrow> Inl (bad_request
          ''groups is required (comma-separated, empty for a user in none): the backend holds no directory, and explaining without them drops every group rule and reports a denial that would not happen'')
      | Some raw \<Rightarrow>
          (let groups = explain_groups raw; wanted = explain_host (x_host q)
           in case applications of
                Inl e \<Rightarrow> Inl (failed e)
              | Inr as \<Rightarrow>
                  (case find (\<lambda>a. external_hostname a = wanted) as of
                     None \<Rightarrow> Inl (with_json 404 (Object
                       [(''error'', String ''no application answers on that hostname''), (''host'', String wanted)]))
                   | Some a \<Rightarrow>
                       (case entitlements of
                          Inl e \<Rightarrow> Inl (failed e)
                        | Inr es \<Rightarrow>
                            (let traced = traced_rules_for order es (app_id a) (x_user q) groups;
                                 t = explain (enabled a) (map traced_rule traced) (x_path q) now;
                                 (decision, reason) = as_pair (trace_decision t)
                             in Inr \<lparr>out_sub = x_user q, out_groups = groups, out_host = wanted,
                                  out_slug = slug a, out_enabled = enabled a, out_path = x_path q,
                                  out_normalised = trace_path t, out_decision = decision, out_reason = reason,
                                  out_rules = map (\<lambda>(row, v). \<lparr>walked = row, walked_matched = matched v,
                                      walked_expired = expired v\<rparr>) (zip traced (trace_rules t))\<rparr>)))))"

section \<open>Lemmas on order\<close>

lemma sort_key_mset:
  assumes "mset xs = mset ys" "distinct (map f xs)"
  shows "sort_key f xs = sort_key f ys"
proof -
  have "mset (map f (sort_key f xs)) = mset (map f (sort_key f ys))" using assms(1) by simp
  then have "map f (sort_key f xs) = map f (sort_key f ys)"
    using properties_for_sort [of "map f (sort_key f xs)" "map f (sort_key f ys)"]
      properties_for_sort [of "map f (sort_key f ys)" "map f (sort_key f ys)"] by simp
  moreover have "inj_on f (set (sort_key f xs) \<union> set (sort_key f ys))"
    using assms mset_eq_setD [OF assms(1)] by (simp add: distinct_map)
  ultimately show ?thesis by (rule map_inj_on)
qed

lemma newest_first_simps:
  "set (newest_first rows) = set rows" "length (newest_first rows) = length rows"
  "filter P (newest_first rows) = newest_first (filter P rows)"
  "mset (newest_first rows) = mset rows"
  by (simp_all add: newest_first_def rev_filter [symmetric] filter_sort)

lemma newest_first_mset:
  "mset xs = mset ys \<Longrightarrow> distinct (map line_key xs) \<Longrightarrow> newest_first xs = newest_first ys"
  unfolding newest_first_def using sort_key_mset by metis

lemma newest_first_decreasing:
  "distinct (map line_key rows) \<Longrightarrow> sorted_wrt (\<lambda>a b. line_key b < line_key a) (newest_first rows)"
proof -
  assume "distinct (map line_key rows)"
  then have "distinct (map line_key (sort_key line_key rows))"
    by (metis mset_map mset_sort mset_eq_imp_distinct_iff)
  then have "sorted_wrt (<) (map line_key (sort_key line_key rows))"
    by (simp add: strict_sorted_iff)
  then show ?thesis by (simp add: newest_first_def sorted_wrt_rev sorted_wrt_map)
qed

text \<open>In a decreasing list, what lies below the last element of a page is the rest of the list.\<close>

lemma below_page:
  assumes "sorted_wrt (\<lambda>a b. f b < (f a :: 'k :: linorder)) xs" "take n xs \<noteq> []"
  shows "filter (\<lambda>r. f r < f (last (take n xs))) xs = drop n xs"
proof -
  let ?c = "f (last (take n xs))"
  have split: "sorted_wrt (\<lambda>a b. f b < f a) (take n xs @ drop n xs)" using assms(1) by simp
  have low: "\<forall>r\<in>set (drop n xs). f r < ?c"
    using split assms(2) last_in_set unfolding sorted_wrt_append by blast
  have "\<not> f r < ?c" if "r \<in> set (take n xs)" for r
  proof -
    from assms(2) obtain p where p: "take n xs = p @ [last (take n xs)]" by (metis append_butlast_last_id)
    then have "sorted_wrt (\<lambda>a b. f b < f a) (p @ [last (take n xs)])" using split by (metis sorted_wrt_append)
    moreover have "r \<in> set p \<or> r = last (take n xs)" using that p by (metis Un_iff empty_iff list.set set_append set_ConsD)
    ultimately show ?thesis by (auto simp: sorted_wrt_append dest: less_asym)
  qed
  then have "filter (\<lambda>r. f r < ?c) (take n xs) = []" by (simp add: filter_empty_conv)
  moreover have "filter (\<lambda>r. f r < ?c) (drop n xs) = drop n xs" using low by simp
  ultimately show ?thesis by (metis append_Nil append_take_drop_id filter_append)
qed

lemma find_distinct_on: "find (\<lambda>x. f x = k) (distinct_on f xs) = find (\<lambda>x. f x = k) xs"
proof (induction f xs rule: distinct_on.induct)
  case (2 f x xs)
  have "find (\<lambda>y. f y = k) (filter (\<lambda>y. f y \<noteq> f x) xs) = find (\<lambda>y. f y = k) xs" if "f x \<noteq> k"
    using that by (induction xs) auto
  then show ?case using 2 by simp
qed simp

lemma find_map: "find P (map g xs) = map_option g (find (P \<circ> g) xs)"
  by (induction xs) auto

section \<open>Properties\<close>

text \<open>C18: pages never repeat and never skip: asking again with the last row shown as the cursor continues
  the list exactly where the page ended, however many rows have arrived above it or shown rows have
  gone in between; only the rows below the cursor have to be the same.\<close>

theorem audit_pages_continue:
  assumes "list_audit (Inr rows) q = Inr page" "page \<noteq> []"
    and "distinct (map line_key rows)"
    and "mset (filter (\<lambda>r. line_key r < line_key (last page)) rows') =
         mset (filter (\<lambda>r. line_key r < line_key (last page)) rows)"
  shows "\<exists>page'. list_audit (Inr rows') (q\<lparr>q_before_ts := Some (line_ts (last page)),
        q_before_id := Some (line_id (last page))\<rparr>) = Inr page'
      \<and> page @ page' = take (length page + page_limit q)
          (newest_first (filter (\<lambda>r. filters_match q r \<and> before_cursor q r) rows))"
proof -
  let ?P = "\<lambda>r. filters_match q r \<and> before_cursor q r"
  let ?S = "newest_first (filter ?P rows)"
  let ?c = "line_key (last page)"
  let ?q = "q\<lparr>q_before_ts := Some (line_ts (last page)), q_before_id := Some (line_id (last page))\<rparr>"
  have page: "page = take (page_limit q) ?S" using assms(1) by (simp add: list_audit_def split: if_splits)
  then have "last page \<in> set ?S" using assms(2) by (metis in_set_takeD last_in_set)
  then have cursor: "before_cursor q (last page)" by (simp add: newest_first_simps)
  have below: "before_cursor q r" if "line_key r < ?c" for r
    using cursor that by (auto simp: before_cursor_def split: option.splits dest: less_trans)
  have "(filters_match ?q r \<and> before_cursor ?q r) \<longleftrightarrow> filters_match q r \<and> line_key r < ?c" for r
    by (simp add: filters_match_def before_cursor_def line_key_def)
  then have next_page: "list_audit (Inr rows') ?q =
      Inr (take (page_limit q) (newest_first (filter (\<lambda>r. filters_match q r \<and> line_key r < ?c) rows')))"
    by (simp add: list_audit_def page_limit_def)
  have d: "distinct (map line_key (filter P rows))" for P using assms(3) by (rule distinct_map_filter)
  have eq: "mset (filter (\<lambda>r. filters_match q r \<and> line_key r < ?c) rows) =
      mset (filter (\<lambda>r. filters_match q r \<and> line_key r < ?c) rows')"
    using arg_cong [OF assms(4), of "filter_mset (filters_match q)"]
    by (simp add: filter_filter_mset conj_commute flip: mset_filter)
  have "(filters_match q r \<and> line_key r < ?c) \<longleftrightarrow> ?P r \<and> line_key r < ?c" for r using below by blast
  then have "newest_first (filter (\<lambda>r. filters_match q r \<and> line_key r < ?c) rows') =
      newest_first (filter (\<lambda>r. line_key r < ?c) (filter ?P rows))"
    using newest_first_mset [OF eq d] by (simp add: conj_commute)
  also have "\<dots> = filter (\<lambda>r. line_key r < ?c) ?S" by (simp only: newest_first_simps(3))
  also have "\<dots> = drop (page_limit q) ?S"
    using below_page [OF newest_first_decreasing [OF d], of "page_limit q" ?P] assms(2) page by metis
  finally have "list_audit (Inr rows') ?q = Inr (take (page_limit q) (drop (page_limit q) ?S))"
    using next_page by simp
  moreover have "page @ take (page_limit q) (drop (page_limit q) ?S) = take (length page + page_limit q) ?S"
    unfolding page by (cases "page_limit q \<le> length ?S") (simp_all add: take_add min_def)
  ultimately show ?thesis by blast
qed

definition sample_line :: "nat \<Rightarrow> audit_line" where
  "sample_line t = \<lparr>line_id = t, line_ts = int t, line_row = \<lparr>row_event = \<lparr>ev_application_id = None,
     ev_application_slug = ''wiki'', ev_actor_sub = ''u1'', ev_actor_name = None, ev_decision = Allow, ev_count = 1,
     ev_first_seen = 0, ev_last_seen = 0, ev_distinct_path = 1, ev_first_path = ''/'', ev_src_ip = None,
     ev_request_id = None\<rparr>, row_decision = ''allow'', row_reason = ''allowed''\<rparr>\<rparr>"

definition sample_query :: audit_query where
  "sample_query = \<lparr>q_actor = None, q_app = Some ''wiki'', q_decision = Some Audit_Allow, q_reason = None,
     q_since = None, q_until = None, q_before_ts = None, q_before_id = None, q_limit = Some 1\<rparr>"

theorem audit_pages_continue_witness:
  "\<exists>page'. list_audit (Inr [sample_line 3, sample_line 1, sample_line 2])
      (sample_query\<lparr>q_before_ts := Some (line_ts (sample_line 2)), q_before_id := Some (line_id (sample_line 2))\<rparr>)
      = Inr page' \<and> page' = [sample_line 1]"
proof -
  have page: "list_audit (Inr [sample_line 1, sample_line 2]) sample_query = Inr [sample_line 2]"
    by (simp add: list_audit_def sample_query_def sample_line_def page_limit_def filters_match_def
        before_cursor_def unless_null_def decision_text_def newest_first_def line_key_def)
  have "newest_first [sample_line 1, sample_line 2] = [sample_line 2, sample_line 1]"
    by (simp add: newest_first_def line_key_def sample_line_def)
  moreover have "filters_match sample_query (sample_line n) \<and> before_cursor sample_query (sample_line n)" for n
    by (simp add: sample_query_def sample_line_def filters_match_def before_cursor_def unless_null_def decision_text_def)
  moreover note audit_pages_continue [OF page, of "[sample_line 3, sample_line 1, sample_line 2]"]
  moreover have "page_limit sample_query = 1" by (simp add: page_limit_def sample_query_def)
  ultimately show ?thesis by (auto simp: line_key_def) (auto simp: sample_line_def)
qed

section \<open>The list of the signed-in\<close>

lemma distinct_live_page: "distinct (map fst found) \<Longrightarrow> distinct (map fst (foldl (live_key r) found ks))"
  by (induction ks arbitrary: found)
    (simp_all add: live_key_def Let_def distinct_update split: option.split)

lemma index_live_distinct:
  assumes "index_live ok pages r = Inr found"
  shows "distinct (map fst found)"
proof -
  have "distinct (map fst (foldl (foldl (live_key r)) found ps))" if "distinct (map fst found)" for found ps
    using that distinct_live_page by (induction ps arbitrary: found) auto
  then show ?thesis using live_pages_Inr assms unfolding index_live_def by force
qed

text \<open>The latest activity of a subject in the audit record.\<close>

definition latest :: "audit_line list \<Rightarrow> string \<Rightarrow> time option" where
  "latest rows sub =
     (let ts = line_ts ` {r \<in> set rows. actor_of r = sub} in if ts = {} then None else Some (Max ts))"

lemma first_is_latest:
  assumes "sorted (map (\<lambda>r. (actor_of r, - line_ts r)) rows)"
  shows "map_option line_ts (find (\<lambda>r. actor_of r = sub) rows) = latest rows sub"
  using assms
proof (induction rows)
  case (Cons r rows)
  show ?case
  proof (cases "actor_of r = sub")
    case True
    then have "\<forall>x\<in>set rows. actor_of x = sub \<longrightarrow> line_ts x \<le> line_ts r"
      using Cons.prems by (auto simp: less_eq_prod_def)
    then have "Max (line_ts ` {x \<in> set (r # rows). actor_of x = sub}) = line_ts r"
      using True by (intro Max_eqI) auto
    moreover have "r \<in> {x \<in> set (r # rows). actor_of x = sub}" using True by simp
    ultimately show ?thesis using True unfolding latest_def Let_def by (simp only: image_is_empty) auto
  next
    case False
    then have "{x \<in> set (r # rows). actor_of x = sub} = {x \<in> set rows. actor_of x = sub}" by auto
    moreover have "map_option line_ts (find (\<lambda>r. actor_of r = sub) rows) = latest rows sub" using Cons by simp
    ultimately show ?thesis using False unfolding latest_def by simp
  qed
qed (simp add: latest_def)

lemma live_row_activity:
  assumes "mset (order (filter (\<lambda>r. List.member subs (actor_of r)) rows)) =
      mset (filter (\<lambda>r. List.member subs (actor_of r)) rows)"
    and "sorted (map (\<lambda>r. (actor_of r, - line_ts r)) (order (filter (\<lambda>r. List.member subs (actor_of r)) rows)))"
    and "sub \<in> set subs"
  shows "last_activity (live_row (last_seen order subs rows) (sub, n)) = latest rows sub"
proof -
  let ?rows = "order (filter (\<lambda>r. List.member subs (actor_of r)) rows)"
  have "find (\<lambda>(actor, _, _). actor = sub) (last_seen order subs rows) =
      map_option (\<lambda>r. (actor_of r, ev_actor_name (row_event (line_row r)), line_ts r)) (find (\<lambda>r. actor_of r = sub) ?rows)"
    unfolding last_seen_def find_map comp_def by (simp add: find_distinct_on)
  then have "last_activity (live_row (last_seen order subs rows) (sub, n)) = map_option line_ts (find (\<lambda>r. actor_of r = sub) ?rows)"
    by (simp add: live_row_def option.map_comp comp_def)
  also have "\<dots> = latest ?rows sub" using assms(2) by (rule first_is_latest)
  also have "\<dots> = latest rows sub"
  proof -
    have "set ?rows = {r \<in> set rows. actor_of r \<in> set subs}" using mset_eq_setD [OF assms(1)] by auto
    then have "{r \<in> set ?rows. actor_of r = sub} = {r \<in> set rows. actor_of r = sub}" using assms(3) by auto
    then show ?thesis by (simp only: latest_def)
  qed
  finally show ?thesis .
qed

text \<open>The list of the signed-in is exact: when the pages of the scan hold every index key, there is one
  row for each subject with a session key that still exists, with their number, whether or not the
  audit record could be read; each row carries the latest activity the record has, and the rows come
  latest first.\<close>

theorem sessions_list_is_exact:
  assumes "\<And>sub. members (index_key sub) r \<noteq> [] \<Longrightarrow> index_key sub \<in> set (concat (map the pages))"
    and "index_live ok pages r = Inr found"
    and "\<And>xs. mset (order xs) = mset xs \<and> sorted (map (\<lambda>x. (actor_of x, - line_ts x)) (order xs))"
  shows "\<exists>out. list_sessions order (Inr found) rows = Inr out
    \<and> sorted (map activity_key out) \<and> distinct (map live_sub out)
    \<and> (\<forall>sub n. (\<exists>row\<in>set out. live_sub row = sub \<and> live_count row = n) \<longleftrightarrow>
          n = length (filter (\<lambda>k. k \<in> set (present r) \<or> sets r k \<noteq> None) (members (index_key sub) r)) \<and> 0 < n)
    \<and> (\<forall>row\<in>set out. last_activity row = (case rows of Inl _ \<Rightarrow> None | Inr rs \<Rightarrow> latest rs (live_sub row)))"
proof -
  let ?seen = "case rows of Inl _ \<Rightarrow> [] | Inr rs \<Rightarrow> last_seen order (map fst found) rs"
  let ?out = "sort_key activity_key (map (live_row ?seen) found)"
  have d: "distinct (map fst found)" using assms(2) by (rule index_live_distinct)
  have sub: "live_sub (live_row seen e) = fst e" "live_count (live_row seen e) = snd e" for seen e
    by (simp_all add: live_row_def Let_def)
  have "mset (map live_sub ?out) = mset (map live_sub (map (live_row ?seen) found))"
    unfolding mset_map mset_sort ..
  also have "map live_sub (map (live_row ?seen) found) = map fst found" by (simp add: sub)
  finally have "mset (map live_sub ?out) = mset (map fst found)" .
  then have distinct_out: "distinct (map live_sub ?out)" using d by (metis mset_eq_imp_distinct_iff)
  have row: "(\<exists>row\<in>set ?out. live_sub row = s \<and> live_count row = n) \<longleftrightarrow> map_of found s = Some n" for s n
    using d by (auto simp: sub intro!: rev_bexI)
  have activity: "last_activity x = (case rows of Inl _ \<Rightarrow> None | Inr rs \<Rightarrow> latest rs (live_sub x))" if x: "x \<in> set ?out" for x
  proof -
    obtain s n where e: "(s, n) \<in> set found" "x = live_row ?seen (s, n)" using x by auto
    then have "s \<in> set (map fst found)" by force
    with e assms(3) show ?thesis
      by (cases rows) (simp_all only: sum.case sub live_row_activity fst_conv, simp add: live_row_def)
  qed
  have counts: "(\<exists>row\<in>set ?out. live_sub row = s \<and> live_count row = n) \<longleftrightarrow>
      n = length (filter (\<lambda>k. k \<in> set (present r) \<or> sets r k \<noteq> None) (members (index_key s) r)) \<and> 0 < n" for s n
    using live_lookup [OF assms(1,2), of s] unfolding row Let_def by (auto split: if_splits)
  have "list_sessions order (Inr found) rows = Inr ?out" by (simp add: list_sessions_def)
  moreover have "sorted (map activity_key ?out)" by (rule sorted_sort_key)
  ultimately show ?thesis using distinct_out counts activity by blast
qed

lemma walked_zip:
  "length rows = length vs \<Longrightarrow>
   map (traced_rule \<circ> walked)
     (map (\<lambda>(row, v). \<lparr>walked = row, walked_matched = matched v, walked_expired = expired v\<rparr>) (zip rows vs)) =
   map traced_rule rows"
  by (induction rows vs rule: list_induct2) simp_all

text \<open>C33: the explain screen answers like the door: when it answers for a user, the groups they carry and a
  path, a decision of \<open>/decide\<close> for that identity filled from the same rows at the same instant
  has the same verdict and reason, and the rules it walked are the rules the screen lists.\<close>

theorem explain_answers_like_decide:
  assumes "explain_request order (Inr as) (Inr es) (now_decide e) q = Inr x"
    and "distinct (map slug as)" "\<And>xs. mset (order xs) = mset xs"
    and "database e = Db_rows as es" "text_or_default (id_sub i) = x_user q" "groups_of i = out_groups x"
    and "req_slug request = out_slug x" "req_uri request = x_path q"
  shows "\<exists>v. load e request i = Inr v \<and> as_pair (verdict e request v) = (out_decision x, out_reason x)
    \<and> set (cached_rules v) = (traced_rule \<circ> walked) ` set (out_rules x)"
proof -
  obtain raw a where q: "x_groups q = Some raw" "find (\<lambda>a. external_hostname a = explain_host (x_host q)) as = Some a"
    using assms(1) by (auto simp: explain_request_def Let_def split: option.splits)
  let ?traced = "traced_rules_for order es (app_id a) (x_user q) (explain_groups raw)"
  let ?t = "explain (enabled a) (map traced_rule ?traced) (x_path q) (now_decide e)"
  have x: "out_groups x = explain_groups raw" "out_slug x = slug a" "out_decision x = fst (as_pair (trace_decision ?t))"
    "out_reason x = snd (as_pair (trace_decision ?t))"
    "out_rules x = map (\<lambda>(row, v). \<lparr>walked = row, walked_matched = matched v, walked_expired = expired v\<rparr>)
        (zip ?traced (trace_rules ?t))"
    using assms(1) q by (auto simp: explain_request_def Let_def case_prod_beta)
  have a: "a \<in> set as" using q(2) by (auto simp: find_Some_iff)
  let ?rows = "filter (applicable (app_id a) (explain_groups raw) (x_user q)) es"
  have "map traced_rule ?traced = map rule_of (order ?rows)" by (simp add: traced_rules_for_def comp_def)
  then have rules: "set (map traced_rule ?traced) = set (map rule_of ?rows)"
    using mset_eq_setD [OF assms(3) [of ?rows]] by simp
  have "length (trace_rules ?t) = length ?traced" by (simp add: explain_def Let_def)
  then have "map (traced_rule \<circ> walked) (out_rules x) = map traced_rule ?traced"
    unfolding x(5) by (intro walked_zip) simp
  then have walked: "set (map rule_of ?rows) = (traced_rule \<circ> walked) ` set (out_rules x)"
    using rules by (metis set_map)
  let ?v = "\<lparr>cached_identity = i, cached_rules = map rule_of ?rows, cached_enabled = enabled a,
      cached_application_id = Some (app_id a)\<rparr>"
  have "load e request i = Inr ?v"
    using assms(4-7) x(1,2) rules_for_row [OF assms(2) a, of es "x_user q" "explain_groups raw"]
    by (simp add: load_def)
  moreover have "verdict e request ?v = trace_decision ?t"
    using decide_cong_set [OF rules, of "enabled a" "x_path q" "now_decide e"] assms(8)
    by (simp add: verdict_def explain_def Let_def)
  ultimately show ?thesis using x(3,4) walked by (intro exI [of _ ?v]) simp
qed

theorem sessions_list_is_exact_witness:
  "\<exists>out. list_sessions (sort_key (\<lambda>x. (actor_of x, - line_ts x))) (Inr [(''u1'', 1)]) (Inr [sample_line 1, sample_line 2]) = Inr out
     \<and> length out = 1"
proof -
  let ?order = "sort_key (\<lambda>x :: audit_line. (actor_of x, - line_ts x))"
  let ?pages = "[Some [index_key ''u1'', ''x''], Some [index_key ''u1'']]"
  obtain found where found: "index_live (\<lambda>_. True) ?pages sample_redis = Inr found" and one: "found = [(''u1'', 1)]"
  proof -
    have strip: "strip_prefix INDEX_PREFIX (index_key ''u1'') = Some ''u1''" using strip_index_prefix by blast
    have none: "strip_prefix INDEX_PREFIX ''x'' = None" by (simp add: strip_prefix_def INDEX_PREFIX_def)
    have ne: "index_key ''u1'' \<noteq> ''s1''" by (simp add: index_key_def INDEX_PREFIX_def)
    have "index_live (\<lambda>_. True) ?pages sample_redis = Inr [(''u1'', 1)]"
      using ne by (simp add: index_live_def strip none live_key_def members_def sample_redis_def redis_exists_def Let_def)
    then show ?thesis using that by blast
  qed
  have cover: "index_key sub \<in> set (concat (map the ?pages))" if "members (index_key sub) sample_redis \<noteq> []" for sub
    using that by (auto simp: members_def sample_redis_def split: if_splits)
  have "\<And>xs. mset (?order xs) = mset xs \<and> sorted (map (\<lambda>x. (actor_of x, - line_ts x)) (?order xs))" by simp
  from sessions_list_is_exact [OF cover found this, of "Inr [sample_line 1, sample_line 2]"]
  show ?thesis unfolding one by (auto simp: list_sessions_def)
qed

definition explained_app :: application where
  "explained_app = sample_app\<lparr>external_hostname := ''wiki.example.com''\<rparr>"

definition sample_explain :: explain_query where
  "sample_explain = \<lparr>x_user = ''u1'', x_groups = Some ''staff'', x_host = ''wiki.example.com:443'', x_path = ''/admin/x''\<rparr>"

theorem explain_answers_like_decide_witness:
  "\<exists>x. explain_request id (Inr [explained_app]) (Inr sample_entitlements) 0 sample_explain = Inr x
     \<and> (out_decision x, out_reason x) = as_pair (Deny ExplicitDeny)"
proof -
  let ?e = "sample_env\<lparr>database := Db_rows [explained_app] sample_entitlements\<rparr>"
  let ?r = "\<lparr>req_key = None, req_slug = ''wiki'', req_uri = ''/admin/x'', req_audit_path = '''',
      req_src_ip = None, req_request_id = None\<rparr>"
  let ?v = "\<lparr>cached_identity = sample_identity, cached_rules = example_rules, cached_enabled = True,
      cached_application_id = Some 1\<rparr>"
  have groups: "groups_of sample_identity = [''staff'']" "text_or_default (id_sub sample_identity) = ''u1''"
    by (simp_all add: groups_of_def text_or_default_def to_str_def sample_identity_def)
  have "explain_groups ''staff'' = [''staff'']" by (simp add: explain_groups_def trims)
  moreover have "explain_host ''wiki.example.com:443'' = ''wiki.example.com''" by code_simp
  ultimately obtain x where x: "explain_request id (Inr [explained_app]) (Inr sample_entitlements) 0 sample_explain = Inr x"
    "out_groups x = [''staff'']" "out_slug x = ''wiki''"
    by (auto simp: explain_request_def sample_explain_def explained_app_def sample_app_def Let_def case_prod_beta)
  have env: "now_decide ?e = 0" by (simp add: sample_env_def)
  have load: "load ?e ?r sample_identity = Inr ?v"
    using groups by (simp add: load_def rules_for_def explained_app_def sample_app_def sample_entitlements_def applicable_def rule_of_def
        effect_of_def example_rules_def)
  have "decide True example_rules ''/admin/x'' 0 = Deny ExplicitDeny" by code_simp
  then have "verdict ?e ?r ?v = Deny ExplicitDeny" by (simp add: verdict_def sample_env_def)
  then show ?thesis
    using explain_answers_like_decide [of id "[explained_app]" sample_entitlements ?e sample_explain x sample_identity ?r]
      x env load groups by (auto simp: sample_explain_def)
qed

end
