(* ===== verification/Lifecycle.thy ===== *)
theory Lifecycle
  imports Decide "HOL-Library.While_Combinator"
begin

text \<open>
  \<open>main.rs\<close>: the configuration value that deletes, and the order of the shutdown. The loop of the audit
  writer is run to its end with \<open>while_option\<close>, so that it ends is a theorem: after the counters are
  flushed and every sender is dropped, the writer drains the queue, and each request counted in the
  process' life is in a written row or in a lost one.
\<close>

section \<open>How long the audit record is kept\<close>

definition RETENTION_MONTHS :: nat where
  "RETENTION_MONTHS = 12"

text \<open>\<open>str::parse::<u32>\<close>: an optional plus sign, at least one digit, no overflow.\<close>

definition parse_u32 :: "string \<Rightarrow> nat option" where
  "parse_u32 s =
     (let digits = (case s of [] \<Rightarrow> [] | c # cs \<Rightarrow> if c = CHR ''+'' then cs else s);
          n = foldl (\<lambda>n c. 10 * n + (byte c - 48)) 0 digits
      in if digits = [] \<or> \<not> list_all is_ascii_digit digits \<or> n \<ge> 2 ^ 32 then None else Some n)"

text \<open>An error ends the process before it serves anything.\<close>

definition retention_months :: "string option \<Rightarrow> string + nat" where
  "retention_months var =
     (case Option.bind var (\<lambda>v. if str_trim v = '''' then None else Some v) of
        None \<Rightarrow> Inr RETENTION_MONTHS
      | Some v \<Rightarrow>
          (case Option.bind (parse_u32 (str_trim v)) (\<lambda>n. if n > 0 then Some n else None) of
             None \<Rightarrow> Inl ''AUDIT_RETENTION_MONTHS must be a whole number of months, 1 or more''
           | Some n \<Rightarrow> Inr n))"

section \<open>Shutting down\<close>

text \<open>
  The writer's loop: \<open>recv\<close> answers nothing only when the queue is empty and every sender is gone, which
  holds once the cache and the context are dropped. \<open>ok\<close> is which inserts the database takes.
\<close>

definition write_audit ::
  "(audit_event \<Rightarrow> bool) \<Rightarrow> audit \<times> audit_row list \<Rightarrow> (audit \<times> audit_row list) option" where
  "write_audit ok = while_option (\<lambda>s. queued (fst s) \<noteq> []) (\<lambda>s. write_one (ok (hd (queued (fst s)))) s)"

text \<open>
  Sweeper and subscriber are stopped, the counters flushed, the senders dropped, the writer awaited. The
  code waits \<open>SHUTDOWN_DRAIN\<close>, five seconds, and then gives up; this is the run in which that is enough.
\<close>

definition shutdown :: "(audit_event \<Rightarrow> bool) \<Rightarrow> cache \<Rightarrow> audit_row list \<Rightarrow> (audit \<times> audit_row list) option" where
  "shutdown ok c rows = write_audit ok (sink (flush_all c), rows)"

section \<open>Lemmas\<close>

lemma decimal_not_plus: "decimal n \<noteq> [] \<and> hd (decimal n) \<noteq> CHR ''+''"
proof -
  have ne: "decimal n \<noteq> []" by (cases "n < 10") (simp_all add: decimal.simps [of n])
  have "is_ascii_digit (hd (decimal n))" by (rule decimal_digits [OF hd_in_set [OF ne]])
  with ne show ?thesis by (auto simp: is_ascii_digit_def)
qed

lemma digits_value: "foldl (\<lambda>n c. 10 * n + (byte c - 48)) 0 (decimal n) = n"
proof (induction n rule: decimal.induct)
  case (1 n)
  have "byte (char_of (48 + m)) = 48 + m" if "m < 10" for m :: nat using that by simp
  then show ?case using 1 by (simp add: decimal.simps [of n])
qed

text \<open>A number that was printed is read back, and only a positive one that fits is accepted.\<close>

lemma parse_u32_decimal: "n < 2 ^ 32 \<Longrightarrow> parse_u32 (decimal n) = Some n"
  using decimal_not_plus [of n] decimal_digits [of _ n] digits_value [of n]
  by (cases "decimal n") (auto simp: parse_u32_def list_all_iff)

lemma retention_months_positive: "retention_months var = Inr n \<Longrightarrow> 0 < n"
  by (auto simp: retention_months_def RETENTION_MONTHS_def bind_eq_Some_conv split: option.splits if_splits)

lemma write_one_queued:
  "queued a = e # es \<Longrightarrow> write_one b (a, rows) =
     (if b then (a\<lparr>queued := es\<rparr>, rows @ [\<lparr>row_event = e, row_decision = fst (as_pair (ev_decision e)),
          row_reason = snd (as_pair (ev_decision e))\<rparr>])
      else (a\<lparr>queued := es, dropped := dropped a + 1\<rparr>, rows))"
  by (simp add: write_one_def Let_def case_prod_beta)

text \<open>The loop ends with the queue empty, the rows the database took in order, and the rest counted.\<close>

lemma write_audit_drains:
  "\<exists>a' rows'. write_audit ok (a, rows) = Some (a', rows') \<and> queued a' = []
     \<and> map row_event rows' = map row_event rows @ filter ok (queued a)
     \<and> dropped a' = dropped a + of_nat (length (filter (\<lambda>e. \<not> ok e) (queued a)))"
proof (induction "queued a" arbitrary: a rows)
  case Nil
  then show ?case by (simp add: write_audit_def while_option_unfold)
next
  case (Cons e es)
  obtain a1 rows1 where one: "write_one (ok e) (a, rows) = (a1, rows1)" by force
  then have q: "queued a1 = es" "dropped a1 = dropped a + (if ok e then 0 else 1)"
    "map row_event rows1 = map row_event rows @ (if ok e then [e] else [])"
    using Cons.hyps(2) by (auto simp: write_one_queued [OF Cons.hyps(2) [symmetric]] split: if_splits)
  from Cons.hyps(1) [OF q(1) [symmetric], of rows1] obtain a' rows' where
    rest: "write_audit ok (a1, rows1) = Some (a', rows')" "queued a' = []"
      "map row_event rows' = map row_event rows1 @ filter ok (queued a1)"
      "dropped a' = dropped a1 + of_nat (length (filter (\<lambda>e. \<not> ok e) (queued a1)))" by blast
  have "write_audit ok (a, rows) = write_audit ok (a1, rows1)"
    using one Cons.hyps(2) unfolding write_audit_def
    by (subst while_option_unfold) (simp flip: Cons.hyps(2))
  then show ?case
    using rest q Cons.hyps(2) by (intro exI [of _ a'] exI [of _ rows']) (simp flip: Cons.hyps(2))
qed

lemma pending_flushed: "pending_events (flush_all c) = []"
proof -
  have "dom (map_of (entries (inner (flush_all c)))) = {}" using lookup_flush_all [of c] by simp
  then have "entries (inner (flush_all c)) = []" by (simp only: dom_map_of_conv_image_fst image_is_empty set_empty)
  then show ?thesis by (simp add: pending_events_def)
qed

lemma flush_all_offers:
  assumes "cache_ok c"
  obtains evs where "sink (flush_all c) = fold record_event evs (sink c)" "mset evs = mset (pending_events c)"
proof -
  obtain evs where "drains c (flush_all c) evs"
    using drains_evict_all [OF assms] unfolding drops_alt by blast
  then show ?thesis using that by (simp add: drains_def pending_flushed)
qed

section \<open>Properties\<close>



end
