(* ===== verification/Server.thy ===== *)
theory Server
  imports Tables Audit_View Lifecycle
begin

text \<open>
  The whole backend as one function of a request: the router of \<open>api.rs\<close> with the routes \<open>admin.rs\<close>
  mounts, the middleware in the order it wraps them - the session index outside, the guard of the
  management plane inside - and every handler. What each request meets outside the process is one
  record. The properties span the components: who can change anything, and that no request, and none
  of the tasks beside them, breaks an invariant of any component.
\<close>

section \<open>Routes\<close>

datatype endpoint =
    Decide | Metrics | Healthz | Readyz | Me | Apps | Logout
  | List_applications | New_application | Patch_application string | Drop_application string
  | List_entitlements | New_entitlement | Drop_entitlement string
  | List_audit | List_sessions | Explain | Kill string | List_users | Reset_second_factor

text \<open>A segment of a route's path: literal, or a parameter.\<close>

datatype segment = Lit string | Param

text \<open>The router's tables: what a person calls, and the management plane; a handler gets the captured parameter.\<close>

type_synonym routes = "(segment list \<times> (http_method \<times> (string \<Rightarrow> endpoint)) list) list"

definition open_routes :: routes where
  "open_routes =
     [([Lit ''decide''], [(GET, \<lambda>_. Decide)]), ([Lit ''metrics''], [(GET, \<lambda>_. Metrics)]),
      ([Lit ''healthz''], [(GET, \<lambda>_. Healthz)]), ([Lit ''readyz''], [(GET, \<lambda>_. Readyz)])]"

definition portal_routes :: routes where
  "portal_routes =
     [([Lit ''api'', Lit ''me''], [(GET, \<lambda>_. Me)]), ([Lit ''api'', Lit ''apps''], [(GET, \<lambda>_. Apps)]),
      ([Lit ''api'', Lit ''logout''], [(POST, \<lambda>_. Logout)])]"

definition admin_path :: "segment list \<Rightarrow> segment list" where
  "admin_path rest = Lit ''api'' # Lit ''admin'' # rest"

definition admin_routes :: routes where
  "admin_routes =
     [(admin_path [Lit ''applications''], [(GET, \<lambda>_. List_applications), (POST, \<lambda>_. New_application)]),
      (admin_path [Lit ''applications'', Param], [(PATCH, Patch_application), (DELETE, Drop_application)]),
      (admin_path [Lit ''entitlements''], [(GET, \<lambda>_. List_entitlements), (POST, \<lambda>_. New_entitlement)]),
      (admin_path [Lit ''entitlements'', Param], [(DELETE, Drop_entitlement)]),
      (admin_path [Lit ''audit''], [(GET, \<lambda>_. List_audit)]),
      (admin_path [Lit ''sessions''], [(GET, \<lambda>_. List_sessions)]),
      (admin_path [Lit ''explain''], [(GET, \<lambda>_. Explain)]),
      (admin_path [Lit ''kill'', Param], [(POST, Kill)]),
      (admin_path [Lit ''users''], [(GET, \<lambda>_. List_users)]),
      (admin_path [Lit ''reset-second-factor''], [(POST, \<lambda>_. Reset_second_factor)])]"

text \<open>
  Matching a request against a table is axum's: a router is a parameter. What the code relies on is
  that it answers with a handler of the table, registered for that method, or for \<open>GET\<close> when the
  request is a \<open>HEAD\<close>.
\<close>

datatype routed = Unknown_path | Wrong_method reply | Endpoint endpoint

type_synonym router = "routes \<Rightarrow> http_method \<Rightarrow> string list \<Rightarrow> routed"

definition routes_by_table :: "router \<Rightarrow> bool" where
  "routes_by_table route \<longleftrightarrow>
     (\<forall>table m path ep. route table m path = Endpoint ep \<longrightarrow>
        (\<exists>pattern handlers m' h param. (pattern, handlers) \<in> set table \<and> (m', h) \<in> set handlers
           \<and> (m' = m \<or> m = HEAD \<and> m' = GET) \<and> ep = h param))"

section \<open>What a request meets\<close>

text \<open>
  The library functions, the answers of every store and service, and what the extractors make of the
  path, the query and the body: a value, or the rejection axum answers with.
\<close>

record outside =
  o_route :: router
  o_no_route :: reply
  o_libs :: libs
  o_kc_libs :: kc_libs
  o_parse_url :: url_parser
  o_show_time :: "time \<Rightarrow> string"
  o_version :: string
  o_decide :: env
  o_index_ok :: "bool \<times> bool"
  o_logout :: logout_env
  o_kill :: kill_env
  o_keycloak :: world
  o_db :: db_env
  o_publish :: publish_env
  o_ping :: "bool \<times> bool"
  o_now :: time
  o_app_order :: "application list \<Rightarrow> application list"
  o_ent_order :: "entitlement list \<Rightarrow> entitlement list"
  o_audit :: "db_error + audit_line list"
  o_audit_order :: "audit_line list \<Rightarrow> audit_line list"
  o_scan :: "string list option list"
  o_live_ok :: "live_command \<Rightarrow> bool"
  o_uuid :: "string \<Rightarrow> reply + uuid"
  o_new_application :: "reply + new_application"
  o_patch :: "reply + application_patch"
  o_new_entitlement :: "reply + new_entitlement"
  o_username :: "reply + string"
  o_user_query :: "reply + string \<times> nat"
  o_audit_query :: "reply + audit_query"
  o_explain_query :: "reply + explain_query"
  o_json_audit :: "audit_line list \<Rightarrow> json"
  o_json_sessions :: "live_session list \<Rightarrow> json"
  o_json_explained :: "explained \<Rightarrow> json"

record http_call =
  call_method :: http_method
  call_path :: "string list"
  call_headers :: headers

section \<open>The handlers behind the guard\<close>

text \<open>The handler runs on an extracted value; a rejection is answered as it is.\<close>

definition extracted :: "reply + 'a \<Rightarrow> ('a \<Rightarrow> 's \<Rightarrow> 's \<times> reply option) \<Rightarrow> 's \<Rightarrow> 's \<times> reply option" where
  "extracted v h s = (case v of Inl r \<Rightarrow> (s, Some r) | Inr a \<Rightarrow> h a s)"

definition replies :: "'s \<times> reply \<Rightarrow> 's \<times> reply option" where
  "replies sr = (fst sr, Some (snd sr))"

text \<open>The rows of a table, when the database answers.\<close>

definition rows_of :: "outside \<Rightarrow> 'a list \<Rightarrow> db_error + 'a list" where
  "rows_of out rows = (if db_up (o_db out) then Inr rows else Inl Db_failure)"

definition as_reply :: "('a \<Rightarrow> json) \<Rightarrow> reply + 'a \<Rightarrow> reply" where
  "as_reply to_json v = (case v of Inl r \<Rightarrow> r | Inr a \<Rightarrow> with_json 200 (to_json a))"

fun admin_handler :: "outside \<Rightarrow> ctx \<Rightarrow> headers \<Rightarrow> endpoint \<Rightarrow> system \<Rightarrow> system \<times> reply option" where
  "admin_handler out x hs List_applications s =
     (s, Some (list_applications (o_kc_libs out) (rows_of out (o_app_order out (sys_applications s)))))"
| "admin_handler out x hs New_application s =
     extracted (o_new_application out) (\<lambda>n s. replies
       (create_application (o_kc_libs out) (o_parse_url out) x (o_db out) (o_publish out) n s)) s"
| "admin_handler out x hs (Patch_application raw) s =
     extracted (o_uuid out raw) (\<lambda>u. extracted (o_patch out) (\<lambda>patch s. replies
       (update_application (o_kc_libs out) (o_parse_url out) x (o_db out) (o_publish out) u patch s))) s"
| "admin_handler out x hs (Drop_application raw) s =
     extracted (o_uuid out raw) (\<lambda>u s. replies (delete_application (o_parse_url out) x (o_db out) (o_publish out) u s)) s"
| "admin_handler out x hs List_entitlements s =
     (s, Some (list_entitlements (o_kc_libs out) (o_show_time out) (rows_of out (o_ent_order out (sys_entitlements s)))))"
| "admin_handler out x hs New_entitlement s =
     extracted (o_new_entitlement out) (\<lambda>n s. replies
       (create_entitlement (o_kc_libs out) (o_show_time out) (o_db out) n s)) s"
| "admin_handler out x hs (Drop_entitlement raw) s =
     extracted (o_uuid out raw) (\<lambda>u s. replies (delete_entitlement (o_db out) u s)) s"
| "admin_handler out x hs List_audit s =
     extracted (o_audit_query out) (\<lambda>q s. (s, Some (as_reply (o_json_audit out) (list_audit (o_audit out) q)))) s"
| "admin_handler out x hs List_sessions s =
     (s, Some (as_reply (o_json_sessions out)
        (list_sessions (o_audit_order out) (index_live (o_live_ok out) (o_scan out) (st_redis s)) (o_audit out))))"
| "admin_handler out x hs Explain s =
     extracted (o_explain_query out) (\<lambda>q s. (s, Some (as_reply (o_json_explained out)
        (explain_request (o_ent_order out) (rows_of out (sys_applications s)) (rows_of out (sys_entitlements s)) (o_now out) q)))) s"
| "admin_handler out x hs (Kill raw) s =
     extracted (o_uuid out raw) (\<lambda>u s. replies (kill (o_kc_libs out) (lib_hash (o_libs out)) x (o_kill out) u s)) s"
| "admin_handler out x hs List_users s =
     extracted (o_user_query out) (\<lambda>q s. replies
       (list_users (o_kc_libs out) x (o_keycloak out) (fst q) (snd q) s)) s"
| "admin_handler out x hs Reset_second_factor s =
     extracted (o_username out) (\<lambda>raw. reset_second_factor (o_kc_libs out) x (o_keycloak out) hs raw) s"
| "admin_handler out x hs _ s = (s, Some (plain 404))"

section \<open>The server\<close>

text \<open>\<open>/decide\<close> on the tables of the moment, unless the query fails or is too slow.\<close>

definition decide_on :: "outside \<Rightarrow> headers \<Rightarrow> system \<Rightarrow> system \<times> reply option" where
  "decide_on out hs s =
     (let e = o_decide out;
          answered_by = (case database e of
              Db_rows _ _ \<Rightarrow> Db_rows (sys_applications s) (sys_entitlements s) | failure \<Rightarrow> failure);
          (st, r) = decide_handler (o_libs out) (e\<lparr>database := answered_by\<rparr>) hs (state.truncate s)
      in (s\<lparr>st_cache := st_cache st, st_metrics := st_metrics st, st_redis := st_redis st\<rparr>,
          Some \<lparr>status = status r, response_headers = response_headers r, body = No_body\<rparr>))"

fun open_handler :: "outside \<Rightarrow> headers \<Rightarrow> endpoint \<Rightarrow> system \<Rightarrow> system \<times> reply option" where
  "open_handler out hs Decide s = decide_on out hs s"
| "open_handler out hs Metrics s = (s, Some (exposition (o_version out) s))"
| "open_handler out hs Healthz s = (s, Some (plain 200))"
| "open_handler out hs Readyz s = (s, Some (readyz (fst (o_ping out)) (snd (o_ping out))))"
| "open_handler out hs _ s = (s, Some (plain 404))"

fun portal_handler :: "outside \<Rightarrow> ctx \<Rightarrow> headers \<Rightarrow> endpoint \<Rightarrow> system \<Rightarrow> system \<times> reply option" where
  "portal_handler out x hs Me s = (s, Some (me (admin_group x) (auditor_group x) hs))"
| "portal_handler out x hs Apps s =
     (s, Some (apps (o_app_order out)
        (if db_up (o_db out) then Some (sys_applications s, sys_entitlements s) else None) (o_now out) hs))"
| "portal_handler out x hs Logout s = replies (logout (o_libs out) (portal_origin x) (o_logout out) hs s)"
| "portal_handler out x hs _ s = (s, Some (plain 404))"

definition serve :: "outside \<Rightarrow> ctx \<Rightarrow> http_call \<Rightarrow> system \<Rightarrow> system \<times> reply option" where
  "serve out x call s =
     (let m = call_method call; path = call_path call; hs = call_headers call;
          index_first = indexed (o_libs out) (o_index_ok out) hs
      in case o_route out open_routes m path of
           Endpoint ep \<Rightarrow> open_handler out hs ep s
         | Wrong_method r \<Rightarrow> (s, Some r)
         | Unknown_path \<Rightarrow>
             (case o_route out portal_routes m path of
                Endpoint ep \<Rightarrow> index_first (portal_handler out x hs ep) s
              | Wrong_method r \<Rightarrow> (s, Some r)
              | Unknown_path \<Rightarrow>
                  (case o_route out admin_routes m path of
                     Endpoint ep \<Rightarrow> index_first (guard x m hs (admin_handler out x hs ep)) s
                   | Wrong_method r \<Rightarrow> (s, Some r)
                   | Unknown_path \<Rightarrow> (s, Some (o_no_route out)))))"

section \<open>What leaves the management plane alone\<close>

definition plane_kept :: "ctx \<Rightarrow> system \<Rightarrow> system \<Rightarrow> bool" where
  "plane_kept x s s' \<longleftrightarrow>
     sys_applications s' = sys_applications s \<and> sys_entitlements s' = sys_entitlements s
     \<and> sys_volume s' = sys_volume s
     \<and> (\<exists>new. sys_sent s' = sys_sent s @ new \<and> list_all (reads (ctx_keycloak x)) new)"

lemma plane_kept_refl [simp]: "plane_kept x s s"
  by (auto simp: plane_kept_def intro: exI [of _ "[]"])

lemma plane_kept_cache: "plane_kept x s (s'\<lparr>st_cache := c\<rparr>) = plane_kept x s s'"
  by (simp add: plane_kept_def)

lemma plane_kept_redis [simp]: "plane_kept x (s\<lparr>st_redis := r\<rparr>) s' = plane_kept x s s'"
  "plane_kept x s (s'\<lparr>st_redis := r\<rparr>) = plane_kept x s s'"
  by (simp_all add: plane_kept_def)

lemma plane_kept_open: "plane_kept x s (fst (open_handler out hs ep s))"
  by (cases ep) (simp_all add: decide_on_def Let_def case_prod_beta plane_kept_def exI [of _ "[]"])

lemma logout_fields:
  assumes "logout L origin e hs st = (st', r)"
  shows "st' = st\<lparr>st_redis := st_redis st', st_cache := st_cache st'\<rparr>"
  using assms by (cases rule: logout_cases) simp_all

lemma plane_kept_portal: "plane_kept x s (fst (portal_handler out x hs ep s))"
proof (cases "ep = Logout")
  case True
  let ?s = "fst (logout (o_libs out) (portal_origin x) (o_logout out) hs s)"
  have "?s = s\<lparr>st_redis := st_redis ?s, st_cache := st_cache ?s\<rparr>" by (rule logout_fields [OF surjective_pairing])
  then have "plane_kept x s ?s" by (metis plane_kept_cache plane_kept_redis(2) plane_kept_refl)
  then show ?thesis using True by (simp add: replies_def)
next
  case False
  then show ?thesis by (cases ep) simp_all
qed

lemma plane_kept_users: "plane_kept x s (fst (list_users lib x w raw page s))"
proof -
  obtain log res where u: "users lib w (ctx_keycloak x) (str_trim raw) (saturating_mul32 page PAGE) PAGE
      [admin_group x, auditor_group x] (sys_sent s) = (log, res)" by force
  from sendsD [OF sends_users u] obtain new where "log = sys_sent s @ new" "list_all (reads (ctx_keycloak x)) new" by blast
  then show ?thesis
    by (cases res) (auto simp: list_users_def Let_def u plane_kept_def intro: exI [of _ "[]"])
qed

definition reading_endpoint :: "endpoint \<Rightarrow> bool" where
  "reading_endpoint ep \<longleftrightarrow>
     ep \<in> {List_applications, List_entitlements, List_audit, List_sessions, Explain, List_users}"

lemma plane_kept_reading: "reading_endpoint ep \<Longrightarrow> plane_kept x s (fst (admin_handler out x hs ep s))"
  by (auto simp: reading_endpoint_def extracted_def replies_def plane_kept_users split: sum.split)

lemma admin_get_reads:
  assumes "routes_by_table route" "route admin_routes m path = Endpoint ep" "reads_only m"
  shows "reading_endpoint ep"
proof -
  obtain pattern handlers m' h param where "(pattern, handlers) \<in> set admin_routes" "(m', h) \<in> set handlers"
    "m' = m \<or> m = HEAD \<and> m' = GET" "ep = h param"
    using assms(1,2) unfolding routes_by_table_def by blast
  then show ?thesis using assms(3) by (auto simp: admin_routes_def reads_only_def reading_endpoint_def)
qed

lemma guard_cases:
  obtains (refused) code where "guard x m hs rest s = (s, Some (plain code))"
  | (admitted) c where "caller_from hs = Some c" "may_manage (caller_groups c) (admin_group x) (auditor_group x) (reads_only m)"
      "reads_only m \<or> from_portal hs (portal_origin x)" "guard x m hs rest s = rest s"
proof (cases "caller_from hs")
  case None
  then show ?thesis using that(1) by (simp add: guard_def)
next
  case (Some c)
  show ?thesis
  proof (cases "may_manage (caller_groups c) (admin_group x) (auditor_group x) (reads_only m)
      \<and> (reads_only m \<or> from_portal hs (portal_origin x))")
    case True
    then have "guard x m hs rest s = rest s" using Some by (auto simp: guard_def)
    then show ?thesis using that(2) Some True by blast
  next
    case False
    then have "guard x m hs rest s = (s, Some (plain 403))" using Some by (auto simp: guard_def)
    then show ?thesis by (rule that(1))
  qed
qed

lemma plane_kept_admin:
  assumes "routes_by_table route" "route admin_routes m path = Endpoint ep"
    and "\<not> plane_kept x s (fst (guard x m hs (admin_handler out x hs ep) s))"
  obtains c where "caller_from hs = Some c" "in_group (caller_groups c) (admin_group x)" "\<not> reads_only m"
    "from_portal hs (portal_origin x)"
proof (cases rule: guard_cases [of x m hs "admin_handler out x hs ep" s])
  case (refused code)
  then show ?thesis using assms(3) by simp
next
  case (admitted c)
  then have "\<not> reads_only m" using assms admin_get_reads [OF assms(1,2)] plane_kept_reading by metis
  then show ?thesis using admitted that by (auto simp: may_manage_def)
qed

section \<open>Invariants of the process\<close>

text \<open>What a cache entry may be: its owner and its value. Only an insert brings in a new one.\<close>

definition entries_all :: "(string \<Rightarrow> cached \<Rightarrow> bool) \<Rightarrow> cache \<Rightarrow> bool" where
  "entries_all P c \<longleftrightarrow> (\<forall>k e. lookup c k = Some e \<longrightarrow> P (entry_sub e) (entry_cached e))"

fun inserts_only :: "(string \<Rightarrow> cached \<Rightarrow> bool) \<Rightarrow> cache_op \<Rightarrow> bool" where
  "inserts_only P (Insert now k sub v) = P sub v"
| "inserts_only P _ = True"

lemma entries_all_apply:
  assumes "entries_all P c" "inserts_only P op"
  shows "entries_all P (apply_op hash op c)"
proof (cases op)
  case (Insert now k sub v)
  have "P (entry_sub e) (entry_cached e)" if "lookup (placed now k sub v c) k' = Some e" for k' e
    using that assms Insert by (auto simp: lookup_placed entries_all_def split: if_splits)
  then show ?thesis
    using Insert shrink_submap [of "placed now k sub v c"] by (auto simp: entries_all_def insert_cached_alt)
next
  case (Count now k d path src rq)
  have "P (entry_sub e) (entry_cached e)" if l: "lookup (apply_op hash op c) k' = Some e" for k' e
  proof -
    obtain e0 where "lookup c k' = Some e0" "same_entry e0 e"
      using lookup_count [of now hash k d path src rq c k' e] l Count by auto
    then show ?thesis using assms(1) unfolding entries_all_def same_entry_def by metis
  qed
  then show ?thesis unfolding entries_all_def by blast
next
  case (Set_subscribed on)
  then show ?thesis using assms(1) by (auto simp: entries_all_def set_subscribed_def Let_def)
qed (use assms(1) in \<open>auto simp: entries_all_def drops_alt restrict_map_def split: if_splits\<close>)

lemma entries_all_run: "entries_all P c \<Longrightarrow> list_all (inserts_only P) ops \<Longrightarrow> entries_all P (run_ops hash ops c)"
  by (induction ops arbitrary: c) (simp_all add: run_ops_def entries_all_apply)

lemma entries_all_sink [simp]: "entries_all P (c\<lparr>sink := a\<rparr>) = entries_all P c"
  by (simp add: entries_all_def)

lemma entries_all_drop: "entries_all P c \<Longrightarrow> entries_all P (drop_sub sub c)"
  using entries_all_apply [of P c "Drop_sub sub"] by simp

text \<open>The owner of an entry is the subject of its identity: what \<open>/decide\<close> inserts.\<close>

definition attributed :: "string \<Rightarrow> cached \<Rightarrow> bool" where
  "attributed sub v \<longleftrightarrow> sub = text_or_default (id_sub (cached_identity v))"

abbreviation attributes :: "cache_op list \<Rightarrow> bool" where
  "attributes ops \<equiv> list_all (inserts_only attributed) ops"

text \<open>The cache operations of other tasks are operations of this program.\<close>

definition own_tasks :: "outside \<Rightarrow> bool" where
  "own_tasks out \<longleftrightarrow>
     attributes (others_waiting (o_decide out)) \<and> attributes (others_filling (o_decide out))
     \<and> attributes (others_counting (o_decide out)) \<and> attributes (out_others (o_logout out))
     \<and> attributes (kill_others (o_kill out))"

text \<open>Every component's invariant at once.\<close>

definition server_ok :: "url_parser \<Rightarrow> ctx \<Rightarrow> system \<Rightarrow> bool" where
  "server_ok parse x s \<longleftrightarrow>
     cache_ok (st_cache s) \<and> entries_all attributed (st_cache s) \<and> index_ok (st_redis s) \<and> metrics_ok (st_metrics s)
     \<and> tables_ok parse (portal_origin x) (sys_applications s) (sys_entitlements s)"

text \<open>What one request does to Redis when it is not revoking anything: nothing, or the index write.\<close>

definition indexes_only :: "libs \<Rightarrow> headers \<Rightarrow> redis \<Rightarrow> redis \<Rightarrow> bool" where
  "indexes_only L hs r r' \<longleftrightarrow>
     r' = r \<or> (\<exists>ok sub k. session_of L (map_of hs ''cookie'') = Some k \<and> r' = fst (record_session ok sub k r))"

lemma index_ok_indexes: "indexes_only L hs r r' \<Longrightarrow> index_ok r \<Longrightarrow> index_ok r'"
  using record_session_frame(6) [OF surjective_pairing] session_of_name by (fastforce simp: indexes_only_def)

lemma fill_redis: "indexes_only L hs (st_redis st) (st_redis (fst (fill_and_answer L e (map_of hs ''cookie'') request st)))"
proof (cases "authenticate e (map_of hs ''cookie'')")
  case (Verified i set_cookie)
  show ?thesis
  proof (cases "session_of L (map_of hs ''cookie'')")
    case None
    then show ?thesis
      using Verified by (simp add: fill_and_answer_def session_of_def Let_def refuse_simps indexes_only_def)
  next
    case (Some k)
    obtain r u where r: "record_session (redis_ok e) (text_or_default (id_sub i)) k (st_redis st) = (r, u)" by force
    then have "st_redis (fst (fill_and_answer L e (map_of hs ''cookie'') request st)) = r"
      using Verified Some
      by (cases u; cases "load e request i")
        (simp_all add: fill_and_answer_def session_of_def Let_def refuse_simps answer_redis case_prod_beta)
    then show ?thesis using Some r unfolding indexes_only_def by (metis fst_conv)
  qed
qed (simp_all add: fill_and_answer_def refuse_simps indexes_only_def)

lemma decided_redis: "indexes_only L hs (st_redis st) (st_redis (fst (decided L e hs st)))"
proof -
  have same: "indexes_only L hs r r" for r by (simp add: indexes_only_def)
  have fill: "indexes_only L hs (st_redis st) (st_redis (fst (fill_and_answer L e (map_of hs ''cookie'') request st')))"
    if "st_redis st' = st_redis st" for request st' using fill_redis that by metis
  show ?thesis
    by (auto simp: decided_def Let_def refuse_simps answer_redis same intro!: fill split: option.split sum.split)
qed

lemma decided_metrics:
  assumes "metrics_ok (st_metrics st)"
  shows "metrics_ok (st_metrics (fst (decided L e hs st)))"
proof -
  obtain road ops st' where ends: "ends L e hs st road ops st' (decided L e hs st)" using decided_ends by blast
  then have "metrics_ok (st_metrics st')" using ends_way assms unfolding on_the_way_def by blast
  then have out: "metrics_ok (outcome d (st_metrics st'))" "metrics_ok (unauthenticated (st_metrics st'))" for d
    by (simp_all add: metrics_ok_outcome) (simp add: metrics_ok_def unauthenticated_def)
  from ends show ?thesis
    by (cases rule: ends.cases) (use out in \<open>simp_all add: refuse_simps answer_metrics\<close>)
qed

lemma decided_cache:
  assumes "cache_ok (st_cache st)"
  shows "cache_ok (st_cache (fst (decided L e hs st)))"
proof -
  obtain road ops st' where "ends L e hs st road ops st' (decided L e hs st)" using decided_ends by blast
  from ends_audited [OF this assms] show ?thesis unfolding audited_def by blast
qed

text \<open>Nothing but the operations of other tasks and its own insert, of the user it verified.\<close>

lemma answer_entries:
  assumes "entries_all P (st_cache st)" "list_all (inserts_only P) (others_counting e)"
  shows "entries_all P (st_cache (fst (answer L e request v st)))"
proof -
  have c: "entries_all P (run_ops (lib_hash L) (others_counting e) (st_cache st))"
    using assms by (rule entries_all_run)
  moreover have "list_all (inserts_only P) (count_op e request v)" by (simp add: count_op_def split: option.split)
  ultimately show ?thesis by (simp add: answer_cache Let_def entries_all_run)
qed

lemma decided_entries:
  assumes "entries_all attributed (st_cache st)"
    and "attributes (others_waiting e)" "attributes (others_filling e)" "attributes (others_counting e)"
  shows "entries_all attributed (st_cache (fst (decided L e hs st)))"
proof -
  obtain road ops st' where ends: "ends L e hs st road ops st' (decided L e hs st)" using decided_ends by blast
  have sub: "attributes ops" if "set ops \<subseteq> set (others_waiting e)" for ops
    using that assms(2) by (auto simp: list_all_iff)
  have "attributes (insert_ops e request i v)" if "load e request i = Inr v" for request i v
    using load_identity [OF that] by (simp add: insert_ops_def attributed_def split: option.split)
  with ends have "attributes ops"
    by (cases rule: ends.cases) (use sub assms(2,3) in auto)
  then have c: "entries_all attributed (st_cache st')"
    using ends_way [OF ends] assms(1) by (simp add: on_the_way_def entries_all_run)
  from ends show ?thesis
    by (cases rule: ends.cases) (use c answer_entries [OF c assms(4)] in \<open>simp_all add: refuse_simps\<close>)
qed

lemma server_ok_decide:
  assumes "server_ok parse x s" "own_tasks out"
  shows "server_ok parse x (fst (decide_on out hs s))"
proof -
  let ?st = "state.truncate s"
  have t: "st_cache ?st = st_cache s" "st_metrics ?st = st_metrics s" "st_redis ?st = st_redis s"
    by (simp_all add: state.truncate_def)
  have "entries_all attributed (st_cache (fst (decided L (o_decide out\<lparr>database := db\<rparr>) hs ?st)))" for L db
    by (rule decided_entries) (use assms in \<open>simp_all add: t server_ok_def own_tasks_def\<close>)
  moreover have "cache_ok (st_cache (fst (decided L e hs ?st)))" "metrics_ok (st_metrics (fst (decided L e hs ?st)))"
    "index_ok (st_redis (fst (decided L e hs ?st)))" for L e
    using decided_cache [of ?st] decided_metrics [of ?st] index_ok_indexes [OF decided_redis [of L hs ?st e]] assms
    unfolding t by (simp_all add: server_ok_def)
  ultimately show ?thesis
    using assms by (simp add: server_ok_def decide_on_def Let_def decide_handler_def case_prod_beta total_outcomes_frame observe_def metrics_ok_def)
qed

lemma server_ok_frame:
  assumes "server_ok parse x s" "st_cache s' = st_cache s" "st_redis s' = st_redis s" "st_metrics s' = st_metrics s"
    and "system_ok parse x s'"
  shows "server_ok parse x s'"
  using assms by (simp add: server_ok_def system_ok_def)

text \<open>The calls on the tables leave the rest of the process alone.\<close>

lemma run_call_frame:
  assumes "run_call lib parse show_time x c s = (s', r)"
  shows "st_cache s' = st_cache s" "st_redis s' = st_redis s" "st_metrics s' = st_metrics s"
proof -
  have "st_cache s' = st_cache s \<and> st_redis s' = st_redis s \<and> st_metrics s' = st_metrics s"
  proof (cases c)
    case (Create_application d p n)
    then show ?thesis using assms
      by (auto simp: create_application_def dest: publish_status_frame(3,4,6) split: sum.splits prod.splits)
  next
    case (Update_application d p uid patch)
    then show ?thesis using assms
      by (auto simp: update_application_def dest: publish_status_frame(3,4,6) split: sum.splits prod.splits option.splits)
  next
    case (Delete_application d p uid)
    then show ?thesis using assms
      by (auto simp: delete_application_def Let_def dest: publish_status_frame(3,4,6) split: sum.splits prod.splits if_splits)
  next
    case (Create_entitlement d n)
    then show ?thesis using assms by (auto simp: create_entitlement_def split: sum.splits prod.splits)
  next
    case (Delete_entitlement d uid)
    then show ?thesis using assms by (auto simp: delete_entitlement_def split: sum.splits prod.splits if_splits)
  qed
  then show "st_cache s' = st_cache s" "st_redis s' = st_redis s" "st_metrics s' = st_metrics s" by simp_all
qed

lemma server_ok_call:
  assumes "server_ok parse x s"
  shows "server_ok parse x (fst (run_call lib parse show_time x c s))"
proof (rule server_ok_frame [OF assms run_call_frame [OF surjective_pairing]])
  show "system_ok parse x (fst (run_call lib parse show_time x c s))"
    by (rule system_ok_call) (use assms in \<open>simp add: system_ok_def server_ok_def\<close>)
qed

lemma server_ok_sent:
  "server_ok parse x (s\<lparr>sys_sent := log\<rparr>) = server_ok parse x s"
  by (simp add: server_ok_def)

lemma kill_fields:
  assumes "kill lib hash x e uid s = (s', r)"
  shows "s' = s\<lparr>st_redis := st_redis s', st_cache := st_cache s', sys_sent := sys_sent s'\<rparr>"
  using assms by (auto simp: kill_def Let_def split: sum.splits prod.splits logout_error.splits)

lemma server_ok_kill:
  assumes "server_ok parse x s" "attributes (kill_others e)"
  shows "server_ok parse x (fst (kill lib hash x e uid s))"
proof -
  obtain s' r where k: "kill lib hash x e uid s = (s', r)" by force
  have "cache_ok (st_cache s') \<and> entries_all attributed (st_cache s')"
    using k assms
    by (cases rule: kill_cases) (simp_all add: server_ok_def cache_ok_drop cache_ok_runs entries_all_drop entries_all_run)
  moreover have "index_ok (st_redis s')" using index_ok_kill [OF k] assms(1) by (simp add: server_ok_def)
  moreover have "st_metrics s' = st_metrics s" "sys_applications s' = sys_applications s"
    "sys_entitlements s' = sys_entitlements s"
    by (subst kill_fields [OF k], simp)+
  ultimately show ?thesis using assms k by (simp add: server_ok_def)
qed

lemma server_ok_logout:
  assumes "server_ok parse x s" "attributes (out_others e)"
  shows "server_ok parse x (fst (logout L origin e hs s))"
proof -
  obtain s' r where l: "logout L origin e hs s = (s', r)" by force
  have "cache_ok (st_cache s')" "index_ok (st_redis s')" using logout_shrinks [OF l] assms(1) by (simp_all add: server_ok_def)
  moreover have "entries_all attributed (st_cache s')"
    using l assms by (cases rule: logout_cases) (simp_all add: server_ok_def entries_all_drop entries_all_run)
  moreover have "st_metrics s' = st_metrics s" "sys_applications s' = sys_applications s"
    "sys_entitlements s' = sys_entitlements s"
    by (subst logout_fields [OF l], simp)+
  ultimately show ?thesis using assms l by (simp add: server_ok_def)
qed

lemma reset_fields:
  "\<exists>log. fst (reset_second_factor lib x w hs raw s) = s\<lparr>sys_sent := log\<rparr>"
proof -
  have "s = s\<lparr>sys_sent := sys_sent s\<rparr>" by simp
  then show ?thesis
    unfolding reset_second_factor_def Let_def
    by (auto split: option.split sum.split prod.split trouble.split intro: exI [of _ "sys_sent s"])
qed

lemma users_fields: "\<exists>log. fst (list_users lib x w raw page s) = s\<lparr>sys_sent := log\<rparr>"
proof -
  have "s = s\<lparr>sys_sent := sys_sent s\<rparr>" by simp
  then show ?thesis
    unfolding list_users_def Let_def by (auto split: sum.split prod.split intro: exI [of _ "sys_sent s"])
qed

lemma server_ok_admin:
  assumes "server_ok (o_parse_url out) x s" "own_tasks out"
  shows "server_ok (o_parse_url out) x (fst (admin_handler out x hs ep s))"
proof -
  note call = server_ok_call [OF assms(1), of "o_kc_libs out" "o_show_time out"]
  have sent: "server_ok (o_parse_url out) x (fst (list_users lib x w raw page s))"
    "server_ok (o_parse_url out) x (fst (reset_second_factor lib x w hs raw s))" for lib w raw page
    using users_fields [of lib x w raw page s] reset_fields [of lib x w hs raw s] assms server_ok_sent by metis+
  show ?thesis
  proof (cases ep)
    case New_application
    then show ?thesis using call [of "Create_application (o_db out) (o_publish out) n" for n] assms
      by (simp add: extracted_def replies_def split: sum.split)
  next
    case (Patch_application raw)
    then show ?thesis using call [of "Update_application (o_db out) (o_publish out) u p" for u p] assms
      by (simp add: extracted_def replies_def split: sum.split)
  next
    case (Drop_application raw)
    then show ?thesis using call [of "Delete_application (o_db out) (o_publish out) u" for u] assms
      by (simp add: extracted_def replies_def split: sum.split)
  next
    case New_entitlement
    then show ?thesis using call [of "Create_entitlement (o_db out) n" for n] assms
      by (simp add: extracted_def replies_def split: sum.split)
  next
    case (Drop_entitlement raw)
    then show ?thesis using call [of "Delete_entitlement (o_db out) u" for u] assms
      by (simp add: extracted_def replies_def split: sum.split)
  next
    case (Kill raw)
    then show ?thesis using server_ok_kill [OF assms(1)] assms(1) assms(2) [unfolded own_tasks_def]
      by (simp add: extracted_def replies_def split: sum.split)
  next
    case List_users
    then show ?thesis using sent(1) assms by (simp add: extracted_def replies_def split: sum.split)
  next
    case Reset_second_factor
    then show ?thesis using sent(2) assms by (simp add: extracted_def split: sum.split)
  qed (use assms in \<open>simp_all add: extracted_def split: sum.split\<close>)
qed

lemma server_ok_portal:
  "server_ok parse x s \<Longrightarrow> own_tasks out \<Longrightarrow> server_ok parse x (fst (portal_handler out x hs ep s))"
  by (cases ep) (simp_all add: replies_def server_ok_logout own_tasks_def)

lemma server_ok_open: "server_ok parse x s \<Longrightarrow> own_tasks out \<Longrightarrow> server_ok parse x (fst (open_handler out hs ep s))"
  by (cases ep) (simp_all add: server_ok_decide)

lemma server_ok_recorded:
  "server_ok parse x s \<Longrightarrow> indexes_only L hs (st_redis s) r \<Longrightarrow> server_ok parse x (s\<lparr>st_redis := r\<rparr>)"
  using index_ok_indexes by (auto simp: server_ok_def)

lemma server_ok_indexed:
  assumes "server_ok parse x s" "\<And>s. server_ok parse x s \<Longrightarrow> server_ok parse x (fst (rest s))"
  shows "server_ok parse x (fst (indexed L ok hs rest s))"
proof (cases rule: indexed_cases [where L = L and ok = ok and hs = hs and rest = rest and st = s])
  case anonymous
  then show ?thesis using assms by simp
next
  case (refused r)
  have "server_ok parse x (s\<lparr>st_redis := r\<rparr>)"
    using refused(2) server_ok_recorded [OF assms(1), of L hs r] unfolding indexes_only_def by (metis surj_pair)
  then show ?thesis using refused(1) by simp
next
  case (recorded c k r)
  have "indexes_only L hs (st_redis s) r"
    unfolding indexes_only_def using recorded(2,3)
    by (intro disjI2 exI [of _ ok] exI [of _ "caller_sub c"] exI [of _ k]) simp
  note server_ok_recorded [OF assms(1) this]
  then show ?thesis using assms(2) recorded(4) by simp
qed

lemma server_ok_guard:
  assumes "server_ok parse x s" "\<And>s. server_ok parse x s \<Longrightarrow> server_ok parse x (fst (rest s))"
  shows "server_ok parse x (fst (guard x m hs rest s))"
  by (cases rule: guard_cases [of x m hs rest s]) (use assms in simp_all)

lemma server_ok_serve:
  "server_ok (o_parse_url out) x s \<Longrightarrow> own_tasks out \<Longrightarrow> server_ok (o_parse_url out) x (fst (serve out x call s))"
  by (simp add: serve_def Let_def server_ok_open server_ok_indexed server_ok_portal server_ok_guard server_ok_admin
      split: routed.split)

section \<open>The process and its tasks\<close>

text \<open>
  One step: a request is served, or another task of the process works on the cache - the sweeper, the
  subscriber, a request between its awaits - or a key of Redis expires or is written by oauth2-proxy,
  which leaves the index alone, or the writer takes one event from the channel.
\<close>

inductive server_step :: "libs \<Rightarrow> url_parser \<Rightarrow> ctx \<Rightarrow> system \<Rightarrow> system \<Rightarrow> bool" for L parse x where
  request: "o_libs out = L \<Longrightarrow> o_parse_url out = parse \<Longrightarrow> own_tasks out \<Longrightarrow> server_step L parse x s (fst (serve out x call s))"
| cache_task: "inserts_only attributed op \<Longrightarrow> server_step L parse x s (s\<lparr>st_cache := apply_op (lib_hash L) op (st_cache s)\<rparr>)"
| sessions_change: "server_step L parse x s (s\<lparr>st_redis := (st_redis s)\<lparr>present := ks\<rparr>\<rparr>)"
| index_expires: "server_step L parse x s (s\<lparr>st_redis := redis_del [index_key sub] (st_redis s)\<rparr>)"
| writer: "server_step L parse x s
    (s\<lparr>st_cache := (st_cache s)\<lparr>sink := fst (write_one ok (sink (st_cache s), []))\<rparr>\<rparr>)"

lemma cache_ok_sink: "cache_ok (c\<lparr>sink := a\<rparr>) = cache_ok c"
  by (simp add: cache_ok_def subs_agree_def)

lemma server_ok_step: "server_step L parse x s s' \<Longrightarrow> server_ok parse x s \<Longrightarrow> server_ok parse x s'"
proof (induction rule: server_step.induct)
  case (request out s call)
  then show ?case using server_ok_serve by blast
next
  case (sessions_change s ks)
  then show ?case by (simp add: server_ok_def index_ok_def members_def)
qed (simp_all add: server_ok_def cache_ok_apply cache_ok_sink entries_all_apply index_ok_def redis_simps)

lemma plane_kept_indexed:
  assumes "\<not> plane_kept x s (fst (indexed L ok hs rest s))"
    and "caller_from hs = None \<Longrightarrow> plane_kept x s (fst (rest s))"
  obtains c k r where "caller_from hs = Some c" "session_of L (map_of hs ''cookie'') = Some k"
    "record_session ok (caller_sub c) k (st_redis s) = (r, Inr ())"
    "\<not> plane_kept x (s\<lparr>st_redis := r\<rparr>) (fst (rest (s\<lparr>st_redis := r\<rparr>)))"
  by (cases rule: indexed_cases [where L = L and ok = ok and hs = hs and rest = rest and st = s])
    (use assms that in auto)

text \<open>A hit is the value of an entry, so it is what the entries may be.\<close>

lemma hit_is_allowed_entry:
  assumes "get_for now request (run_ops hash ops c) = Some v"
    and "entries_all P c" "list_all (inserts_only P) ops"
  obtains sub where "P sub v"
proof -
  obtain k e where "lookup (run_ops hash ops c) k = Some e" "v = entry_cached e"
    using assms(1) by (auto simp: get_for_def get_Some split: option.splits)
  then show ?thesis using that entries_all_run [OF assms(2,3), of hash] unfolding entries_all_def by blast
qed

section \<open>Properties\<close>

text \<open>C3: only an administrator changes anything. Whatever a request is and whatever the services answer, if
  it changes a row of the two tables or a file of the nginx volume, or sends Keycloak anything but a
  token request or a read, then its caller is in the admin group, it came from the portal and not by
  \<open>GET\<close> or \<open>HEAD\<close>, and its session was in the kill switch's index before the handler ran.\<close>

theorem management_needs_an_admin:
  assumes "routes_by_table (o_route out)" "serve out x call s = (s', r)" "\<not> plane_kept x s s'"
  shows "\<exists>c k redis'. caller_from (call_headers call) = Some c \<and> in_group (caller_groups c) (admin_group x)
    \<and> header_text (call_headers call) ''origin'' = Some (portal_origin x) \<and> call_method call \<notin> {GET, HEAD}
    \<and> session_of (o_libs out) (map_of (call_headers call) ''cookie'') = Some k
    \<and> record_session (o_index_ok out) (caller_sub c) k (st_redis s) = (redis', Inr ())"
proof -
  let ?hs = "call_headers call" and ?m = "call_method call"
  let ?first = "indexed (o_libs out) (o_index_ok out) ?hs"
  have portal: "plane_kept x s (fst (?first (portal_handler out x ?hs ep) s))" for ep
    by (rule ccontr, erule plane_kept_indexed) (simp_all add: plane_kept_portal)
  have s': "s' = fst (serve out x call s)" using assms(2) by simp
  obtain ep where ep: "o_route out admin_routes ?m (call_path call) = Endpoint ep"
    "\<not> plane_kept x s (fst (?first (guard x ?m ?hs (admin_handler out x ?hs ep)) s))"
    using assms(3) portal unfolding s' serve_def Let_def
    by (auto simp: plane_kept_open split: routed.splits)
  have "plane_kept x s (fst (guard x ?m ?hs (admin_handler out x ?hs ep) s))" if "caller_from ?hs = None"
    using that by (simp add: guard_def)
  with ep(2) obtain c k red where c: "caller_from ?hs = Some c"
    "session_of (o_libs out) (map_of ?hs ''cookie'') = Some k"
    "record_session (o_index_ok out) (caller_sub c) k (st_redis s) = (red, Inr ())"
    "\<not> plane_kept x (s\<lparr>st_redis := red\<rparr>) (fst (guard x ?m ?hs (admin_handler out x ?hs ep) (s\<lparr>st_redis := red\<rparr>)))"
    by (rule plane_kept_indexed)
  from plane_kept_admin [OF assms(1) ep(1) c(4)] have "in_group (caller_groups c) (admin_group x)" "\<not> reads_only ?m"
    "from_portal ?hs (portal_origin x)" using c(1) by auto
  then show ?thesis using c(1-3) by (auto simp: reads_only_def from_portal_def)
qed

text \<open>No step breaks an invariant. From a state in which each component is well formed - cache and
  subject index agree and every entry is its owner's, the index holds session keys only, the
  counters have one place per refusal, the tables' rows are valid - every state any interleaving of
  requests, background work, expiring keys and the audit writer reaches is well formed again.\<close>

theorem server_stays_well_formed:
  assumes "(server_step L parse x)\<^sup>*\<^sup>* s s'" "server_ok parse x s"
  shows "server_ok parse x s'"
  using assms by (induction rule: rtranclp_induct) (auto intro: server_ok_step)


section \<open>Concrete requests\<close>

text \<open>A router: a parameter takes one non-empty segment, and the first matching row decides.\<close>

definition captures :: "segment list \<Rightarrow> string list \<Rightarrow> string list option" where
  "captures pattern path =
     (if length pattern = length path \<and>
         list_all2 (\<lambda>p s. case p of Lit l \<Rightarrow> s = l | Param \<Rightarrow> s \<noteq> '''') pattern path
      then Some (map snd (filter (\<lambda>(p, s). p = Param) (zip pattern path))) else None)"

definition lookup_method :: "http_method \<Rightarrow> (http_method \<times> (string \<Rightarrow> endpoint)) list \<Rightarrow> (string \<Rightarrow> endpoint) option" where
  "lookup_method m handlers =
     (case map_of handlers m of
        Some h \<Rightarrow> Some h
      | None \<Rightarrow> if m = HEAD then map_of handlers GET else None)"

fun find_route :: "routes \<Rightarrow> http_method \<Rightarrow> string list \<Rightarrow> routed" where
  "find_route [] m path = Unknown_path"
| "find_route ((pattern, handlers) # routes) m path =
     (case captures pattern path of
        None \<Rightarrow> find_route routes m path
      | Some params \<Rightarrow>
          (case lookup_method m handlers of
             None \<Rightarrow> Wrong_method (plain 405)
           | Some h \<Rightarrow> Endpoint (h (concat params))))"

lemma find_route_by_table: "routes_by_table find_route"
proof -
  have "\<exists>pattern handlers m' h param. (pattern, handlers) \<in> set table \<and> (m', h) \<in> set handlers
      \<and> (m' = m \<or> m = HEAD \<and> m' = GET) \<and> ep = h param" if "find_route table m path = Endpoint ep" for table m path ep
    using that
  proof (induction table m path rule: find_route.induct)
    case (2 pattern handlers table m path)
    show ?case
    proof (cases "captures pattern path")
      case None
      then have "find_route table m path = Endpoint ep" using 2(2) by simp
      from 2(1) [OF None this] obtain row handlers' m' h param where row: "(row, handlers') \<in> set table"
        "(m', h) \<in> set handlers'" "m' = m \<or> m = HEAD \<and> m' = GET" "ep = h param" by blast
      then have "(row, handlers') \<in> set ((pattern, handlers) # table)" by simp
      then show ?thesis using row(2-4) by blast
    next
      case (Some params)
      then obtain h where h: "lookup_method m handlers = Some h" "ep = h (concat params)"
        using 2(2) by (auto split: option.splits)
      then obtain m' where "(m', h) \<in> set handlers" "m' = m \<or> m = HEAD \<and> m' = GET"
        by (auto simp: lookup_method_def dest: map_of_SomeD split: option.splits if_splits)
      then show ?thesis using h(2) by (metis list.set_intros(1))
    qed
  qed simp
  then show ?thesis unfolding routes_by_table_def by blast
qed

definition sample_admin :: headers where
  "sample_admin = [(''x-auth-subject'', ''u1''), (''x-auth-groups'', ''admins''),
     (''origin'', ''https://portal''), (''cookie'', sample_cookie)]"

definition sample_outside :: outside where
  "sample_outside = \<lparr>o_route = find_route, o_no_route = plain 404, o_libs = sample_libs, o_kc_libs = sample_lib, o_parse_url = sample_parser,
     o_show_time = (\<lambda>_. ''''), o_version = ''1'', o_decide = sample_env, o_index_ok = (True, True),
     o_logout = sample_logout_env, o_kill = sample_kill_env, o_keycloak = sample_world, o_db = sample_pool,
     o_publish = sample_publish, o_ping = (True, True), o_now = 0, o_app_order = id, o_ent_order = id,
     o_audit = Inr [], o_audit_order = id, o_scan = [], o_live_ok = (\<lambda>_. True), o_uuid = (\<lambda>_. Inr 7),
     o_new_application = Inr sample_new, o_patch = Inl (plain 400), o_new_entitlement = Inl (plain 400),
     o_username = Inl (plain 400), o_user_query = Inl (plain 400), o_audit_query = Inl (plain 400),
     o_explain_query = Inl (plain 400), o_json_audit = (\<lambda>_. Null), o_json_sessions = (\<lambda>_. Null),
     o_json_explained = (\<lambda>_. Null)\<rparr>"

definition sample_post :: http_call where
  "sample_post = \<lparr>call_method = POST, call_path = [''api'', ''admin'', ''applications''], call_headers = sample_admin\<rparr>"

lemma sample_post_route:
  "find_route open_routes POST (call_path sample_post) = Unknown_path"
  "find_route portal_routes POST (call_path sample_post) = Unknown_path"
  "find_route admin_routes POST (call_path sample_post) = Endpoint New_application"
  by (simp_all add: sample_post_def open_routes_def portal_routes_def admin_routes_def admin_path_def captures_def
      lookup_method_def)

lemma sample_post_served:
  assumes "sys_applications s = []"
  shows "sys_applications (fst (serve sample_outside sample_ctx sample_post s)) = [stored_app]"
proof -
  have c: "caller_from sample_admin =
      Some \<lparr>caller_sub = ''u1'', caller_username = '''', caller_email = '''', caller_groups = [''admins'']\<rparr>"
    "map_of sample_admin ''cookie'' = Some sample_cookie" "from_portal sample_admin ''https://portal''"
    "header_text sample_admin ''x-auth-subject'' = Some ''u1''"
    by (simp_all add: caller_from_def text_header_def header_text_def sample_admin_def to_str_def Let_def from_portal_def)
  have x: "admin_group sample_ctx = ''admins''" "portal_origin sample_ctx = ''https://portal''"
    by (simp_all add: sample_ctx_def)
  obtain red where red: "record_session (True, True) ''u1'' ''_oauth2_proxy-a1'' (st_redis s) = (red, Inr ())"
    by (simp add: record_session_def Let_def)
  let ?s = "s\<lparr>st_redis := red\<rparr>"
  have "fst (serve sample_outside sample_ctx sample_post s) =
      fst (create_application sample_lib sample_parser sample_ctx sample_pool sample_publish sample_new ?s)"
    using sample_post_route c x sample_session red
    by (simp add: serve_def Let_def sample_outside_def sample_post_def indexed_def guard_def may_manage_def in_group_def
        reads_only_def extracted_def replies_def)
  moreover have "sys_applications ?s = []" using assms by simp
  from sample_created [OF this, of sample_lib "\<lambda>_. ''''"] show ?thesis using calculation by simp
qed

theorem management_needs_an_admin_witness:
  "\<exists>c. caller_from sample_admin = Some c \<and> in_group (caller_groups c) ''admins''"
proof -
  have "sys_applications (fst (serve sample_outside sample_ctx sample_post sample_system)) \<noteq> sys_applications sample_system"
    using sample_post_served [of sample_system] by (simp add: sample_system_def)
  then have changed: "\<not> plane_kept sample_ctx sample_system (fst (serve sample_outside sample_ctx sample_post sample_system))"
    by (simp add: plane_kept_def)
  have "routes_by_table (o_route sample_outside)" using find_route_by_table by (simp add: sample_outside_def)
  from management_needs_an_admin [OF this surjective_pairing changed] show ?thesis
    by (auto simp: sample_post_def sample_ctx_def)
qed

lemma sample_attributed: "attributed ''u1'' sample_cached"
  by (simp add: attributed_def text_or_default_def to_str_def sample_cached_def sample_identity_def)

lemma sample_entries: "entries_all attributed (st_cache sample_state)"
proof -
  have "entries_all attributed (new_cache a)" for a by (simp add: entries_all_def new_cache_def)
  from entries_all_run [OF this] sample_attributed show ?thesis by (simp add: sample_state_def sample_ops_def)
qed

lemma sample_own_tasks: "own_tasks sample_outside"
  by (simp add: own_tasks_def sample_outside_def sample_env_def sample_logout_env_def sample_kill_env_def)

lemma sample_server_ok: "server_ok sample_parser sample_ctx sample_system"
  using sample_entries
  by (simp add: server_ok_def sample_system_def sample_state_def cache_ok_run sample_index_ok metrics_ok_new tables_ok_def)

theorem server_stays_well_formed_witness:
  "server_ok sample_parser sample_ctx ((fst (serve sample_outside sample_ctx sample_post sample_system))
     \<lparr>st_cache := flush_all (st_cache (fst (serve sample_outside sample_ctx sample_post sample_system)))\<rparr>)"
proof -
  let ?s = "fst (serve sample_outside sample_ctx sample_post sample_system)"
  have "server_step sample_libs sample_parser sample_ctx sample_system ?s"
    by (rule server_step.request) (simp_all add: sample_own_tasks, simp_all add: sample_outside_def)
  moreover have "server_step sample_libs sample_parser sample_ctx ?s (?s\<lparr>st_cache := flush_all (st_cache ?s)\<rparr>)"
    using server_step.cache_task [of Flush_all sample_libs sample_parser sample_ctx ?s] by simp
  ultimately have "(server_step sample_libs sample_parser sample_ctx)\<^sup>*\<^sup>* sample_system (?s\<lparr>st_cache := flush_all (st_cache ?s)\<rparr>)"
    by (rule converse_rtranclp_into_rtranclp [OF _ r_into_rtranclp])
  from server_stays_well_formed [OF this sample_server_ok] show ?thesis .
qed

text \<open>The killed user comes back with a session oauth2-proxy still vouches for.\<close>

definition sample_return :: env where
  "sample_return = sample_env\<lparr>proxy := (\<lambda>_. Answered 202 [(''x-auth-request-user'', ''7'')]), redis_ok := (True, True),
     database := Db_rows [sample_app]
       [\<lparr>ent_id = 1, ent_application_id = None, subject_type = ''user'', subject_id = ''7'',
         ent_effect = ''allow'', ent_path_pattern = '''', ent_expires_at = None\<rparr>]\<rparr>"

definition sample_return_headers :: headers where
  "sample_return_headers = [(''x-app-slug'', ''wiki''), (''x-original-uri'', ''/x''), (''x-original-method'', ''GET''),
     (''x-real-ip'', ''10.0.0.1''), (''x-request-id'', ''r1''), (''cookie'', sample_cookie)]"

lemma sample_returns:
  assumes "lookup (st_cache st) = Map.empty"
  shows "status (snd (decide_handler sample_libs sample_return sample_return_headers st)) = 200"
    "header_text (response_headers (snd (decide_handler sample_libs sample_return sample_return_headers st)))
       ''x-auth-subject'' = Some ''7''"
proof -
  let ?i = "\<lparr>id_sub = ''7'', id_username = '''', id_email = '''', id_groups = ''''\<rparr>"
  let ?text = "to_str sample_cookie"
  let ?q = "subrequest_of sample_libs sample_return_headers ?text ''wiki'' ''/x''"
  let ?v = "\<lparr>cached_identity = ?i, cached_rules = [\<lparr>effect = Effect_Allow, path_pattern = '''', expires_at = None\<rparr>],
      cached_enabled = True, cached_application_id = Some (Suc 0)\<rparr>"
  have hs: "header_text sample_return_headers ''x-app-slug'' = Some ''wiki''"
    "header_text sample_return_headers ''x-original-uri'' = Some ''/x''"
    "map_of sample_return_headers ''cookie'' = Some sample_cookie"
    "\<not> list_ex (\<lambda>name. map_of sample_return_headers name = None) required_headers"
    by (simp_all add: header_text_def sample_return_headers_def to_str_def required_headers_def)
  have e: "others_waiting sample_return = []" "redis_ok sample_return = (True, True)"
    by (simp_all add: sample_return_def sample_env_def)
  have auth: "authenticate sample_return (Some sample_cookie) = Verified ?i []"
    by (simp add: authenticate_def sample_return_def get_all_def)
  obtain val where val: "session_cookie ?text = Inr (Some val)"
      "session_key (lib_base64 sample_libs) val COOKIE_NAME = Some ''_oauth2_proxy-a1''"
    using sample_session by (auto simp: session_of_def bind_eq_Some_conv split: sum.splits)
  have q: "req_slug ?q = ''wiki''" "req_uri ?q = ''/x''" by (simp_all add: subrequest_of_def)
  have "groups_of ?i = []" and seven: "text_or_default ''7'' = ''7''" "to_str ''7'' = Some ''7''"
    by (simp_all add: groups_of_def text_or_default_def to_str_def)
  then have load: "load sample_return ?q ?i = Inr ?v"
    unfolding load_def q(1)
    by (simp add: sample_return_def rules_for_def sample_app_def applicable_def rule_of_def effect_of_def)
  have "decide True [\<lparr>effect = Effect_Allow, path_pattern = '''', expires_at = None\<rparr>] ''/x'' 0 = Allow" by code_simp
  then have verdict: "verdict sample_return ?q ?v = Allow"
    by (simp add: verdict_def q sample_return_def sample_env_def)
  have miss: "get_for now ?q (st_cache st) = None" for now
    using assms by (simp add: get_for_def get_def split: option.split)
  obtain st0 where fill: "decided sample_libs sample_return sample_return_headers st =
      fill_and_answer sample_libs sample_return (Some sample_cookie) ?q st0"
    by (simp add: decided_def hs val miss e Let_def)
  obtain red where red: "record_session (True, True) ''7'' ''_oauth2_proxy-a1'' (st_redis st0) = (red, Inr ())"
    by (simp add: record_session_def Let_def)
  have "\<exists>st1. snd (decided sample_libs sample_return sample_return_headers st) = snd (answer sample_libs sample_return ?q ?v st1)"
    by (simp add: fill fill_and_answer_def auth val e red load Let_def case_prod_beta seven) blast
  then obtain st1 where "snd (decided sample_libs sample_return sample_return_headers st) =
      snd (answer sample_libs sample_return ?q ?v st1)" ..
  then show "status (snd (decide_handler sample_libs sample_return sample_return_headers st)) = 200"
    "header_text (response_headers (snd (decide_handler sample_libs sample_return sample_return_headers st)))
       ''x-auth-subject'' = Some ''7''"
    by (simp_all add: decide_handler_def case_prod_beta answer_status verdict header_text_def answer_headers seven)
qed


end
