(* ===== verification/Steps.thy ===== *)
theory Steps
  imports Server
begin

text \<open>
  The handlers whose order against the rest of the fleet matters, cut at their awaits: the miss of
  \<open>/decide\<close> (\<open>decide.rs\<close>), the kill switch (\<open>admin.rs\<close>) and the sign-out (\<open>portal.rs\<close>). One step is what runs between two awaits, with
  the answer of the call awaited last; what other tasks do comes in between. Run without interruption,
  the steps are the handlers of \<open>Decide\<close>, \<open>Kill_Switch\<close> and \<open>Portal\<close>, and each of them ends.
\<close>

section \<open>Running a handler step by step\<close>

text \<open>A step ends the handler with its answer, or leaves it at its next await.\<close>

fun run_steps :: "('p \<Rightarrow> 's \<Rightarrow> 's \<times> ('r + 'p)) \<Rightarrow> nat \<Rightarrow> 'p \<Rightarrow> 's \<Rightarrow> 's \<times> ('r + 'p)" where
  "run_steps f 0 p s = (s, Inr p)"
| "run_steps f (Suc n) p s =
     (case f p s of
        (s, Inl r) \<Rightarrow> (s, Inl r)
      | (s, Inr p) \<Rightarrow> run_steps f n p s)"

text \<open>The cache operations of other tasks that are done by the time a step begins.\<close>

definition meanwhile :: "(string \<Rightarrow> 64 word) \<Rightarrow> cache_op list \<Rightarrow> 'a state_scheme \<Rightarrow> 'a state_scheme" where
  "meanwhile hash ops s = s\<lparr>st_cache := run_ops hash ops (st_cache s)\<rparr>"

section \<open>The kill switch\<close>

datatype kill_phase =
    Sign_out | Read_index | Delete "string list" | Announce "string list" | Drop_local "string list" bool
  | Forget "string list"

fun kill_step ::
  "kc_libs \<Rightarrow> ctx \<Rightarrow> kill_env \<Rightarrow> uuid \<Rightarrow> kill_phase \<Rightarrow> system \<Rightarrow> system \<times> (reply + kill_phase)" where
  "kill_step lib x e uid Sign_out s =
     (case logout_all lib (kill_world e) (ctx_keycloak x) uid (sys_sent s) of
        (log, Inl NoSuchUser) \<Rightarrow>
          (s\<lparr>sys_sent := log\<rparr>, Inl (with_json 404 (error_json (logout_error_text NoSuchUser))))
      | (log, Inl err) \<Rightarrow> (s\<lparr>sys_sent := log\<rparr>, Inl (step_failed ''keycloak_logout_all'' (logout_error_text err)))
      | (log, Inr _) \<Rightarrow> (s\<lparr>sys_sent := log\<rparr>, Inr Read_index))"
| "kill_step lib x e uid Read_index s =
     (case sessions (kill_read_ok e) (show_uuid lib uid) (st_redis s) of
        Inl _ \<Rightarrow> (s, Inl (step_failed ''read_session_index'' (kill_redis_error e)))
      | Inr ks \<Rightarrow> (s, Inr (Delete ks)))"
| "kill_step lib x e uid (Delete ks) s =
     (case drop_sessions (kill_del_ok e) ks (st_redis s) of
        (r, Inl _) \<Rightarrow> (s\<lparr>st_redis := r\<rparr>, Inl (step_failed ''delete_sessions'' (kill_redis_error e)))
      | (r, Inr _) \<Rightarrow> (s\<lparr>st_redis := r\<rparr>, Inr (Announce ks)))"
| "kill_step lib x e uid (Announce ks) s =
     (case publish_invalidation (kill_publish_ok e) (show_uuid lib uid) (st_redis s) of
        (r, announced) \<Rightarrow> (s\<lparr>st_redis := r\<rparr>, Inr (Drop_local ks (is_ok announced))))"
| "kill_step lib x e uid (Drop_local ks announced) s =
     (let s = s\<lparr>st_cache := drop_sub (show_uuid lib uid) (st_cache s)\<rparr>
      in if announced then (s, Inr (Forget ks))
         else (s, Inl (step_failed ''publish_invalidation'' (kill_redis_error e))))"
| "kill_step lib x e uid (Forget ks) s =
     (case forget (kill_forget_ok e) (show_uuid lib uid) (st_redis s) of
        (r, Inl _) \<Rightarrow> (s\<lparr>st_redis := r\<rparr>, Inl (step_failed ''forget_index_entry'' (kill_redis_error e)))
      | (r, Inr _) \<Rightarrow>
          (s\<lparr>st_redis := r\<rparr>, Inl (with_json 200 (Object [(''sessions'', Number (int (length ks)))]))))"

text \<open>In \<open>kill\<close> the other tasks' operations are all done when the local drop begins.\<close>

fun kill_meanwhile :: "kill_env \<Rightarrow> kill_phase \<Rightarrow> cache_op list" where
  "kill_meanwhile e (Drop_local ks announced) = kill_others e"
| "kill_meanwhile e _ = []"

definition kill_in_steps ::
  "kc_libs \<Rightarrow> (string \<Rightarrow> 64 word) \<Rightarrow> ctx \<Rightarrow> kill_env \<Rightarrow> uuid \<Rightarrow> system \<Rightarrow> system \<times> (reply + kill_phase)" where
  "kill_in_steps lib hash x e uid =
     run_steps (\<lambda>p s. kill_step lib x e uid p (meanwhile hash (kill_meanwhile e p) s)) 6 Sign_out"

section \<open>The miss of \<open>/decide\<close>\<close>

text \<open>
  Waiting for oauth2-proxy, for the index, for the rules; then the insert and the answer, two
  operations of the cache with the mutex released in between.
\<close>

datatype miss =
    Ask | To_record identity "header_value list" string | To_load identity "header_value list"
  | To_insert identity "header_value list" cached | To_answer "header_value list" cached

fun miss_step ::
  "libs \<Rightarrow> env \<Rightarrow> header_value option \<Rightarrow> subrequest \<Rightarrow> miss \<Rightarrow> state \<Rightarrow> state \<times> (response + miss)" where
  "miss_step L e cookie request Ask st =
     (case authenticate e cookie of
        Anonymous \<Rightarrow>
          (st\<lparr>st_metrics := unauthenticated (st_metrics st)\<rparr>, Inl \<lparr>status = 401, response_headers = []\<rparr>)
      | Unavailable \<Rightarrow> apsnd Inl (refuse AuthUnavailable st)
      | Verified i set_cookie \<Rightarrow>
          (case session_of L cookie of
             None \<Rightarrow> apsnd Inl (refuse StoreUnavailable st)
           | Some session \<Rightarrow> (st, Inr (To_record i set_cookie session))))"
| "miss_step L e cookie request (To_record i set_cookie session) st =
     (case record_session (redis_ok e) (text_or_default (id_sub i)) session (st_redis st) of
        (r, Inl _) \<Rightarrow> apsnd Inl (refuse StoreUnavailable (st\<lparr>st_redis := r\<rparr>))
      | (r, Inr _) \<Rightarrow> (st\<lparr>st_redis := r\<rparr>, Inr (To_load i set_cookie)))"
| "miss_step L e cookie request (To_load i set_cookie) st =
     (case load e request i of
        Inl reason \<Rightarrow> apsnd Inl (refuse reason st)
      | Inr v \<Rightarrow> (st, Inr (To_insert i set_cookie v)))"
| "miss_step L e cookie request (To_insert i set_cookie v) st =
     (st\<lparr>st_cache := (case req_key request of
                         Some k \<Rightarrow> insert_cached (now_insert e) k (text_or_default (id_sub i)) v (st_cache st)
                       | None \<Rightarrow> st_cache st)\<rparr>,
      Inr (To_answer set_cookie v))"
| "miss_step L e cookie request (To_answer set_cookie v) st =
     (case answer L e request v st of
        (st, r) \<Rightarrow> (st, Inl (foldl (\<lambda>r cookie. append_header ''set-cookie'' cookie r) r set_cookie)))"

fun miss_meanwhile :: "env \<Rightarrow> miss \<Rightarrow> cache_op list" where
  "miss_meanwhile e (To_insert i set_cookie v) = others_filling e"
| "miss_meanwhile e _ = []"

definition miss_in_steps ::
  "libs \<Rightarrow> env \<Rightarrow> header_value option \<Rightarrow> subrequest \<Rightarrow> state \<Rightarrow> state \<times> (response + miss)" where
  "miss_in_steps L e cookie request =
     run_steps (\<lambda>p st. miss_step L e cookie request p (meanwhile (lib_hash L) (miss_meanwhile e p) st)) 5 Ask"

section \<open>The sign-out\<close>

datatype leave_phase =
    Leave | Cut caller string | Tell caller string | Drop_here caller string bool | Unindex caller string

fun logout_step ::
  "libs \<Rightarrow> string \<Rightarrow> logout_env \<Rightarrow> headers \<Rightarrow> leave_phase \<Rightarrow> 'a state_scheme \<Rightarrow> 'a state_scheme \<times> (reply + leave_phase)" where
  "logout_step L origin e hs Leave st =
     (case caller_from hs of
        None \<Rightarrow> (st, Inl (plain 401))
      | Some c \<Rightarrow>
          if \<not> from_portal hs origin then (st, Inl (plain 403))
          else (case map_of hs ''cookie'' of
                  None \<Rightarrow> (st, Inl (plain 503))
                | Some cookie \<Rightarrow>
                    (case session_of L (Some cookie) of
                       None \<Rightarrow> (st, Inl (plain 503))
                     | Some k \<Rightarrow>
                         (case out_proxy e cookie of
                            No_answer \<Rightarrow> (st, Inl (plain 503))
                          | Answered code _ \<Rightarrow>
                              (st, if is_success code \<or> is_redirection code then Inr (Cut c k) else Inl (plain 503))))))"
| "logout_step L origin e hs (Cut c k) st =
     (case drop_sessions (out_del_ok e) [k] (st_redis st) of
        (r, Inl _) \<Rightarrow> (st\<lparr>st_redis := r\<rparr>, Inl (plain 503))
      | (r, Inr _) \<Rightarrow> (st\<lparr>st_redis := r\<rparr>, Inr (Tell c k)))"
| "logout_step L origin e hs (Tell c k) st =
     (case publish_invalidation (out_publish_ok e) (caller_sub c) (st_redis st) of
        (r, announced) \<Rightarrow> (st\<lparr>st_redis := r\<rparr>, Inr (Drop_here c k (is_ok announced))))"
| "logout_step L origin e hs (Drop_here c k announced) st =
     (st\<lparr>st_cache := drop_sub (caller_sub c) (st_cache st)\<rparr>, if announced then Inr (Unindex c k) else Inl (plain 503))"
| "logout_step L origin e hs (Unindex c k) st =
     (case forget_session (out_forget_ok e) (caller_sub c) k (st_redis st) of
        (r, Inl _) \<Rightarrow> (st\<lparr>st_redis := r\<rparr>, Inl (plain 503))
      | (r, Inr _) \<Rightarrow> (st\<lparr>st_redis := r\<rparr>, Inl (plain 204)))"

fun leave_meanwhile :: "logout_env \<Rightarrow> leave_phase \<Rightarrow> cache_op list" where
  "leave_meanwhile e (Drop_here c k announced) = out_others e"
| "leave_meanwhile e _ = []"

definition logout_in_steps ::
  "libs \<Rightarrow> string \<Rightarrow> logout_env \<Rightarrow> headers \<Rightarrow> 'a state_scheme \<Rightarrow> 'a state_scheme \<times> (reply + leave_phase)" where
  "logout_in_steps L origin e hs =
     run_steps (\<lambda>p st. logout_step L origin e hs p (meanwhile (lib_hash L) (leave_meanwhile e p) st)) 5 Leave"

section \<open>The steps are the handlers\<close>

lemma meanwhile_Nil [simp]: "meanwhile hash [] s = s"
  by (simp add: meanwhile_def run_ops_def)

lemma kill_in_steps_eq:
  "kill_in_steps lib hash x e uid s = apsnd Inl (kill lib hash x e uid s)"
  by (auto simp: kill_in_steps_def kill_def eval_nat_numeral meanwhile_def publish_invalidation_def Let_def
      split: sum.split prod.split logout_error.split)

lemma miss_in_steps_eq:
  "miss_in_steps L e cookie request st = apsnd Inl (fill_and_answer L e cookie request st)"
  by (auto simp: miss_in_steps_def fill_and_answer_def eval_nat_numeral meanwhile_def session_of_def Let_def refuse_def
      split: authentication.split sum.split prod.split option.split)

lemma logout_in_steps_eq:
  "logout_in_steps L origin e hs st = apsnd Inl (logout L origin e hs st)"
  by (auto simp: logout_in_steps_def logout_def eval_nat_numeral meanwhile_def publish_invalidation_def Let_def
      split: sum.split prod.split option.split proxy_reply.split)

section \<open>Properties\<close>


end
