(* ===== verification/Fleet.thy ===== *)
theory Fleet
  imports Steps
begin

text \<open>
  Several instances of the backend over one Redis (\<open>session.rs\<close>, \<open>cache.rs\<close>, \<open>decide.rs\<close>, \<open>admin.rs\<close>): each
  has its own cache, counters and subscription, they share Redis, the tables and Keycloak, and their
  handlers interleave at every await. Here are the state, the steps, what a step does to Redis and to a
  cache, and the invariant every run keeps; what a kill achieves across the fleet is in \<open>Revocation\<close>.
\<close>

section \<open>The state of the fleet\<close>

text \<open>
  The subscription of one instance: no connection; \<open>SUBSCRIBE\<close> answered and the cache not told yet; up;
  and the same two on a connection that has died with nobody having noticed, where nothing arrives
  any more.
\<close>

datatype link = Down | Joined | Up | Lost | Wedged

record process =
  p_cache :: cache
  p_metrics :: metrics
  p_link :: link
  p_inbox :: "string list"

text \<open>A call in flight: the instance that serves it and the await it is at.\<close>

datatype call =
    Missing nat "header_value option" subrequest miss
  | Killing nat uuid kill_phase
  | Leaving nat headers leave_phase

text \<open>
  \<open>common\<close> is what the instances share; its own cache and counters are not used. The last three fields
  are history: the session keys oauth2-proxy has ever made, the session each call was verified by,
  and the call that filled each cache entry.
\<close>

record fleet =
  common :: system
  procs :: "nat \<Rightarrow> process"
  calls :: "nat \<Rightarrow> call option"
  answered :: "nat \<Rightarrow> nat option"
  used :: "string set"
  ticket :: "nat \<Rightarrow> string option"
  filler :: "nat \<Rightarrow> key \<Rightarrow> nat"

abbreviation shared :: "fleet \<Rightarrow> redis" where
  "shared S \<equiv> st_redis (common S)"

abbreviation cache_of :: "nat \<Rightarrow> fleet \<Rightarrow> cache" where
  "cache_of n S \<equiv> p_cache (procs S n)"

text \<open>What instance \<open>n\<close> works on, and the fleet after it has: what was published reaches the inboxes of
  the instances that hear it.\<close>

definition view :: "nat \<Rightarrow> fleet \<Rightarrow> system" where
  "view n S = (common S)\<lparr>st_cache := cache_of n S, st_metrics := p_metrics (procs S n)\<rparr>"

definition announced :: "redis \<Rightarrow> redis \<Rightarrow> string list" where
  "announced r r' = map snd (filter (\<lambda>m. fst m = INVALIDATE_CHANNEL) (drop (length (published r)) (published r')))"

definition hears :: "process \<Rightarrow> bool" where
  "hears p \<longleftrightarrow> p_link p = Joined \<or> p_link p = Up"

definition deliver :: "string list \<Rightarrow> process \<Rightarrow> process" where
  "deliver subs p = (if hears p then p\<lparr>p_inbox := p_inbox p @ subs\<rparr> else p)"

definition settle :: "nat \<Rightarrow> system \<Rightarrow> fleet \<Rightarrow> fleet" where
  "settle n s S = S\<lparr>common := s,
     procs := (\<lambda>m. deliver (announced (shared S) (st_redis s))
       (if m = n then (procs S m)\<lparr>p_cache := st_cache s, p_metrics := st_metrics s\<rparr> else procs S m))\<rparr>"

definition put_state :: "state \<Rightarrow> system \<Rightarrow> system" where
  "put_state st s = s\<lparr>st_cache := st_cache st, st_metrics := st_metrics st, st_redis := st_redis st\<rparr>"

definition with_call :: "nat \<Rightarrow> nat + call \<Rightarrow> fleet \<Rightarrow> fleet" where
  "with_call c r S =
     (case r of
        Inl code \<Rightarrow> S\<lparr>calls := (calls S)(c := None), answered := (answered S)(c \<mapsto> code)\<rparr>
      | Inr at \<Rightarrow> S\<lparr>calls := (calls S)(c \<mapsto> at)\<rparr>)"

definition set_proc :: "nat \<Rightarrow> process \<Rightarrow> fleet \<Rightarrow> fleet" where
  "set_proc n p S = S\<lparr>procs := (procs S)(n := p)\<rparr>"

definition set_shared :: "redis \<Rightarrow> fleet \<Rightarrow> fleet" where
  "set_shared r S = S\<lparr>common := (common S)\<lparr>st_redis := r\<rparr>\<rparr>"

text \<open>The history of a miss, by what its step came to: it goes on to record the session it was verified by,
  or to answer with what it has just filled the cache with.\<close>

definition remember :: "nat \<Rightarrow> nat \<Rightarrow> subrequest \<Rightarrow> response + miss \<Rightarrow> fleet \<Rightarrow> fleet" where
  "remember c n request r S =
     (case r of
        Inr (To_record i set_cookie k) \<Rightarrow> S\<lparr>ticket := (ticket S)(c \<mapsto> k)\<rparr>
      | Inr (To_answer set_cookie v) \<Rightarrow>
          (case req_key request of
             None \<Rightarrow> S
           | Some k \<Rightarrow> S\<lparr>filler := (filler S)(n := (filler S n)(k := c))\<rparr>)
      | _ \<Rightarrow> S)"

section \<open>Steps\<close>

text \<open>The relation interleaves the other tasks itself: inside one step nothing comes in between.\<close>

definition alone :: "env \<Rightarrow> bool" where
  "alone d \<longleftrightarrow> others_waiting d = [] \<and> others_filling d = [] \<and> others_counting d = []"

text \<open>
  oauth2-proxy answers for a cookie only while its session key is in Redis, and every key it makes is new.
  nginx names the caller of a portal or management call only after oauth2-proxy has vouched for it.
\<close>

definition vouched :: "libs \<Rightarrow> header_value option \<Rightarrow> string set \<Rightarrow> bool" where
  "vouched L cookie ks \<longleftrightarrow> (case session_of L cookie of None \<Rightarrow> True | Some k \<Rightarrow> k \<in> ks)"

fun asks_truly :: "libs \<Rightarrow> env \<Rightarrow> header_value option \<Rightarrow> redis \<Rightarrow> miss \<Rightarrow> bool" where
  "asks_truly L d cookie r Ask =
     (case authenticate d cookie of Verified i set_cookie \<Rightarrow> vouched L cookie (set (present r)) | _ \<Rightarrow> True)"
| "asks_truly L d cookie r _ = True"

text \<open>Every endpoint but the three handlers that are cut at their awaits.\<close>

definition another_endpoint :: "outside \<Rightarrow> http_call \<Rightarrow> bool" where
  "another_endpoint out call \<longleftrightarrow>
     o_route out open_routes (call_method call) (call_path call) \<noteq> Endpoint Decide
     \<and> o_route out portal_routes (call_method call) (call_path call) \<noteq> Endpoint Logout
     \<and> (\<forall>raw. o_route out admin_routes (call_method call) (call_path call) \<noteq> Endpoint (Kill raw))"

definition named_truly :: "libs \<Rightarrow> headers \<Rightarrow> string set \<Rightarrow> bool" where
  "named_truly L hs ks \<longleftrightarrow> caller_from hs = None \<or> vouched L (map_of hs ''cookie'') ks"

definition fresh_call :: "nat \<Rightarrow> fleet \<Rightarrow> bool" where
  "fresh_call c S \<longleftrightarrow> calls S c = None \<and> answered S c = None"

text \<open>An instance that has just been started, and what becomes of the calls of one that was stopped:
  nginx answers 502 for them.\<close>

definition new_process :: "audit \<Rightarrow> process" where
  "new_process a = \<lparr>p_cache = new_cache a, p_metrics = new_metrics, p_link = Down, p_inbox = []\<rparr>"

fun served_by :: "call \<Rightarrow> nat" where
  "served_by (Missing n cookie request ph) = n"
| "served_by (Killing n uid ph) = n"
| "served_by (Leaving n hs ph) = n"

definition cut_off :: "nat \<Rightarrow> nat \<Rightarrow> fleet \<Rightarrow> bool" where
  "cut_off n c S \<longleftrightarrow> (case calls S c of None \<Rightarrow> False | Some at \<Rightarrow> served_by at = n)"

definition restart :: "nat \<Rightarrow> audit \<Rightarrow> fleet \<Rightarrow> fleet" where
  "restart n a S = (set_proc n (new_process a) S)\<lparr>
     calls := (\<lambda>c. if cut_off n c S then None else calls S c),
     answered := (\<lambda>c. if cut_off n c S then Some 502 else answered S c)\<rparr>"

inductive fleet_step :: "libs \<Rightarrow> kc_libs \<Rightarrow> ctx \<Rightarrow> fleet \<Rightarrow> fleet \<Rightarrow> bool" for L lib x where
  login: "k \<notin> used S \<Longrightarrow> fleet_step L lib x S
    (set_shared ((shared S)\<lparr>present := k # present (shared S)\<rparr>) (S\<lparr>used := insert k (used S)\<rparr>))"
| session_ends: "fleet_step L lib x S (set_shared ((shared S)\<lparr>present := filter keep (present (shared S))\<rparr>) S)"
| index_expires: "fleet_step L lib x S (set_shared (redis_del [index_key sub] (shared S)) S)"
| miss_starts: "fresh_call c S \<Longrightarrow>
    fleet_step L lib x S (S\<lparr>calls := (calls S)(c \<mapsto> Missing n cookie request Ask)\<rparr>)"
| misses: "calls S c = Some (Missing n cookie request ph) \<Longrightarrow> alone d \<Longrightarrow> asks_truly L d cookie (shared S) ph \<Longrightarrow>
    miss_step L d cookie request ph (state.truncate (view n S)) = (st, r) \<Longrightarrow>
    fleet_step L lib x S (remember c n request r (with_call c (map_sum status (Missing n cookie request) r)
      (settle n (put_state st (view n S)) S)))"
| kill_starts: "fresh_call c S \<Longrightarrow> fleet_step L lib x S (S\<lparr>calls := (calls S)(c \<mapsto> Killing n uid Sign_out)\<rparr>)"
| kills: "calls S c = Some (Killing n uid ph) \<Longrightarrow> kill_step lib x e uid ph (view n S) = (s, r) \<Longrightarrow>
    fleet_step L lib x S (with_call c (map_sum status (Killing n uid) r) (settle n s S))"
| leave_starts: "fresh_call c S \<Longrightarrow> named_truly L hs (used S) \<Longrightarrow>
    indexed L ok hs (\<lambda>s. (s, None)) (view n S) = (s, r) \<Longrightarrow>
    fleet_step L lib x S (case r of
        None \<Rightarrow> (settle n s S)\<lparr>calls := (calls S)(c \<mapsto> Leaving n hs Leave)\<rparr>
      | Some reply \<Rightarrow> settle n s S)"
| leaves: "calls S c = Some (Leaving n hs ph) \<Longrightarrow> named_truly L hs (used S) \<Longrightarrow>
    logout_step L (portal_origin x) e hs ph (view n S) = (s, r) \<Longrightarrow>
    fleet_step L lib x S (with_call c (map_sum status (Leaving n hs) r) (settle n s S))"
| hits: "get_for now request (cache_of n S) = Some v \<Longrightarrow> alone d \<Longrightarrow>
    answer L d request v ((state.truncate (view n S))\<lparr>st_metrics := cache_lookup True (p_metrics (procs S n))\<rparr>) = (st, r) \<Longrightarrow>
    fleet_step L lib x S (settle n (put_state st (view n S)) S)"
| serves: "o_libs out = L \<Longrightarrow> another_endpoint out call \<Longrightarrow>
    named_truly L (call_headers call) (used S) \<Longrightarrow>
    serve out x call (view n S) = (s, r) \<Longrightarrow> fleet_step L lib x S (settle n s S)"
| sweeps: "fleet_step L lib x S (set_proc n ((procs S n)\<lparr>p_cache := sweep now (cache_of n S)\<rparr>) S)"
| subscribes: "p_link (procs S n) = Down \<Longrightarrow>
    fleet_step L lib x S (set_proc n ((procs S n)\<lparr>p_link := Joined, p_inbox := []\<rparr>) S)"
| raises: "p_link (procs S n) = Joined \<and> up = Up \<or> p_link (procs S n) = Lost \<and> up = Wedged \<Longrightarrow>
    fleet_step L lib x S (set_proc n ((procs S n)\<lparr>p_link := up, p_cache := set_subscribed True (cache_of n S)\<rparr>) S)"
| breaks: "p_link (procs S n) = Joined \<and> dead = Lost \<or> p_link (procs S n) = Up \<and> dead = Wedged \<Longrightarrow>
    fleet_step L lib x S (set_proc n ((procs S n)\<lparr>p_link := dead\<rparr>) S)"
| hears_of: "p_link (procs S n) \<in> {Up, Wedged} \<Longrightarrow> p_inbox (procs S n) = sub # rest \<Longrightarrow>
    fleet_step L lib x S
      (set_proc n ((procs S n)\<lparr>p_inbox := rest, p_cache := drop_sub sub (cache_of n S)\<rparr>) S)"
| gives_up: "fleet_step L lib x S
    (set_proc n ((procs S n)\<lparr>p_link := Down, p_inbox := [], p_cache := set_subscribed False (cache_of n S)\<rparr>) S)"
| restarts: "fleet_step L lib x S (restart n a S)"

section \<open>What one step does to Redis and to a cache\<close>

text \<open>
  It makes no session, publishes at the end of what was published, indexes nothing but keys of \<open>ks\<close>, and
  leaves the cache well formed and its subscription flag alone.
\<close>

definition steady :: "string set \<Rightarrow> 'a state_scheme \<Rightarrow> 'a state_scheme \<Rightarrow> bool" where
  "steady ks s s' \<longleftrightarrow>
     set (present (st_redis s')) \<subseteq> set (present (st_redis s))
     \<and> (\<exists>new. published (st_redis s') = published (st_redis s) @ new)
     \<and> (\<forall>sub. set (members (index_key sub) (st_redis s')) \<subseteq> set (members (index_key sub) (st_redis s)) \<union> ks)
     \<and> subscribed (st_cache s') = subscribed (st_cache s)
     \<and> (cache_ok (st_cache s) \<longrightarrow> cache_ok (st_cache s'))"

text \<open>And every entry there is was there before, with the same owner and filled at the same instant, but
  for the keys in \<open>new\<close>.\<close>

definition stamp :: "key \<Rightarrow> cache \<Rightarrow> (string \<times> nat) option" where
  "stamp k c = map_option (\<lambda>e. (entry_sub e, inserted e)) (lookup c k)"

definition entries_kept :: "key set \<Rightarrow> 'a state_scheme \<Rightarrow> 'a state_scheme \<Rightarrow> bool" where
  "entries_kept new s s' \<longleftrightarrow>
     (cache_ok (st_cache s) \<longrightarrow>
        (\<forall>k t. stamp k (st_cache s') = Some t \<longrightarrow> stamp k (st_cache s) = Some t \<or> k \<in> new))"

lemma owner_stamp: "owner k c = map_option fst (stamp k c)"
  by (simp add: owner_def stamp_def option.map_comp o_def)

lemma entries_keptD:
  "entries_kept new s s' \<Longrightarrow> cache_ok (st_cache s) \<Longrightarrow> stamp k (st_cache s') = Some t \<Longrightarrow> stamp k (st_cache s) = Some t \<or> k \<in> new"
  unfolding entries_kept_def by blast

lemma steady_refl [simp]: "steady ks s s"
  by (simp add: steady_def)

lemma entries_kept_refl [simp]: "entries_kept new s s"
  by (simp add: entries_kept_def)

lemma steady_trans: "steady ks s s' \<Longrightarrow> steady ks s' s'' \<Longrightarrow> steady ks s s''"
  unfolding steady_def by (elim conjE exE) (intro conjI; fastforce)

lemma entries_kept_trans:
  "entries_kept new s s' \<Longrightarrow> entries_kept new s' s'' \<Longrightarrow> steady ks s s' \<Longrightarrow> entries_kept new s s''"
  unfolding entries_kept_def steady_def by metis

lemma steady_redis:
  "set (present r) \<subseteq> set (present (st_redis s)) \<Longrightarrow> \<exists>new. published r = published (st_redis s) @ new \<Longrightarrow>
   (\<And>sub. set (members (index_key sub) r) \<subseteq> set (members (index_key sub) (st_redis s)) \<union> ks) \<Longrightarrow>
   steady ks s (s\<lparr>st_redis := r\<rparr>)"
  by (simp add: steady_def)

lemma steady_record:
  assumes "record_session ok sub k (st_redis s) = (r, res)"
  shows "steady {k} s (s\<lparr>st_redis := r\<rparr>)"
  using record_session_frame(1,2,4) [OF assms] by (intro steady_redis) auto

lemma stamp_count:
  "stamp k (snd (count_request now hash k' d path src rq c)) = Some t \<Longrightarrow> stamp k c = Some t"
  by (auto simp: stamp_def same_entry_def dest!: lookup_count)

lemma stamp_drop: "stamp k (drop_sub sub c) = Some t \<Longrightarrow> stamp k c = Some t"
  by (auto simp: stamp_def drops_alt restrict_map_def split: if_splits)

text \<open>An insertion fills its own key, now, and no other.\<close>

lemma stamp_insert:
  assumes "stamp k' (insert_cached now k sub v c) = Some t"
  shows "if k' = k then t = (sub, now) else stamp k' c = Some t"
proof -
  obtain e where e: "lookup (shrink (placed now k sub v c)) k' = Some e" "t = (entry_sub e, inserted e)"
    using assms by (auto simp: stamp_def insert_cached_alt)
  from shrink_submap [OF e(1)] e(2) show ?thesis
    unfolding lookup_placed by (auto simp: stamp_def split: if_splits)
qed

lemma owner_drop: "cache_ok c \<Longrightarrow> owner k (drop_sub sub c) = Some t \<Longrightarrow> owner k c = Some t \<and> t \<noteq> sub"
  by (rule decisions.owner_drop)

lemma subscribed_drop [simp]: "subscribed (drop_sub sub c) = subscribed c"
  by (simp add: drops_alt)

lemma answer_cache_alone:
  assumes "alone d"
  obtains "st_cache (fst (answer L d request v st)) = run_ops (lib_hash L) (count_op d request v) (st_cache st)"
  | row where "st_cache (fst (answer L d request v st)) = (st_cache st)\<lparr>sink := record_event row (sink (st_cache st))\<rparr>"
  using assms that by (cases "counted_hits (lib_hash L) (count_op d request v) (st_cache st) = 1")
    (auto simp: answer_cache alone_def Let_def run_ops_def)

lemma answer_effect:
  assumes "alone d"
  shows "steady {} st (fst (answer L d request v st)) \<and> entries_kept {} st (fst (answer L d request v st))"
proof -
  let ?st = "fst (answer L d request v st)"
  have redis: "st_redis ?st = st_redis st" by (rule answer_redis)
  from assms show ?thesis
  proof (cases rule: answer_cache_alone [where L = L and request = request and v = v and st = st])
    case 1
    have "cache_ok (st_cache st) \<Longrightarrow> cache_ok (st_cache ?st)"
      unfolding 1 by (rule cache_ok_runs)
    moreover have "subscribed (st_cache ?st) = subscribed (st_cache st)"
      unfolding 1 by (simp add: count_op_def run_ops_def subscribed_count split: option.split)
    moreover have "stamp k (st_cache st) = Some t" if "cache_ok (st_cache st)" "stamp k (st_cache ?st) = Some t" for k t
      using that(2) unfolding 1 by (auto simp: count_op_def run_ops_def dest: stamp_count split: option.splits)
    ultimately show ?thesis by (auto simp: steady_def entries_kept_def redis)
  next
    case (2 row)
    then show ?thesis by (auto simp: steady_def entries_kept_def redis cache_ok_sink stamp_def)
  qed
qed

text \<open>Changes outside Redis and the cache do not count.\<close>

lemma steady_same:
  "st_redis s' = st_redis s \<Longrightarrow> st_cache s' = st_cache s \<Longrightarrow> steady ks s s'"
  "st_redis s' = st_redis s \<Longrightarrow> st_cache s' = st_cache s \<Longrightarrow> entries_kept new s s'"
  by (simp_all add: steady_def entries_kept_def)

lemma steady_frame:
  "steady ks s s' \<longleftrightarrow> steady ks (s\<lparr>st_metrics := m\<rparr>) s'" "entries_kept new s s' \<longleftrightarrow> entries_kept new (s\<lparr>st_metrics := m\<rparr>) s'"
  by (simp_all add: steady_def entries_kept_def)

definition recorded_key :: "miss \<Rightarrow> string set" where
  "recorded_key ph = (case ph of To_record i set_cookie k \<Rightarrow> {k} | _ \<Rightarrow> {})"

definition filled_key :: "subrequest \<Rightarrow> miss \<Rightarrow> key set" where
  "filled_key request ph = (case ph of To_insert i set_cookie v \<Rightarrow> set_option (req_key request) | _ \<Rightarrow> {})"

lemma miss_effect:
  assumes "miss_step L d cookie request ph st = (st', r)" "alone d"
  shows "steady (recorded_key ph) st st' \<and> entries_kept (filled_key request ph) st st'"
proof (cases ph)
  case Ask
  then have "st_redis st' = st_redis st" "st_cache st' = st_cache st"
    using assms(1) by (auto simp: refuse_def apsnd_def map_prod_def split: authentication.splits option.splits)
  then show ?thesis using steady_same by blast
next
  case (To_record i set_cookie k)
  obtain red res where rec: "record_session (redis_ok d) (text_or_default (id_sub i)) k (st_redis st) = (red, res)" by force
  then have "st_redis st' = red" "st_cache st' = st_cache st"
    using assms(1) To_record by (auto simp: refuse_def apsnd_def map_prod_def split: sum.splits)
  then have "steady {k} st st'" "entries_kept {} st st'"
    using steady_record [OF rec] by (simp_all add: steady_def entries_kept_def)
  then show ?thesis using To_record by (simp add: recorded_key_def filled_key_def)
next
  case (To_load i set_cookie)
  then have "st_redis st' = st_redis st" "st_cache st' = st_cache st"
    using assms(1) by (auto simp: refuse_def apsnd_def map_prod_def split: sum.splits)
  then show ?thesis using steady_same by blast
next
  case (To_insert i set_cookie v)
  show ?thesis
  proof (cases "req_key request")
    case None
    then have "st' = st" using assms(1) To_insert by simp
    then show ?thesis by simp
  next
    case (Some k)
    let ?c = "insert_cached (now_insert d) k (text_or_default (id_sub i)) v (st_cache st)"
    have st': "st' = st\<lparr>st_cache := ?c\<rparr>" using assms(1) To_insert Some by simp
    have "cache_ok (st_cache st) \<Longrightarrow> cache_ok ?c" "subscribed ?c = subscribed (st_cache st)"
      by (simp add: cache_ok_insert) (simp add: insert_cached_alt)
    moreover have "stamp k' (st_cache st) = Some t \<or> k' = k" if "cache_ok (st_cache st)" "stamp k' ?c = Some t" for k' t
      using stamp_insert [OF that(2)] by (auto split: if_splits)
    ultimately show ?thesis using To_insert Some
      by (auto simp: steady_def entries_kept_def st' filled_key_def)
  qed
next
  case (To_answer set_cookie v)
  then have "st' = fst (answer L d request v st)" using assms(1) by (auto split: prod.splits)
  then show ?thesis using answer_effect [OF assms(2), of st L request v] To_answer
    by (simp add: recorded_key_def filled_key_def)
qed

lemma steady_shrunk:
  assumes "set (present r) \<subseteq> set (present (st_redis s))" "published r = published (st_redis s) @ new"
    and "\<And>sub. set (members (index_key sub) r) \<subseteq> set (members (index_key sub) (st_redis s))"
  shows "steady {} s (s\<lparr>st_redis := r\<rparr>) \<and> entries_kept {} s (s\<lparr>st_redis := r\<rparr>)"
  using assms by (auto simp: steady_def entries_kept_def)

lemma steady_drop:
  "steady {} s (s\<lparr>st_cache := drop_sub sub (st_cache s)\<rparr>) \<and> entries_kept {} s (s\<lparr>st_cache := drop_sub sub (st_cache s)\<rparr>)"
  by (auto simp: steady_def entries_kept_def cache_ok_drop dest: stamp_drop)

lemma drop_sessions_shrinks:
  assumes "drop_sessions ok ks r = (r', res)"
  shows "set (present r') \<subseteq> set (present r)" "published r' = published r"
    "set (members k r') \<subseteq> set (members k r)"
  using assms by (auto elim!: drop_sessions_cases simp: redis_simps split: if_splits)

lemma kill_effect:
  assumes "kill_step lib x e uid ph s = (s', r)"
  shows "steady {} s s' \<and> entries_kept {} s s'"
proof (cases ph)
  case Sign_out
  then have "st_redis s' = st_redis s" "st_cache s' = st_cache s"
    using assms by (auto split: prod.splits sum.splits logout_error.splits)
  then show ?thesis using steady_same by blast
next
  case Read_index
  then have "s' = s" using assms by (auto split: sum.splits)
  then show ?thesis by simp
next
  case (Delete ks)
  obtain red res where d: "drop_sessions (kill_del_ok e) ks (st_redis s) = (red, res)" by force
  then have "s' = s\<lparr>st_redis := red\<rparr>" using assms Delete by (auto split: sum.splits)
  then show ?thesis using steady_shrunk [of red s "[]"] drop_sessions_shrinks [OF d] by simp
next
  case (Announce ks)
  obtain red res where p: "publish_invalidation (kill_publish_ok e) (show_uuid lib uid) (st_redis s) = (red, res)" by force
  then have "s' = s\<lparr>st_redis := red\<rparr>" using assms Announce by auto
  then show ?thesis using steady_shrunk [OF _ publish_frame(4) [OF p]] publish_frame(2,3) [OF p] by simp
next
  case (Drop_local ks ok)
  then have "s' = s\<lparr>st_cache := drop_sub (show_uuid lib uid) (st_cache s)\<rparr>" using assms by (auto simp: Let_def split: if_splits)
  then show ?thesis using steady_drop by simp
next
  case (Forget ks)
  obtain red res where f: "forget (kill_forget_ok e) (show_uuid lib uid) (st_redis s) = (red, res)" by force
  then have "s' = s\<lparr>st_redis := red\<rparr>" using assms Forget by (auto split: sum.splits)
  then show ?thesis using steady_shrunk [of red s "[]"] forget_frame(2-4) [OF f] by simp
qed

lemma leave_effect:
  assumes "logout_step L origin e hs ph st = (st', r)"
  shows "steady {} st st' \<and> entries_kept {} st st'"
proof (cases ph)
  case Leave
  then have "st_redis st' = st_redis st" "st_cache st' = st_cache st"
    using assms by (auto split: option.splits if_splits proxy_reply.splits)
  then show ?thesis using steady_same by blast
next
  case (Cut c k)
  obtain red res where d: "drop_sessions (out_del_ok e) [k] (st_redis st) = (red, res)" by force
  then have "st' = st\<lparr>st_redis := red\<rparr>" using assms Cut by (auto split: sum.splits)
  then show ?thesis using steady_shrunk [of red st "[]"] drop_sessions_shrinks [OF d] by simp
next
  case (Tell c k)
  obtain red res where p: "publish_invalidation (out_publish_ok e) (caller_sub c) (st_redis st) = (red, res)" by force
  then have "st' = st\<lparr>st_redis := red\<rparr>" using assms Tell by auto
  then show ?thesis using steady_shrunk [OF _ publish_frame(4) [OF p]] publish_frame(2,3) [OF p] by simp
next
  case (Drop_here c k ok)
  then have "st' = st\<lparr>st_cache := drop_sub (caller_sub c) (st_cache st)\<rparr>" using assms by (auto split: if_splits)
  then show ?thesis using steady_drop by simp
next
  case (Unindex c k)
  obtain red res where f: "forget_session (out_forget_ok e) (caller_sub c) k (st_redis st) = (red, res)" by force
  then have "st' = st\<lparr>st_redis := red\<rparr>" using assms Unindex by (auto split: sum.splits)
  then show ?thesis using steady_shrunk [of red st "[]"] forget_session_frame(2-4) [OF f] by (auto split: if_splits)
qed

text \<open>The one key a call can index: that of its own cookie, when nginx named a caller.\<close>

definition own_key :: "libs \<Rightarrow> headers \<Rightarrow> string set" where
  "own_key L hs = (if caller_from hs = None then {} else set_option (session_of L (map_of hs ''cookie'')))"

definition harmless :: "string set \<Rightarrow> 'a state_scheme \<Rightarrow> 'a state_scheme \<Rightarrow> bool" where
  "harmless ks s s' \<longleftrightarrow> steady ks s s' \<and> entries_kept {} s s'"

lemma harmless_refl [simp]: "harmless ks s s"
  by (simp add: harmless_def)

lemma harmless_trans: "harmless ks s s' \<Longrightarrow> harmless ks s' s'' \<Longrightarrow> harmless ks s s''"
  unfolding harmless_def using steady_trans entries_kept_trans by blast

lemma harmless_mono: "harmless {} s s' \<Longrightarrow> harmless ks s s'"
  unfolding harmless_def steady_def by (elim conjE exE) (intro conjI; fastforce)

lemma harmless_same: "st_redis s' = st_redis s \<Longrightarrow> st_cache s' = st_cache s \<Longrightarrow> harmless ks s s'"
  by (simp add: harmless_def steady_same)

lemma harmless_admin:
  assumes "\<forall>raw. ep \<noteq> Kill raw"
  shows "harmless ks s (fst (admin_handler out x hs ep s))"
proof -
  have call: "harmless ks s (fst (run_call lib parse show_time x c s))" for lib parse show_time c
    using run_call_frame [OF surjective_pairing] by (intro harmless_same) simp_all
  have sent: "harmless ks s (fst (list_users lib x w raw page s))"
    "harmless ks s (fst (reset_second_factor lib x w hs raw s))" for lib w raw page
    using users_fields [of lib x w raw page s] reset_fields [of lib x w hs raw s] by (auto intro!: harmless_same)
  note tables = call [of _ _ _ "Create_application d p n" for d p n, simplified]
    call [of _ _ _ "Update_application d p u patch" for d p u patch, simplified]
    call [of _ _ _ "Delete_application d p u" for d p u, simplified]
    call [of _ _ undefined "Create_entitlement d n" for d n, simplified]
    call [of _ _ _ "Create_entitlement d n" for d n, simplified]
    call [of _ _ _ "Delete_entitlement d u" for d u, simplified]
  show ?thesis
    by (cases ep) (use assms in \<open>auto simp: extracted_def replies_def tables sent split: sum.split\<close>)
qed

lemma harmless_portal: "ep \<noteq> Logout \<Longrightarrow> harmless ks s (fst (portal_handler out x hs ep s))"
  by (cases ep) simp_all

lemma harmless_indexed:
  assumes "\<And>s. harmless (own_key L hs) s (fst (rest s))"
  shows "harmless (own_key L hs) s (fst (indexed L ok hs rest s))"
proof (cases "caller_from hs")
  case None
  then have "indexed L ok hs rest s = rest s"
    by (auto simp: caller_from_def text_header_def indexed_def Let_def split: option.splits if_splits)
  then show ?thesis using assms by simp
next
  case (Some c)
  have indexes: "harmless (own_key L hs) s (s\<lparr>st_redis := r\<rparr>)"
    if "r = st_redis s \<or> (\<exists>sub k. session_of L (map_of hs ''cookie'') = Some k \<and> r = fst (record_session ok sub k (st_redis s)))" for r
    using that
  proof (elim disjE exE conjE)
    fix sub k assume k: "session_of L (map_of hs ''cookie'') = Some k" "r = fst (record_session ok sub k (st_redis s))"
    then obtain res where "record_session ok sub k (st_redis s) = (r, res)" by (metis prod.collapse)
    from steady_record [OF this] show ?thesis using Some k(1) by (simp add: harmless_def own_key_def entries_kept_def)
  qed simp
  show ?thesis
  proof (cases rule: indexed_cases [where L = L and ok = ok and hs = hs and rest = rest and st = s])
    case anonymous
    then show ?thesis using Some by simp
  next
    case (refused r)
    then show ?thesis using indexes by simp
  next
    case (recorded c k r)
    then have "r = fst (record_session ok (caller_sub c) k (st_redis s))" by simp
    then have "harmless (own_key L hs) s (s\<lparr>st_redis := r\<rparr>)" using indexes recorded(2) by blast
    then show ?thesis using harmless_trans [OF _ assms] recorded(4) by simp
  qed
qed

lemma serve_effect:
  assumes "serve out x call s = (s', r)" "another_endpoint out call"
  shows "harmless (own_key (o_libs out) (call_headers call)) s s'"
proof -
  let ?hs = "call_headers call" and ?m = "call_method call" and ?p = "call_path call"
  let ?ks = "own_key (o_libs out) ?hs"
  have "harmless ?ks s (fst (open_handler out ?hs ep s))" if "ep \<noteq> Decide" for ep
    using that by (cases ep) simp_all
  moreover have "harmless ?ks s (fst (indexed (o_libs out) (o_index_ok out) ?hs (portal_handler out x ?hs ep) s))"
    if "ep \<noteq> Logout" for ep using harmless_portal that by (intro harmless_indexed) blast
  moreover have "harmless ?ks s (fst (guard x ?m ?hs (admin_handler out x ?hs ep) s))" if "\<forall>raw. ep \<noteq> Kill raw" for ep s
    by (cases rule: guard_cases [of x ?m ?hs "admin_handler out x ?hs ep" s]) (simp_all add: harmless_admin that)
  then have "harmless ?ks s (fst (indexed (o_libs out) (o_index_ok out) ?hs (guard x ?m ?hs (admin_handler out x ?hs ep)) s))"
    if "\<forall>raw. ep \<noteq> Kill raw" for ep using that by (intro harmless_indexed) blast
  ultimately have "harmless ?ks s (fst (serve out x call s))"
    using assms(2) unfolding serve_def another_endpoint_def Let_def by (auto split: routed.split)
  then show ?thesis using assms(1) by simp
qed

section \<open>The invariant of the fleet\<close>

text \<open>
  An instance serves hits exactly while it believes its subscription is up. Redis holds and indexes only
  keys oauth2-proxy has made. Once a kill has deleted its keys they stay gone.
\<close>

definition process_ok :: "process \<Rightarrow> bool" where
  "process_ok p \<longleftrightarrow> cache_ok (p_cache p) \<and> (subscribed (p_cache p) \<longleftrightarrow> p_link p = Up \<or> p_link p = Wedged)"

fun cut_keys :: "kill_phase \<Rightarrow> string list option" where
  "cut_keys (Announce ks) = Some ks"
| "cut_keys (Drop_local ks ok) = Some ks"
| "cut_keys (Forget ks) = Some ks"
| "cut_keys _ = None"

fun left_key :: "leave_phase \<Rightarrow> string option" where
  "left_key (Tell c k) = Some k"
| "left_key (Drop_here c k ok) = Some k"
| "left_key (Unindex c k) = Some k"
| "left_key _ = None"

fun known_keys :: "call \<Rightarrow> string set" where
  "known_keys (Missing n cookie request ph) = recorded_key ph"
| "known_keys (Killing n uid (Delete ks)) = set ks"
| "known_keys (Killing n uid ph) = (case cut_keys ph of None \<Rightarrow> {} | Some ks \<Rightarrow> set ks)"
| "known_keys (Leaving n hs (Cut c k)) = {k}"
| "known_keys (Leaving n hs ph) = set_option (left_key ph)"

fun gone_keys :: "call \<Rightarrow> string set" where
  "gone_keys (Missing n cookie request ph) = {}"
| "gone_keys (Killing n uid ph) = (case cut_keys ph of None \<Rightarrow> {} | Some ks \<Rightarrow> set ks)"
| "gone_keys (Leaving n hs ph) = set_option (left_key ph)"

definition fleet_ok :: "fleet \<Rightarrow> bool" where
  "fleet_ok S \<longleftrightarrow>
     (\<forall>n. process_ok (procs S n)) \<and> set (present (shared S)) \<subseteq> used S
     \<and> (\<forall>sub. set (members (index_key sub) (shared S)) \<subseteq> used S)
     \<and> (\<forall>c at. calls S c = Some at \<longrightarrow> known_keys at \<subseteq> used S \<and> gone_keys at \<inter> set (present (shared S)) = {})
     \<and> (\<forall>c. fresh_call c S \<longrightarrow> ticket S c = None)"

lemma gone_known: "gone_keys at \<subseteq> known_keys at"
proof (cases at)
  case (Killing n uid ph)
  then show ?thesis by (cases ph) simp_all
next
  case (Leaving n hs ph)
  then show ?thesis by (cases ph) simp_all
qed simp

lemma view_simps [simp]:
  "st_cache (view n S) = cache_of n S" "st_metrics (view n S) = p_metrics (procs S n)" "st_redis (view n S) = shared S"
  by (simp_all add: view_def)

lemma deliver_simps [simp]:
  "p_cache (deliver subs p) = p_cache p" "p_link (deliver subs p) = p_link p" "process_ok (deliver subs p) = process_ok p"
  "p_inbox (deliver subs p) = p_inbox p @ (if hears p then subs else [])"
  by (simp_all add: deliver_def process_ok_def)

lemma settle_simps [simp]:
  "shared (settle n s S) = st_redis s" "calls (settle n s S) = calls S" "answered (settle n s S) = answered S"
  "used (settle n s S) = used S" "ticket (settle n s S) = ticket S" "filler (settle n s S) = filler S"
  "cache_of m (settle n s S) = (if m = n then st_cache s else cache_of m S)"
  "p_link (procs (settle n s S) m) = p_link (procs S m)"
  by (simp_all add: settle_def)

lemma settle_inbox:
  "p_inbox (procs (settle n s S) m) =
     p_inbox (procs S m) @ (if hears (procs S m) then announced (shared S) (st_redis s) else [])"
  by (simp add: settle_def hears_def)

lemma with_call_simps [simp]:
  "common (with_call c r S) = common S" "procs (with_call c r S) = procs S" "used (with_call c r S) = used S"
  "ticket (with_call c r S) = ticket S" "filler (with_call c r S) = filler S"
  "calls (with_call c r S) = (calls S)(c := case r of Inl code \<Rightarrow> None | Inr at \<Rightarrow> Some at)"
  "answered (with_call c r S) = (case r of Inl code \<Rightarrow> (answered S)(c \<mapsto> code) | Inr at \<Rightarrow> answered S)"
  by (simp_all add: with_call_def split: sum.split)

lemma remember_simps [simp]:
  "common (remember c n request r S) = common S" "procs (remember c n request r S) = procs S"
  "used (remember c n request r S) = used S" "calls (remember c n request r S) = calls S"
  "answered (remember c n request r S) = answered S"
  "ticket (remember c n request r S) =
     (case r of Inr (To_record i set_cookie k) \<Rightarrow> (ticket S)(c \<mapsto> k) | _ \<Rightarrow> ticket S)"
  "filler (remember c n request r S) m k =
     (case r of Inr (To_answer set_cookie v) \<Rightarrow> if m = n \<and> req_key request = Some k then c else filler S m k
      | _ \<Rightarrow> filler S m k)"
  by (auto simp: remember_def split: sum.split miss.split option.split)

lemma set_proc_simps [simp]:
  "common (set_proc n p S) = common S" "procs (set_proc n p S) m = (if m = n then p else procs S m)"
  "used (set_proc n p S) = used S" "calls (set_proc n p S) = calls S" "answered (set_proc n p S) = answered S"
  "ticket (set_proc n p S) = ticket S" "filler (set_proc n p S) = filler S"
  by (simp_all add: set_proc_def)

lemma set_shared_simps [simp]:
  "shared (set_shared r S) = r" "procs (set_shared r S) = procs S" "used (set_shared r S) = used S"
  "calls (set_shared r S) = calls S" "answered (set_shared r S) = answered S" "ticket (set_shared r S) = ticket S"
  "filler (set_shared r S) = filler S"
  by (simp_all add: set_shared_def)

lemma new_process_simps [simp]:
  "process_ok (new_process a)" "\<not> subscribed (p_cache (new_process a))"
  by (simp_all add: process_ok_def new_process_def cache_ok_new) (simp_all add: new_cache_def)

lemma restart_simps [simp]:
  "common (restart n a S) = common S" "procs (restart n a S) m = (if m = n then new_process a else procs S m)"
  "used (restart n a S) = used S" "ticket (restart n a S) = ticket S" "filler (restart n a S) = filler S"
  "fresh_call c (restart n a S) = fresh_call c S"
  "calls (restart n a S) c = Some at \<longleftrightarrow> calls S c = Some at \<and> served_by at \<noteq> n"
  by (auto simp: restart_def cut_off_def fresh_call_def split: option.split)

lemma fresh_call_simps [simp]:
  "fresh_call c (settle n s S) = fresh_call c S" "fresh_call c (set_proc n p S) = fresh_call c S"
  "fresh_call c (set_shared r S) = fresh_call c S"
  by (simp_all add: fresh_call_def)

lemma fleet_okI:
  assumes "\<And>n. process_ok (procs S n)" "set (present (shared S)) \<subseteq> used S"
    and "\<And>sub. set (members (index_key sub) (shared S)) \<subseteq> used S"
    and "\<And>c at. calls S c = Some at \<Longrightarrow> known_keys at \<subseteq> used S"
    and "\<And>c at. calls S c = Some at \<Longrightarrow> gone_keys at \<inter> set (present (shared S)) = {}"
    and "\<And>c. fresh_call c S \<Longrightarrow> ticket S c = None"
  shows "fleet_ok S"
  using assms by (simp add: fleet_ok_def)

lemma fleet_okD:
  assumes "fleet_ok S"
  shows "process_ok (procs S n)" "set (present (shared S)) \<subseteq> used S" "set (members (index_key sub) (shared S)) \<subseteq> used S"
    "calls S c = Some at \<Longrightarrow> known_keys at \<subseteq> used S"
    "calls S c = Some at \<Longrightarrow> gone_keys at \<inter> set (present (shared S)) = {}"
    "fresh_call c S \<Longrightarrow> ticket S c = None"
  using assms by (simp_all add: fleet_ok_def)

lemma steadyD:
  assumes "steady ks s s'"
  shows "set (present (st_redis s')) \<subseteq> set (present (st_redis s))"
    "set (members (index_key sub) (st_redis s')) \<subseteq> set (members (index_key sub) (st_redis s)) \<union> ks"
    "subscribed (st_cache s') = subscribed (st_cache s)" "cache_ok (st_cache s) \<Longrightarrow> cache_ok (st_cache s')"
  using assms by (simp_all add: steady_def)

lemma fleet_ok_settle:
  assumes "fleet_ok S" "steady ks (view n S) s" "ks \<subseteq> used S"
  shows "fleet_ok (settle n s S)"
proof (rule fleet_okI)
  show "process_ok (procs (settle n s S) m)" for m
    using fleet_okD(1) [OF assms(1), of m] steadyD(3,4) [OF assms(2)]
    by (cases "m = n") (simp_all add: settle_def process_ok_def)
  show "set (members (index_key sub) (shared (settle n s S))) \<subseteq> used (settle n s S)" for sub
    using steadyD(2) [OF assms(2), of sub] fleet_okD(3) [OF assms(1), of sub] assms(3) by auto
  show "gone_keys at \<inter> set (present (shared (settle n s S))) = {}" if "calls (settle n s S) c = Some at" for c at
    using that fleet_okD(5) [OF assms(1), of c at] steadyD(1) [OF assms(2)] by auto
  show "set (present (shared (settle n s S))) \<subseteq> used (settle n s S)"
    using steadyD(1) [OF assms(2)] fleet_okD(2) [OF assms(1)] by auto
qed (use fleet_okD [OF assms(1)] in simp_all)

text \<open>What a call may go on with.\<close>

definition call_ok :: "call \<Rightarrow> fleet \<Rightarrow> bool" where
  "call_ok at S \<longleftrightarrow> known_keys at \<subseteq> used S \<and> gone_keys at \<inter> set (present (shared S)) = {}"

lemma fleet_ok_with_call:
  assumes "fleet_ok S" "calls S c \<noteq> None" "\<And>at. r = Inr at \<Longrightarrow> call_ok at S"
  shows "fleet_ok (with_call c r S)" "\<not> fresh_call c (with_call c r S)"
proof -
  show no: "\<not> fresh_call c (with_call c r S)"
    using assms(3) by (auto simp: fresh_call_def call_ok_def split: sum.splits)
  show "fleet_ok (with_call c r S)"
  proof (rule fleet_okI)
    fix c' at assume "calls (with_call c r S) c' = Some at"
    then have at: "r = Inr at \<or> calls S c' = Some at" by (auto split: sum.splits if_splits)
    then show "known_keys at \<subseteq> used (with_call c r S)"
      using assms(3) [of at] fleet_okD(4) [OF assms(1), of c' at] unfolding call_ok_def with_call_simps by blast
    show "gone_keys at \<inter> set (present (shared (with_call c r S))) = {}"
      using at assms(3) [of at] fleet_okD(5) [OF assms(1), of c' at] unfolding call_ok_def with_call_simps by blast
  next
    fix c' assume u: "fresh_call c' (with_call c r S)"
    then have "c' \<noteq> c" using no by auto
    then have "fresh_call c' S" using u by (auto simp: fresh_call_def split: sum.splits)
    then show "ticket (with_call c r S) c' = None" using fleet_okD(6) [OF assms(1)] by simp
  qed (use fleet_okD [OF assms(1)] in simp_all)
qed

lemma fleet_ok_remember:
  assumes "fleet_ok S" "\<not> fresh_call c S"
  shows "fleet_ok (remember c n request r S)"
proof (rule fleet_okI)
  fix c' assume "fresh_call c' (remember c n request r S)"
  then have "fresh_call c' S" "c' \<noteq> c" using assms(2) by (auto simp: fresh_call_def)
  then show "ticket (remember c n request r S) c' = None"
    using fleet_okD(6) [OF assms(1)] by (simp split: sum.split miss.split)
qed (use fleet_okD [OF assms(1)] in simp_all)

lemma fleet_ok_starts:
  assumes "fleet_ok S" "known_keys at = {}" "fresh_call c S"
  shows "fleet_ok (S\<lparr>calls := (calls S)(c \<mapsto> at)\<rparr>)"
proof (rule fleet_okI)
  have "gone_keys at = {}" using gone_known [of at] assms(2) by simp
  then show "gone_keys a \<inter> set (present (shared (S\<lparr>calls := (calls S)(c \<mapsto> at)\<rparr>))) = {}"
    if "calls (S\<lparr>calls := (calls S)(c \<mapsto> at)\<rparr>) c' = Some a" for c' a
    using that fleet_okD(5) [OF assms(1)] by (auto split: if_splits)
  show "known_keys a \<subseteq> used (S\<lparr>calls := (calls S)(c \<mapsto> at)\<rparr>)"
    if "calls (S\<lparr>calls := (calls S)(c \<mapsto> at)\<rparr>) c' = Some a" for c' a
    using that fleet_okD(4) [OF assms(1)] assms(2) by (auto split: if_splits)
  fix c' assume "fresh_call c' (S\<lparr>calls := (calls S)(c \<mapsto> at)\<rparr>)"
  then have "fresh_call c' S" using assms(3) by (auto simp: fresh_call_def split: if_splits)
  then show "ticket (S\<lparr>calls := (calls S)(c \<mapsto> at)\<rparr>) c' = None" using fleet_okD(6) [OF assms(1)] by simp
qed (use fleet_okD [OF assms(1)] in simp_all)

lemma fleet_ok_set_proc:
  assumes "fleet_ok S" "process_ok p"
  shows "fleet_ok (set_proc n p S)"
  using fleet_okD [OF assms(1)] assms(2) by (intro fleet_okI) (simp_all split: if_splits)

lemma fleet_ok_restart:
  assumes "fleet_ok S"
  shows "fleet_ok (restart n a S)"
proof (rule fleet_okI)
  fix c at assume "calls (restart n a S) c = Some at"
  then have at: "calls S c = Some at" by simp
  show "known_keys at \<subseteq> used (restart n a S)" using fleet_okD(4) [OF assms at] by simp
  show "gone_keys at \<inter> set (present (shared (restart n a S))) = {}" using fleet_okD(5) [OF assms at] by simp
qed (use fleet_okD [OF assms] in simp_all)

lemma fleet_ok_set_shared:
  assumes "fleet_ok S" "set (present r) \<subseteq> set (present (shared S))"
    and "\<And>sub. set (members (index_key sub) r) \<subseteq> set (members (index_key sub) (shared S))"
  shows "fleet_ok (set_shared r S)"
proof (rule fleet_okI)
  show "gone_keys at \<inter> set (present (shared (set_shared r S))) = {}" if "calls (set_shared r S) c = Some at" for c at
    using that fleet_okD(5) [OF assms(1), of c at] assms(2) by auto
  show "set (members (index_key sub) (shared (set_shared r S))) \<subseteq> used (set_shared r S)" for sub
    using assms(3) fleet_okD(3) [OF assms(1)] by fastforce
qed (use fleet_okD [OF assms(1)] assms(2) in auto)

text \<open>A handler that goes on knows only keys that were made, and announces only keys it has deleted.\<close>

lemma miss_knows:
  assumes "miss_step L d cookie request ph st = (st', Inr ph')" "asks_truly L d cookie r ph"
  shows "recorded_key ph' \<subseteq> set (present r)"
  using assms by (cases ph) (auto simp: recorded_key_def refuse_def apsnd_def map_prod_def vouched_def
    split: authentication.splits option.splits sum.splits prod.splits)

lemma kill_knows:
  assumes "kill_step lib x e uid ph s = (s', Inr ph')"
  shows "known_keys (Killing n uid ph') \<subseteq>
           known_keys (Killing n uid ph) \<union> set (members (index_key (show_uuid lib uid)) (st_redis s))"
    and "gone_keys (Killing n uid ph) \<inter> set (present (st_redis s)) = {} \<Longrightarrow>
           gone_keys (Killing n uid ph') \<inter> set (present (st_redis s')) = {}"
proof -
  show "known_keys (Killing n uid ph') \<subseteq>
          known_keys (Killing n uid ph) \<union> set (members (index_key (show_uuid lib uid)) (st_redis s))"
    using assms by (cases ph) (auto simp: sessions_def Let_def split: prod.splits sum.splits logout_error.splits if_splits)
  assume gone: "gone_keys (Killing n uid ph) \<inter> set (present (st_redis s)) = {}"
  show "gone_keys (Killing n uid ph') \<inter> set (present (st_redis s')) = {}"
  proof (cases ph)
    case (Delete ks)
    obtain red res where d: "drop_sessions (kill_del_ok e) ks (st_redis s) = (red, res)" by force
    then have "st_redis s' = red" "ph' = Announce ks" "res = Inr ()" using assms Delete by (auto split: sum.splits)
    then show ?thesis using d by (auto elim!: drop_sessions_cases simp: redis_simps)
  next
    case (Announce ks)
    then have "set (present (st_redis s')) \<subseteq> set (present (st_redis s))" "gone_keys (Killing n uid ph') = set ks"
      using assms kill_effect [OF assms] steadyD(1) by (auto split: prod.splits)
    then show ?thesis using gone Announce by auto
  qed (use assms gone in \<open>auto simp: Let_def split: prod.splits sum.splits logout_error.splits if_splits\<close>)
qed

lemma leave_knows:
  assumes "logout_step L origin e hs ph st = (st', Inr ph')" "named_truly L hs ks"
  shows "known_keys (Leaving n hs ph') \<subseteq> known_keys (Leaving n hs ph) \<union> ks"
    and "gone_keys (Leaving n hs ph) \<inter> set (present (st_redis st)) = {} \<Longrightarrow>
           gone_keys (Leaving n hs ph') \<inter> set (present (st_redis st')) = {}"
proof -
  show "known_keys (Leaving n hs ph') \<subseteq> known_keys (Leaving n hs ph) \<union> ks"
    using assms by (cases ph) (auto simp: named_truly_def vouched_def
      split: prod.splits sum.splits option.splits if_splits proxy_reply.splits)
  assume gone: "gone_keys (Leaving n hs ph) \<inter> set (present (st_redis st)) = {}"
  show "gone_keys (Leaving n hs ph') \<inter> set (present (st_redis st')) = {}"
  proof (cases ph)
    case (Cut c k)
    obtain red res where d: "drop_sessions (out_del_ok e) [k] (st_redis st) = (red, res)" by force
    then have "st_redis st' = red" "ph' = Tell c k" "res = Inr ()" using assms Cut by (auto split: sum.splits)
    then show ?thesis using d by (auto elim!: drop_sessions_cases simp: redis_simps)
  next
    case (Tell c k)
    then have "set (present (st_redis st')) \<subseteq> set (present (st_redis st))" "gone_keys (Leaving n hs ph') = {k}"
      using assms leave_effect [OF assms(1)] steadyD(1) by (auto split: prod.splits)
    then show ?thesis using gone Tell by auto
  qed (use assms gone in \<open>auto split: prod.splits sum.splits option.splits if_splits proxy_reply.splits\<close>)
qed

lemma steady_put:
  "steady ks (state.truncate s) st \<Longrightarrow> steady ks s (put_state st s)"
  "entries_kept new (state.truncate s) st \<Longrightarrow> entries_kept new s (put_state st s)"
  by (simp_all add: steady_def entries_kept_def put_state_def state.defs)

lemma fleet_ok_login:
  assumes "fleet_ok S" "k \<notin> used S"
  shows "fleet_ok (set_shared ((shared S)\<lparr>present := k # present (shared S)\<rparr>) (S\<lparr>used := insert k (used S)\<rparr>))"
    (is "fleet_ok ?S")
proof (rule fleet_okI)
  fix c at assume c: "calls ?S c = Some at"
  then show "known_keys at \<subseteq> used ?S" using fleet_okD(4) [OF assms(1), of c at] by auto
  have "k \<notin> gone_keys at" using c fleet_okD(4) [OF assms(1), of c at] gone_known [of at] assms(2) by auto
  then show "gone_keys at \<inter> set (present (shared ?S)) = {}" using c fleet_okD(5) [OF assms(1), of c at] by simp
next
  show "set (members (index_key sub) (shared ?S)) \<subseteq> used ?S" for sub
    using fleet_okD(3) [OF assms(1), of sub] by (auto simp: members_def)
qed (use fleet_okD [OF assms(1)] in \<open>auto simp: fresh_call_def\<close>)

lemma cache_ok_sweep: "cache_ok c \<Longrightarrow> cache_ok (sweep now c) \<and> subscribed (sweep now c) = subscribed c"
  by (simp add: drops_alt cache_ok_evict_all)

lemma cache_ok_set_subscribed: "cache_ok c \<Longrightarrow> cache_ok (set_subscribed on c) \<and> subscribed (set_subscribed on c) = on"
  using cache_ok_apply [of c undefined "Set_subscribed on"] by (simp add: set_subscribed_def Let_def)

lemma process_ok_simps [simp]:
  "process_ok p \<Longrightarrow> process_ok (p\<lparr>p_cache := sweep now (p_cache p)\<rparr>)"
  "process_ok p \<Longrightarrow> p_link p = Down \<Longrightarrow> process_ok (p\<lparr>p_link := Joined, p_inbox := []\<rparr>)"
  "process_ok p \<Longrightarrow> up = Up \<or> up = Wedged \<Longrightarrow> process_ok (p\<lparr>p_link := up, p_cache := set_subscribed True (p_cache p)\<rparr>)"
  "process_ok p \<Longrightarrow> p_link p = Joined \<and> dead = Lost \<or> p_link p = Up \<and> dead = Wedged \<Longrightarrow> process_ok (p\<lparr>p_link := dead\<rparr>)"
  "process_ok p \<Longrightarrow> process_ok (p\<lparr>p_inbox := rest, p_cache := drop_sub sub (p_cache p)\<rparr>)"
  "process_ok p \<Longrightarrow> process_ok (p\<lparr>p_link := Down, p_inbox := [], p_cache := set_subscribed False (p_cache p)\<rparr>)"
  by (auto simp: process_ok_def cache_ok_sweep cache_ok_set_subscribed cache_ok_drop)

lemma misses_keeps:
  assumes "fleet_ok S" "calls S c = Some (Missing n cookie request ph)" "alone d" "asks_truly L d cookie (shared S) ph"
    and "miss_step L d cookie request ph (state.truncate (view n S)) = (st, r)"
  shows "fleet_ok (remember c n request r (with_call c (map_sum status (Missing n cookie request) r)
           (settle n (put_state st (view n S)) S)))"
proof -
  let ?s = "put_state st (view n S)"
  have known: "recorded_key ph \<subseteq> used S" using fleet_okD(4) [OF assms(1,2)] by simp
  have steady: "steady (recorded_key ph) (view n S) ?s" using miss_effect [OF assms(5,3)] steady_put by blast
  have "call_ok at (settle n ?s S)" if "map_sum status (Missing n cookie request) r = Inr at" for at
  proof -
    from that obtain ph' where r: "r = Inr ph'" "at = Missing n cookie request ph'" by (cases r) auto
    then show ?thesis
      using miss_knows [OF assms(5) [unfolded r(1)] assms(4)] fleet_okD(2) [OF assms(1)] by (auto simp: call_ok_def)
  qed
  with assms(2) show ?thesis
    by (intro fleet_ok_remember fleet_ok_with_call fleet_ok_settle [OF assms(1) steady known]) simp_all
qed

lemma kills_keeps:
  assumes "fleet_ok S" "calls S c = Some (Killing n uid ph)" "kill_step lib x e uid ph (view n S) = (s, r)"
  shows "fleet_ok (with_call c (map_sum status (Killing n uid) r) (settle n s S))"
proof -
  have steady: "steady {} (view n S) s" using kill_effect [OF assms(3)] by blast
  have "call_ok at (settle n s S)" if "map_sum status (Killing n uid) r = Inr at" for at
  proof -
    from that obtain ph' where r: "r = Inr ph'" "at = Killing n uid ph'" by (cases r) auto
    note kn = kill_knows [OF assms(3) [unfolded r(1)], of n]
    have "known_keys at \<subseteq> used S"
      using kn(1) fleet_okD(3) [OF assms(1)] fleet_okD(4) [OF assms(1,2)] unfolding r(2) view_simps by blast
    moreover have "gone_keys at \<inter> set (present (st_redis s)) = {}"
      using kn(2) fleet_okD(5) [OF assms(1,2)] unfolding r(2) view_simps by blast
    ultimately show ?thesis using r(2) by (simp add: call_ok_def)
  qed
  with assms(2) show ?thesis by (intro fleet_ok_with_call(1) fleet_ok_settle [OF assms(1) steady]) simp_all
qed

lemma leaves_keeps:
  assumes "fleet_ok S" "calls S c = Some (Leaving n hs ph)" "named_truly L hs (used S)"
    and "logout_step L origin e hs ph (view n S) = (s, r)"
  shows "fleet_ok (with_call c (map_sum status (Leaving n hs) r) (settle n s S))"
proof -
  have steady: "steady {} (view n S) s" using leave_effect [OF assms(4)] by blast
  have "call_ok at (settle n s S)" if "map_sum status (Leaving n hs) r = Inr at" for at
  proof -
    from that obtain ph' where r: "r = Inr ph'" "at = Leaving n hs ph'" by (cases r) auto
    note kn = leave_knows [OF assms(4) [unfolded r(1)] assms(3), of n]
    have "known_keys at \<subseteq> used S"
      using kn(1) fleet_okD(4) [OF assms(1,2)] unfolding r(2) by blast
    moreover have "gone_keys at \<inter> set (present (st_redis s)) = {}"
      using kn(2) fleet_okD(5) [OF assms(1,2)] unfolding r(2) view_simps by blast
    ultimately show ?thesis by (simp add: call_ok_def)
  qed
  with assms(2) show ?thesis by (intro fleet_ok_with_call(1) fleet_ok_settle [OF assms(1) steady]) simp_all
qed

text \<open>A call that the middleware has let through, and one it has answered.\<close>

lemma indexed_effect:
  assumes "indexed L ok hs (\<lambda>s. (s, None)) s = (s', r)"
  shows "harmless (own_key L hs) s s'"
  using harmless_indexed [where L = L and hs = hs and rest = "\<lambda>s. (s, None)" and ok = ok and s = s] assms by simp

lemma hits_effect:
  assumes "alone d" "answer L d request v ((state.truncate (view n S))\<lparr>st_metrics := m\<rparr>) = (st, r)"
  shows "harmless {} (view n S) (put_state st (view n S))"
  using answer_effect [OF assms(1), of "(state.truncate (view n S))\<lparr>st_metrics := m\<rparr>" L request v] assms(2)
  by (simp add: harmless_def steady_frame(1) [symmetric] steady_frame(2) [symmetric] steady_put)

lemma own_key_used: "named_truly L hs ks \<Longrightarrow> own_key L hs \<subseteq> ks"
  by (auto simp: named_truly_def own_key_def vouched_def split: option.splits)

lemma fleet_ok_step:
  assumes "fleet_step L lib x S S'" "fleet_ok S"
  shows "fleet_ok S'"
  using assms
proof (induction rule: fleet_step.induct)
  case (login k S)
  then show ?case by (intro fleet_ok_login)
next
  case (session_ends S keep)
  then show ?case by (rule fleet_ok_set_shared) (auto simp: members_def)
next
  case (index_expires S sub)
  then show ?case by (rule fleet_ok_set_shared) (auto simp: redis_simps)
next
  case (miss_starts c S n cookie request)
  then show ?case by (intro fleet_ok_starts) (simp_all add: recorded_key_def)
next
  case (misses S c n cookie request ph d st r)
  then show ?case by (intro misses_keeps)
next
  case (kill_starts c S n uid)
  then show ?case by (intro fleet_ok_starts) simp_all
next
  case (kills S c n uid ph e s r)
  then show ?case by (intro kills_keeps)
next
  case (leave_starts c S hs ok n s r)
  have "steady (own_key L hs) (view n S) s" using indexed_effect [OF leave_starts(3)] by (simp add: harmless_def)
  then have "fleet_ok (settle n s S)"
    using fleet_ok_settle [OF leave_starts(4)] own_key_used [OF leave_starts(2)] by blast
  then show ?case using fleet_ok_starts [of "settle n s S" "Leaving n hs Leave" c] leave_starts(1) by (simp split: option.split)
next
  case (leaves S c n hs ph e s r)
  then show ?case by (intro leaves_keeps)
next
  case (hits now request n S v d st r)
  then show ?case using hits_effect [OF hits(2,3)] by (intro fleet_ok_settle [of S "{}"]) (simp_all add: harmless_def)
next
  case (serves out call S n s r)
  from serve_effect [OF serves(4,2)] serves(1)
  have "steady (own_key L (call_headers call)) (view n S) s" by (simp add: harmless_def)
  with own_key_used [OF serves(3)] serves(5) show ?case by (intro fleet_ok_settle)
next
  case (restarts S n a)
  then show ?case by (rule fleet_ok_restart)
qed (auto intro!: fleet_ok_set_proc process_ok_simps simp: fleet_okD(1))

lemma fleet_ok_run: "(fleet_step L lib x)\<^sup>*\<^sup>* S S' \<Longrightarrow> fleet_ok S \<Longrightarrow> fleet_ok S'"
  by (induction rule: rtranclp_induct) (auto intro: fleet_ok_step)

end
