(* ===== verification/Revocation.thy ===== *)
theory Revocation
  imports Fleet
begin

text \<open>
  The kill switch across the fleet, however its steps and everybody else's interleave: which sessions it
  deletes, what is left of the user in the instances' caches once it has announced them, and the
  session it can miss.
\<close>

section \<open>Since a kill was announced\<close>

text \<open>
  In the fleet \<open>S\<close> that \<open>S0\<close> has become: the keys the kill deleted are still gone, and a call that began
  since was not verified by one of them.
\<close>

definition calls_since :: "string set \<Rightarrow> fleet \<Rightarrow> fleet \<Rightarrow> bool" where
  "calls_since ks S0 S \<longleftrightarrow>
     ks \<inter> set (present (shared S)) = {} \<and> ks \<subseteq> used S
     \<and> (\<forall>c. fresh_call c S \<longrightarrow> fresh_call c S0)
     \<and> (\<forall>c. calls S c \<noteq> None \<longrightarrow> calls S0 c \<noteq> None \<or> fresh_call c S0)
     \<and> (\<forall>c k. fresh_call c S0 \<and> ticket S c = Some k \<longrightarrow> k \<notin> ks)
     \<and> (\<forall>c n cookie request ph. fresh_call c S0 \<and> calls S c = Some (Missing n cookie request ph) \<and> ph \<noteq> Ask \<longrightarrow>
          ticket S c \<noteq> None)"

text \<open>An entry of the killed user that can still be served: it was there when the kill was announced, filled at
  that same instant, and the instance has not been told yet; or the call that filled it was under way
  when the kill was announced, or began since.\<close>

definition filled_since :: "fleet \<Rightarrow> fleet \<Rightarrow> nat \<Rightarrow> bool" where
  "filled_since S0 S c \<longleftrightarrow> calls S0 c \<noteq> None \<or> fresh_call c S0 \<and> ticket S c \<noteq> None"

definition left_over :: "string \<Rightarrow> fleet \<Rightarrow> process \<Rightarrow> nat \<Rightarrow> key \<Rightarrow> nat \<Rightarrow> bool" where
  "left_over sub S0 p m key t \<longleftrightarrow>
     (p_link p = Wedged \<or> sub \<in> set (p_inbox p)) \<and> stamp key (cache_of m S0) = Some (sub, t)"

definition entries_since :: "string \<Rightarrow> fleet \<Rightarrow> fleet \<Rightarrow> bool" where
  "entries_since sub S0 S \<longleftrightarrow>
     (\<forall>m key t. stamp key (cache_of m S) = Some (sub, t) \<and> subscribed (cache_of m S) \<longrightarrow>
        left_over sub S0 (procs S m) m key t \<or> filled_since S0 S (filler S m key))"

lemma calls_sinceI:
  assumes "ks \<inter> set (present (shared S)) = {}" "ks \<subseteq> used S"
    and "\<And>c. fresh_call c S \<Longrightarrow> fresh_call c S0"
    and "\<And>c. calls S c \<noteq> None \<Longrightarrow> calls S0 c \<noteq> None \<or> fresh_call c S0"
    and "\<And>c k. fresh_call c S0 \<Longrightarrow> ticket S c = Some k \<Longrightarrow> k \<notin> ks"
    and "\<And>c n cookie request ph. fresh_call c S0 \<Longrightarrow> calls S c = Some (Missing n cookie request ph) \<Longrightarrow> ph \<noteq> Ask \<Longrightarrow>
           ticket S c \<noteq> None"
  shows "calls_since ks S0 S"
  using assms unfolding calls_since_def by blast

lemma calls_sinceD:
  assumes "calls_since ks S0 S"
  shows "ks \<inter> set (present (shared S)) = {}" "ks \<subseteq> used S" "fresh_call c S \<Longrightarrow> fresh_call c S0"
    "calls S c \<noteq> None \<Longrightarrow> calls S0 c \<noteq> None \<or> fresh_call c S0"
    "fresh_call c S0 \<Longrightarrow> ticket S c = Some k \<Longrightarrow> k \<notin> ks"
    "fresh_call c S0 \<Longrightarrow> calls S c = Some (Missing n cookie request ph) \<Longrightarrow> ph \<noteq> Ask \<Longrightarrow> ticket S c \<noteq> None"
  using assms unfolding calls_since_def by blast+

text \<open>What leaves the calls and their history alone, and makes no session.\<close>

lemma calls_since_frame:
  assumes "calls_since ks S0 S" "calls S' = calls S" "answered S' = answered S" "ticket S' = ticket S"
    and "used S \<subseteq> used S'" "ks \<inter> set (present (shared S')) = {}"
  shows "calls_since ks S0 S'"
proof (rule calls_sinceI)
  show "ks \<subseteq> used S'" using calls_sinceD(2) [OF assms(1)] assms(5) by blast
  show "fresh_call c S' \<Longrightarrow> fresh_call c S0" for c
    using calls_sinceD(3) [OF assms(1), of c] assms(2,3) by (simp add: fresh_call_def)
qed (use assms(2-6) calls_sinceD(4-6) [OF assms(1)] in simp_all)

lemma calls_since_starts:
  assumes "calls_since ks S0 S" "fresh_call c S" "\<And>n cookie request ph. at = Missing n cookie request ph \<Longrightarrow> ph = Ask"
  shows "calls_since ks S0 (S\<lparr>calls := (calls S)(c \<mapsto> at)\<rparr>)"
proof (rule calls_sinceI)
  fix c' assume "fresh_call c' (S\<lparr>calls := (calls S)(c \<mapsto> at)\<rparr>)"
  then have "fresh_call c' S" by (auto simp: fresh_call_def split: if_splits)
  then show "fresh_call c' S0" by (rule calls_sinceD(3) [OF assms(1)])
next
  fix c' assume "calls (S\<lparr>calls := (calls S)(c \<mapsto> at)\<rparr>) c' \<noteq> None"
  then show "calls S0 c' \<noteq> None \<or> fresh_call c' S0"
    using calls_sinceD(3,4) [OF assms(1), of c'] assms(2) by (auto split: if_splits)
qed (use assms(3) calls_sinceD(1,2,5,6) [OF assms(1)] in \<open>auto split: if_splits\<close>)

lemma calls_since_with_call:
  assumes "calls_since ks S0 S" "calls S c = Some at" "\<And>n cookie request ph. r \<noteq> Inr (Missing n cookie request ph)"
  shows "calls_since ks S0 (with_call c r S)"
proof (rule calls_sinceI)
  fix c' assume "fresh_call c' (with_call c r S)"
  then have "fresh_call c' S" by (auto simp: fresh_call_def split: sum.splits if_splits)
  then show "fresh_call c' S0" by (rule calls_sinceD(3) [OF assms(1)])
next
  fix c' assume "calls (with_call c r S) c' \<noteq> None"
  then have "calls S c' \<noteq> None" using assms(2) by (auto split: sum.splits if_splits)
  then show "calls S0 c' \<noteq> None \<or> fresh_call c' S0" by (rule calls_sinceD(4) [OF assms(1)])
next
  fix c' n cookie request ph
  assume f: "fresh_call c' S0" and "calls (with_call c r S) c' = Some (Missing n cookie request ph)" "ph \<noteq> Ask"
  then have "calls S c' = Some (Missing n cookie request ph)" using assms(3) by (auto split: sum.splits if_splits)
  then show "ticket (with_call c r S) c' \<noteq> None" using calls_sinceD(6) [OF assms(1) f _ \<open>ph \<noteq> Ask\<close>] by simp
qed (use calls_sinceD(1,2,5) [OF assms(1)] in simp_all)

lemma calls_since_misses:
  assumes "calls_since ks S0 S" "calls S c = Some (Missing n cookie request ph)"
    and "\<And>ph'. r = Inr ph' \<Longrightarrow> recorded_key ph' \<inter> ks = {}"
    and "\<And>ph'. r = Inr ph' \<Longrightarrow> ph = Ask \<Longrightarrow> recorded_key ph' \<noteq> {}"
  shows "calls_since ks S0 (remember c n request r (with_call c (map_sum status (Missing n cookie request) r) S))"
    (is "calls_since ks S0 ?S")
proof (rule calls_sinceI)
  fix c' assume "fresh_call c' ?S"
  then have "fresh_call c' S" by (auto simp: fresh_call_def split: sum.splits if_splits)
  then show "fresh_call c' S0" by (rule calls_sinceD(3) [OF assms(1)])
next
  fix c' assume "calls ?S c' \<noteq> None"
  then have "calls S c' \<noteq> None" using assms(2) by (auto split: sum.splits if_splits)
  then show "calls S0 c' \<noteq> None \<or> fresh_call c' S0" by (rule calls_sinceD(4) [OF assms(1)])
next
  fix c' k assume f: "fresh_call c' S0" and "ticket ?S c' = Some k"
  then have "ticket S c' = Some k \<or> (\<exists>ph'. r = Inr ph' \<and> k \<in> recorded_key ph')"
    by (auto simp: recorded_key_def split: sum.splits miss.splits if_splits)
  then show "k \<notin> ks" using calls_sinceD(5) [OF assms(1) f] assms(3) by blast
next
  fix c' n' cookie' request' ph'
  assume f: "fresh_call c' S0" and at: "calls ?S c' = Some (Missing n' cookie' request' ph')" "ph' \<noteq> Ask"
  show "ticket ?S c' \<noteq> None"
  proof (cases "c' = c")
    case True
    then have r: "r = Inr ph'" using at(1) by (cases r) auto
    show ?thesis
    proof (cases "ph = Ask")
      case True
      then show ?thesis using assms(4) [OF r] \<open>c' = c\<close> r by (auto simp: recorded_key_def split: miss.splits)
    next
      case False
      then have "ticket S c \<noteq> None" using calls_sinceD(6) [OF assms(1) _ assms(2)] f True by simp
      then show ?thesis using True by (auto split: sum.splits miss.splits)
    qed
  next
    case False
    then have "calls S c' = Some (Missing n' cookie' request' ph')" using at(1) by (auto split: sum.splits)
    then show ?thesis using calls_sinceD(6) [OF assms(1) f _ at(2)] False by (auto split: sum.splits miss.splits)
  qed
qed (use calls_sinceD(1,2) [OF assms(1)] in simp_all)

text \<open>The entries.\<close>

lemma entries_sinceI:
  assumes "\<And>m key t. stamp key (cache_of m S) = Some (sub, t) \<Longrightarrow> subscribed (cache_of m S) \<Longrightarrow>
    left_over sub S0 (procs S m) m key t \<or> filled_since S0 S (filler S m key)"
  shows "entries_since sub S0 S"
  using assms by (simp add: entries_since_def)

lemma entries_sinceD:
  "entries_since sub S0 S \<Longrightarrow> stamp key (cache_of m S) = Some (sub, t) \<Longrightarrow> subscribed (cache_of m S) \<Longrightarrow>
   left_over sub S0 (procs S m) m key t \<or> filled_since S0 S (filler S m key)"
  by (simp add: entries_since_def)

lemma entries_since_frame:
  assumes "entries_since sub S0 S" "procs S' = procs S" "ticket S' = ticket S" "filler S' = filler S"
  shows "entries_since sub S0 S'"
  using assms by (simp add: entries_since_def filled_since_def)

lemma entries_since_set_proc:
  assumes "entries_since sub S0 S"
    and "\<And>key t. stamp key (p_cache p) = Some (sub, t) \<Longrightarrow> subscribed (p_cache p) \<Longrightarrow>
      left_over sub S0 p n key t \<or> filled_since S0 S (filler S n key)"
  shows "entries_since sub S0 (set_proc n p S)"
proof (rule entries_sinceI)
  fix m key t assume "stamp key (cache_of m (set_proc n p S)) = Some (sub, t)" "subscribed (cache_of m (set_proc n p S))"
  then show "left_over sub S0 (procs (set_proc n p S) m) m key t \<or>
      filled_since S0 (set_proc n p S) (filler (set_proc n p S) m key)"
    using assms(2) [of key t] entries_sinceD [OF assms(1), of key m t] by (cases "m = n") (simp_all add: filled_since_def)
qed

lemma entries_since_settle:
  assumes "entries_since sub S0 S" "fleet_ok S" "harmless ks (view n S) s"
  shows "entries_since sub S0 (settle n s S)"
proof (rule entries_sinceI)
  fix m key t assume own: "stamp key (cache_of m (settle n s S)) = Some (sub, t)" "subscribed (cache_of m (settle n s S))"
  have ok: "cache_ok (cache_of n S)" using fleet_okD(1) [OF assms(2)] by (simp add: process_ok_def)
  have "stamp key (cache_of m S) = Some (sub, t)" "subscribed (cache_of m S)"
    using own assms(3) ok entries_keptD [of "{}" "view n S" s key "(sub, t)"]
    by (auto simp: harmless_def steady_def split: if_splits)
  from entries_sinceD [OF assms(1) this]
  show "left_over sub S0 (procs (settle n s S) m) m key t \<or>
      filled_since S0 (settle n s S) (filler (settle n s S) m key)"
    by (auto simp: left_over_def settle_inbox filled_since_def)
qed


text \<open>The entry a miss fills has that miss as its filler; no other entry changes hands.\<close>

lemma entries_since_misses:
  assumes "entries_since sub S0 S" "calls_since ks S0 S" "fleet_ok S"
    and "calls S c = Some (Missing n cookie request ph)" "alone d"
    and "miss_step L d cookie request ph (state.truncate (view n S)) = (st, r)"
  shows "entries_since sub S0 (remember c n request r (with_call c (map_sum status (Missing n cookie request) r)
           (settle n (put_state st (view n S)) S)))" (is "entries_since sub S0 ?S")
proof (rule entries_sinceI)
  let ?s = "put_state st (view n S)"
  have ok: "cache_ok (cache_of n S)" using fleet_okD(1) [OF assms(3)] by (simp add: process_ok_def)
  have eff: "steady (recorded_key ph) (view n S) ?s" "entries_kept (filled_key request ph) (view n S) ?s"
    using miss_effect [OF assms(6,5)] steady_put by blast+
  have later: "filled_since S0 S f \<Longrightarrow> filled_since S0 ?S f" for f
    by (auto simp: filled_since_def split: sum.split miss.split)
  fix m key t assume own: "stamp key (cache_of m ?S) = Some (sub, t)" "subscribed (cache_of m ?S)"
  show "left_over sub S0 (procs ?S m) m key t \<or> filled_since S0 ?S (filler ?S m key)"
  proof (cases "\<exists>set_cookie v. r = Inr (To_answer set_cookie v) \<and> m = n \<and> req_key request = Some key")
    case True
    then have "ph \<noteq> Ask" using assms(6) by (auto simp: refuse_def apsnd_def map_prod_def
      split: authentication.splits option.splits)
    then have "filled_since S0 S c"
      using calls_sinceD(4,6) [OF assms(2), of c] assms(4) by (fastforce simp: filled_since_def)
    moreover have "filler ?S m key = c" using True by auto
    ultimately show ?thesis using later by simp
  next
    case False
    then have "m = n \<Longrightarrow> key \<notin> filled_key request ph"
      using assms(6) by (auto simp: filled_key_def split: miss.splits option.splits)
    then have "stamp key (cache_of m S) = Some (sub, t)" "subscribed (cache_of m S)"
      using own eff(1) ok entries_keptD [OF eff(2), of key "(sub, t)"] by (auto simp: steady_def split: if_splits)
    moreover have "filler ?S m key = filler S m key" using False by (auto split: sum.split miss.split)
    ultimately show ?thesis using entries_sinceD [OF assms(1), of key m t] later by (auto simp: left_over_def settle_inbox)
  qed
qed

text \<open>One step.\<close>

definition kept_since :: "string set \<Rightarrow> string \<Rightarrow> fleet \<Rightarrow> fleet \<Rightarrow> bool" where
  "kept_since ks sub S0 S \<longleftrightarrow> fleet_ok S \<and> calls_since ks S0 S \<and> entries_since sub S0 S"

lemma kept_since_settle:
  assumes "kept_since ks sub S0 S" "harmless ks' (view n S) s" "ks' \<subseteq> used S"
  shows "kept_since ks sub S0 (settle n s S)"
proof -
  have ok: "fleet_ok S" "calls_since ks S0 S" "entries_since sub S0 S" using assms(1) by (auto simp: kept_since_def)
  have "set (present (st_redis s)) \<subseteq> set (present (shared S))"
    using assms(2) steadyD(1) [of ks' "view n S" s] by (simp add: harmless_def)
  then have "calls_since ks S0 (settle n s S)"
    using calls_sinceD(1) [OF ok(2)] by (intro calls_since_frame [OF ok(2)]) (simp_all, blast)
  moreover have "entries_since sub S0 (settle n s S)" using ok(3,1) assms(2) by (rule entries_since_settle)
  moreover have "fleet_ok (settle n s S)"
    using fleet_ok_settle [OF ok(1) _ assms(3)] assms(2) by (simp add: harmless_def)
  ultimately show ?thesis by (simp add: kept_since_def)
qed

lemma kept_since_set_proc:
  assumes "kept_since ks sub S0 S" "process_ok p"
    and "\<And>key t. stamp key (p_cache p) = Some (sub, t) \<Longrightarrow> subscribed (p_cache p) \<Longrightarrow>
      left_over sub S0 p n key t \<or> filled_since S0 S (filler S n key)"
  shows "kept_since ks sub S0 (set_proc n p S)"
proof -
  have "calls_since ks S0 S" using assms(1) by (simp add: kept_since_def)
  then have "calls_since ks S0 (set_proc n p S)"
    by (rule calls_since_frame) (use calls_sinceD(1) [OF \<open>calls_since ks S0 S\<close>] in simp_all)
  then show ?thesis
    using assms fleet_ok_set_proc entries_since_set_proc by (auto simp: kept_since_def)
qed

lemma kept_since_set_shared:
  assumes "kept_since ks sub S0 S" "set (present r) \<subseteq> set (present (shared S))"
    and "\<And>sub. set (members (index_key sub) r) \<subseteq> set (members (index_key sub) (shared S))"
  shows "kept_since ks sub S0 (set_shared r S)"
proof -
  have "calls_since ks S0 S" using assms(1) by (simp add: kept_since_def)
  then have "calls_since ks S0 (set_shared r S)"
    by (rule calls_since_frame) (use calls_sinceD(1) [OF \<open>calls_since ks S0 S\<close>] assms(2) in auto)
  moreover have "fleet_ok (set_shared r S)" using assms fleet_ok_set_shared by (simp add: kept_since_def)
  moreover have "entries_since sub S0 (set_shared r S)"
    by (rule entries_since_frame [where S = S]) (use assms(1) in \<open>simp_all add: kept_since_def\<close>)
  ultimately show ?thesis by (simp add: kept_since_def)
qed

lemma kept_since_starts:
  assumes "kept_since ks sub S0 S" "fresh_call c S" "at = Missing n cookie request Ask \<or> at = Killing n uid Sign_out \<or> at = Leaving n hs Leave"
  shows "kept_since ks sub S0 (S\<lparr>calls := (calls S)(c \<mapsto> at)\<rparr>)"
proof -
  have "known_keys at = {}" using assms(3) by (auto simp: recorded_key_def)
  moreover have "\<And>n cookie request ph. at = Missing n cookie request ph \<Longrightarrow> ph = Ask" using assms(3) by auto
  moreover have "entries_since sub S0 (S\<lparr>calls := (calls S)(c \<mapsto> at)\<rparr>)"
    by (rule entries_since_frame [where S = S]) (use assms(1) in \<open>simp_all add: kept_since_def\<close>)
  ultimately show ?thesis
    using assms(1,2) fleet_ok_starts calls_since_starts by (simp add: kept_since_def)
qed

lemma kept_since_restart:
  assumes "kept_since ks sub S0 S"
  shows "kept_since ks sub S0 (restart n a S)"
proof -
  have ok: "fleet_ok S" "calls_since ks S0 S" "entries_since sub S0 S" using assms by (auto simp: kept_since_def)
  have "calls_since ks S0 (restart n a S)"
  proof (rule calls_sinceI)
    fix c assume "calls (restart n a S) c \<noteq> None"
    then have "calls S c \<noteq> None" by auto
    then show "calls S0 c \<noteq> None \<or> fresh_call c S0" by (rule calls_sinceD(4) [OF ok(2)])
  qed (use calls_sinceD(1-3,5,6) [OF ok(2)] in auto)
  moreover have "entries_since sub S0 (restart n a S)"
    using entries_sinceD [OF ok(3)] by (intro entries_sinceI) (auto simp: filled_since_def split: if_splits)
  ultimately show ?thesis using fleet_ok_restart [OF ok(1)] by (simp add: kept_since_def)
qed

lemma stamp_sweep: "stamp key (sweep now c) = Some t \<Longrightarrow> stamp key c = Some t"
  by (auto simp: stamp_def drops_alt restrict_map_def split: if_splits)

lemma stamp_raised: "\<not> subscribed c \<Longrightarrow> stamp key (set_subscribed True c) = None"
  by (simp add: stamp_def set_subscribed_def)

lemma stamp_dropped: "cache_ok c \<Longrightarrow> stamp key (drop_sub sub c) = Some (u, t) \<Longrightarrow> stamp key c = Some (u, t) \<and> u \<noteq> sub"
proof
  assume c: "cache_ok c" and s: "stamp key (drop_sub sub c) = Some (u, t)"
  show "stamp key c = Some (u, t)" using s by (rule stamp_drop)
  have "owner key (drop_sub sub c) = Some u" using s by (simp add: owner_stamp)
  from owner_drop [OF c this] show "u \<noteq> sub" ..
qed

lemma kept_since_misses:
  assumes "kept_since ks sub S0 S" "calls S c = Some (Missing n cookie request ph)" "alone d"
    and "asks_truly L d cookie (shared S) ph"
    and "miss_step L d cookie request ph (state.truncate (view n S)) = (st, r)"
  shows "kept_since ks sub S0 (remember c n request r (with_call c (map_sum status (Missing n cookie request) r)
           (settle n (put_state st (view n S)) S)))"
proof -
  let ?s = "put_state st (view n S)"
  have ok: "fleet_ok S" "calls_since ks S0 S" "entries_since sub S0 S" using assms(1) by (auto simp: kept_since_def)
  have "set (present (st_redis st)) \<subseteq> set (present (shared S))"
    using steadyD(1) [OF conjunct1 [OF miss_effect [OF assms(5,3)]]] by (simp add: state.defs)
  then have "calls_since ks S0 (settle n ?s S)"
    by (intro calls_since_frame [OF ok(2)])
      (use calls_sinceD(1) [OF ok(2)] in \<open>auto simp: put_state_def\<close>)
  moreover have "recorded_key ph' \<inter> ks = {}" if "r = Inr ph'" for ph'
    using miss_knows [OF assms(5) [unfolded that] assms(4)] calls_sinceD(1) [OF ok(2)] by auto
  moreover have "recorded_key ph' \<noteq> {}" if "r = Inr ph'" "ph = Ask" for ph'
    using assms(5) that by (auto simp: recorded_key_def refuse_def apsnd_def map_prod_def
      split: authentication.splits option.splits)
  ultimately show ?thesis
    unfolding kept_since_def using assms(2)
    by (intro conjI misses_keeps [OF ok(1) assms(2-5)] entries_since_misses [OF ok(3,2,1) assms(2,3,5)]
        calls_since_misses) simp_all
qed

lemma kept_since_with_call:
  assumes "kept_since ks sub S0 S" "calls S c = Some at" "\<And>n cookie request ph. r \<noteq> Inr (Missing n cookie request ph)"
    and "fleet_ok (with_call c r S)"
  shows "kept_since ks sub S0 (with_call c r S)"
proof -
  have "calls_since ks S0 (with_call c r S)"
    using assms by (intro calls_since_with_call) (simp_all add: kept_since_def)
  moreover have "entries_since sub S0 (with_call c r S)"
    by (rule entries_since_frame [where S = S]) (use assms(1) in \<open>simp_all add: kept_since_def\<close>)
  ultimately show ?thesis using assms(4) by (simp add: kept_since_def)
qed

lemma kept_since_kills:
  assumes "kept_since ks sub S0 S" "calls S c = Some (Killing n uid ph)" "kill_step lib x e uid ph (view n S) = (s, r)"
  shows "kept_since ks sub S0 (with_call c (map_sum status (Killing n uid) r) (settle n s S))"
proof -
  have "harmless {} (view n S) s" using kill_effect [OF assms(3)] by (simp add: harmless_def)
  then have kept: "kept_since ks sub S0 (settle n s S)" using kept_since_settle [OF assms(1)] by simp
  have "map_sum status (Killing n uid) r \<noteq> Inr (Missing n' cookie request ph')" for n' cookie request ph'
    by (cases r) auto
  moreover have "fleet_ok (with_call c (map_sum status (Killing n uid) r) (settle n s S))"
    using assms by (intro kills_keeps) (simp_all add: kept_since_def)
  ultimately show ?thesis using kept assms(2) by (intro kept_since_with_call) simp_all
qed

lemma kept_since_leaves:
  assumes "kept_since ks sub S0 S" "calls S c = Some (Leaving n hs ph)" "named_truly L hs (used S)"
    and "logout_step L origin e hs ph (view n S) = (s, r)"
  shows "kept_since ks sub S0 (with_call c (map_sum status (Leaving n hs) r) (settle n s S))"
proof -
  have "harmless {} (view n S) s" using leave_effect [OF assms(4)] by (simp add: harmless_def)
  then have kept: "kept_since ks sub S0 (settle n s S)" using kept_since_settle [OF assms(1)] by simp
  have "map_sum status (Leaving n hs) r \<noteq> Inr (Missing n' cookie request ph')" for n' cookie request ph'
    by (cases r) auto
  moreover have "fleet_ok (with_call c (map_sum status (Leaving n hs) r) (settle n s S))"
    using assms by (intro leaves_keeps) (simp_all add: kept_since_def)
  ultimately show ?thesis using kept assms(2) by (intro kept_since_with_call) simp_all
qed

lemma kept_since_step:
  assumes "fleet_step L lib x S S'" "kept_since ks sub S0 S"
  shows "kept_since ks sub S0 S'"
  using assms
proof (induction rule: fleet_step.induct)
  case (login k S)
  let ?S = "set_shared ((shared S)\<lparr>present := k # present (shared S)\<rparr>) (S\<lparr>used := insert k (used S)\<rparr>)"
  have ok: "fleet_ok S" "calls_since ks S0 S" "entries_since sub S0 S" using login(2) by (auto simp: kept_since_def)
  have "calls_since ks S0 ?S"
    using calls_sinceD(1,2) [OF ok(2)] login(1) by (intro calls_since_frame [OF ok(2)]) auto
  moreover have "entries_since sub S0 ?S" by (rule entries_since_frame [OF ok(3)]) simp_all
  ultimately show ?case using fleet_ok_login [OF ok(1) login(1)] by (simp add: kept_since_def)
next
  case (session_ends S keep)
  then show ?case by (rule kept_since_set_shared) (auto simp: members_def)
next
  case (index_expires S sub')
  then show ?case by (rule kept_since_set_shared) (auto simp: redis_simps)
next
  case (miss_starts c S n cookie request)
  then show ?case by (intro kept_since_starts) auto
next
  case (misses S c n cookie request ph d st r)
  then show ?case by (intro kept_since_misses)
next
  case (kill_starts c S n uid)
  then show ?case by (intro kept_since_starts) auto
next
  case (kills S c n uid ph e s r)
  then show ?case by (intro kept_since_kills)
next
  case (leave_starts c S hs ok n s r)
  have "kept_since ks sub S0 (settle n s S)"
    using kept_since_settle [OF leave_starts(4) indexed_effect [OF leave_starts(3)]] own_key_used [OF leave_starts(2)] by simp
  then show ?case using kept_since_starts [of ks sub S0 "settle n s S" c "Leaving n hs Leave"] leave_starts(1)
    by (simp split: option.split)
next
  case (leaves S c n hs ph e s r)
  then show ?case by (intro kept_since_leaves)
next
  case (hits now request n S v d st r)
  then show ?case using kept_since_settle [OF _ hits_effect [OF hits(2,3)]] by simp
next
  case (serves out call S n s r)
  have "harmless (own_key L (call_headers call)) (view n S) s"
    using serve_effect [OF serves(4,2)] serves(1) by simp
  with own_key_used [OF serves(3)] serves(5) show ?case by (intro kept_since_settle)
next
  case (sweeps S n now)
  have p: "process_ok (procs S n)" using sweeps fleet_okD(1) by (auto simp: kept_since_def)
  show ?case
    using sweeps p cache_ok_sweep [of "cache_of n S" now] entries_sinceD [of sub S0 S _ n]
    by (intro kept_since_set_proc) (auto simp: kept_since_def process_ok_def left_over_def dest!: stamp_sweep)
next
  case (subscribes S n)
  have p: "process_ok (procs S n)" using subscribes fleet_okD(1) by (auto simp: kept_since_def)
  with subscribes show ?case by (intro kept_since_set_proc) (auto simp: process_ok_def)
next
  case (raises S n up)
  have p: "process_ok (procs S n)" using raises fleet_okD(1) by (auto simp: kept_since_def)
  then have "\<not> subscribed (cache_of n S)" using raises(1) by (auto simp: process_ok_def)
  with p raises show ?case by (intro kept_since_set_proc) (auto simp: stamp_raised)
next
  case (breaks S n dead)
  have p: "process_ok (procs S n)" using breaks fleet_okD(1) by (auto simp: kept_since_def)
  with breaks show ?case
    using entries_sinceD [of sub S0 S _ n] by (intro kept_since_set_proc) (auto simp: kept_since_def process_ok_def left_over_def)
next
  case (hears_of S n sub' rest)
  have p: "process_ok (procs S n)" using hears_of fleet_okD(1) by (auto simp: kept_since_def)
  then have c: "cache_ok (cache_of n S)" by (simp add: process_ok_def)
  show ?case
    using hears_of p entries_sinceD [of sub S0 S _ n]
    by (intro kept_since_set_proc) (fastforce simp: kept_since_def left_over_def dest!: stamp_dropped [OF c])+
next
  case (gives_up S n)
  have p: "process_ok (procs S n)" using gives_up fleet_okD(1) by (auto simp: kept_since_def)
  with gives_up show ?case
    using cache_ok_set_subscribed [of "cache_of n S" False] by (intro kept_since_set_proc) (auto simp: process_ok_def)
next
  case (restarts S n a)
  then show ?case by (rule kept_since_restart)
qed

lemma kept_since_run: "(fleet_step L lib x)\<^sup>*\<^sup>* S S' \<Longrightarrow> kept_since ks sub S0 S \<Longrightarrow> kept_since ks sub S0 S'"
  by (induction rule: rtranclp_induct) (auto intro: kept_since_step)

text \<open>Where it begins: the fleet right after a call has deleted its keys and announced the user.\<close>

lemma kept_since_announced:
  assumes "fleet_ok S0" "S0 = with_call d (Inr at) (settle n s S)" "sub \<in> set (announced (shared S) (st_redis s))"
    and "ks = gone_keys at"
  shows "kept_since ks sub S0 S0"
proof -
  have d: "calls S0 d = Some at" by (simp add: assms(2))
  have "calls_since ks S0 S0"
  proof (rule calls_sinceI)
    show "ks \<inter> set (present (shared S0)) = {}" using fleet_okD(5) [OF assms(1) d] assms(4) by simp
    show "ks \<subseteq> used S0" using fleet_okD(4) [OF assms(1) d] gone_known [of at] assms(4) by blast
  qed (use fleet_okD(6) [OF assms(1)] in \<open>auto simp: fresh_call_def\<close>)
  moreover have "entries_since sub S0 S0"
    using fleet_okD(1) [OF assms(1)] assms(3)
    by (intro entries_sinceI) (auto simp: left_over_def assms(2) settle_inbox hears_def process_ok_def)
  ultimately show ?thesis using assms(1) by (simp add: kept_since_def)
qed

lemma kept_since_killed:
  assumes "fleet_ok S" "calls S d = Some (Killing n uid (Announce ks))"
    and "kill_step lib x e uid (Announce ks) (view n S) = (s, Inr (Drop_local ks True))"
    and "S0 = with_call d (Inr (Killing n uid (Drop_local ks True))) (settle n s S)"
  shows "kept_since (set ks) (show_uuid lib uid) S0 S0"
proof -
  have "announced (shared S) (st_redis s) = [show_uuid lib uid]"
    using assms(3) by (auto simp: announced_def publish_invalidation_def split: if_splits)
  moreover have "fleet_ok S0" using kills_keeps [OF assms(1-3)] assms(4) by simp
  ultimately show ?thesis
    using kept_since_announced [OF _ assms(4), of "show_uuid lib uid" "set ks"] by simp
qed

lemma kept_since_signed_out:
  assumes "fleet_ok S" "calls S d = Some (Leaving n hs (Tell c k))" "named_truly L hs (used S)"
    and "logout_step L (portal_origin x) e hs (Tell c k) (view n S) = (s, Inr (Drop_here c k True))"
    and "S0 = with_call d (Inr (Leaving n hs (Drop_here c k True))) (settle n s S)"
  shows "kept_since {k} (caller_sub c) S0 S0"
proof -
  have "announced (shared S) (st_redis s) = [caller_sub c]"
    using assms(4) by (auto simp: announced_def publish_invalidation_def split: if_splits)
  moreover have "fleet_ok S0" using leaves_keeps [OF assms(1-4)] assms(5) by simp
  ultimately show ?thesis using kept_since_announced [OF _ assms(5), of "caller_sub c" "{k}"] by simp
qed

text \<open>What is served of that user then.\<close>

lemma served_since:
  assumes "kept_since ks sub S0 S1" "get now key (cache_of m S1) = Some v" "owner key (cache_of m S1) = Some sub"
  shows "(\<exists>t. stamp key (cache_of m S0) = Some (sub, t) \<and> now < t + TTL
      \<and> (sub \<in> set (p_inbox (procs S1 m)) \<or> p_link (procs S1 m) = Wedged))
    \<or> calls S0 (filler S1 m key) \<noteq> None
    \<or> (\<exists>k. ticket S1 (filler S1 m key) = Some k \<and> k \<notin> ks)"
proof -
  obtain e where e: "lookup (cache_of m S1) key = Some e" "subscribed (cache_of m S1)" "now < inserted e + TTL"
    using assms(2) by (fastforce simp: get_Some)
  then have "stamp key (cache_of m S1) = Some (sub, inserted e)" using assms(3) by (simp add: owner_def stamp_def)
  from entries_sinceD [OF _ this e(2), of S0] show ?thesis
    using calls_sinceD(5) [of ks S0 S1 "filler S1 m key"] assms(1) e(3)
    by (auto simp: kept_since_def filled_since_def left_over_def)
qed

section \<open>Runs\<close>

lemmas runs_on = converse_rtranclp_into_rtranclp

lemma miss_goes:
  assumes "calls S c = Some (Missing n cookie request ph)" "alone d" "asks_truly L d cookie (shared S) ph"
    and "miss_step L d cookie request ph (state.truncate (view n S)) = (st, Inr ph')"
  obtains S' where "fleet_step L lib x S S'" "shared S' = st_redis st"
    "calls S' = (calls S)(c \<mapsto> Missing n cookie request ph')" "answered S' = answered S"
  by (rule that [OF fleet_step.misses [OF assms]]) (simp_all add: put_state_def)

lemma kill_goes:
  assumes "calls S d = Some (Killing n uid ph)" "kill_step lib x e uid ph (view n S) = (s, Inr ph')"
  obtains S' where "fleet_step L lib x S S'" "shared S' = st_redis s"
    "calls S' = (calls S)(d \<mapsto> Killing n uid ph')" "answered S' = answered S"
  by (rule that [OF fleet_step.kills [OF assms]]) simp_all

lemma kill_ends:
  assumes "calls S d = Some (Killing n uid ph)" "kill_step lib x e uid ph (view n S) = (s, Inl reply)"
  obtains S' where "fleet_step L lib x S S'" "shared S' = st_redis s" "answered S' d = Some (status reply)" "calls S' d = None"
  by (rule that [OF fleet_step.kills [OF assms]]) simp_all

text \<open>A kill whose index is read finishes, whatever has been recorded since.\<close>

lemma kill_finishes:
  fixes e :: kill_env
  assumes "calls S d = Some (Killing n uid (Delete ks))" "list_all session_name ks"
    and "kill_del_ok e" "kill_publish_ok e" "kill_forget_ok e"
  obtains S' where "(fleet_step L lib x)\<^sup>*\<^sup>* S S'" "answered S' d = Some 200" "calls S' d = None"
    "members (index_key (show_uuid lib uid)) (shared S') = []"
    "\<And>k. k \<in> set (present (shared S)) \<Longrightarrow> session_name k \<Longrightarrow> k \<notin> set ks \<Longrightarrow> k \<in> set (present (shared S'))"
proof -
  let ?sub = "show_uuid lib uid"
  obtain r1 where r1: "drop_sessions (kill_del_ok e) ks (shared S) = (r1, Inr ())"
    using assms(3) by (cases "ks = []") (auto simp: drop_sessions_def)
  have "kill_step lib x e uid (Delete ks) (view n S) = ((view n S)\<lparr>st_redis := r1\<rparr>, Inr (Announce ks))"
    using r1 by simp
  with assms(1) obtain S1 where S1: "fleet_step L lib x S S1" "shared S1 = r1"
      "calls S1 = (calls S)(d \<mapsto> Killing n uid (Announce ks))" by (rule kill_goes [where L = L]) simp_all
  obtain r2 where r2: "publish_invalidation (kill_publish_ok e) ?sub (shared S1) = (r2, Inr ())"
    using assms(4) by (auto simp: publish_invalidation_def)
  then have "kill_step lib x e uid (Announce ks) (view n S1) = ((view n S1)\<lparr>st_redis := r2\<rparr>, Inr (Drop_local ks True))"
    by simp
  then obtain S2 where S2: "fleet_step L lib x S1 S2" "shared S2 = r2"
      "calls S2 = (calls S1)(d \<mapsto> Killing n uid (Drop_local ks True))" by (rule kill_goes [where d = d and L = L, rotated]) (use S1(3) in simp_all)
  have "kill_step lib x e uid (Drop_local ks True) (view n S2) =
      ((view n S2)\<lparr>st_cache := drop_sub ?sub (cache_of n S2)\<rparr>, Inr (Forget ks))" by simp
  then obtain S3 where S3: "fleet_step L lib x S2 S3" "shared S3 = r2"
      "calls S3 = (calls S2)(d \<mapsto> Killing n uid (Forget ks))" by (rule kill_goes [where d = d and L = L, rotated]) (use S2 in simp_all)
  obtain r4 where r4: "forget (kill_forget_ok e) ?sub (shared S3) = (r4, Inr ())"
    using assms(5) by (auto simp: forget_def)
  then have "kill_step lib x e uid (Forget ks) (view n S3) = ((view n S3)\<lparr>st_redis := r4\<rparr>,
      Inl (with_json 200 (Object [(''sessions'', Number (int (length ks)))])))" by simp
  then obtain S4 where S4: "fleet_step L lib x S3 S4" "shared S4 = r4" "answered S4 d = Some 200" "calls S4 d = None"
    by (rule kill_ends [where d = d and L = L, rotated]) (use S3 in \<open>simp_all add: with_json_def\<close>)
  show ?thesis
  proof (rule that)
    show "(fleet_step L lib x)\<^sup>*\<^sup>* S S4"
      by (rule runs_on [OF S1(1) runs_on [OF S2(1) runs_on [OF S3(1) r_into_rtranclp [of "fleet_step L lib x", OF S4(1)]]]])
    show "answered S4 d = Some 200" "calls S4 d = None" by (rule S4(3,4))+
    show "members (index_key ?sub) (shared S4) = []"
      using forget_frame(3) [OF r4, of ?sub] assms(5) S4(2) by simp
    fix k assume k: "k \<in> set (present (shared S))" "session_name k" "k \<notin> set ks"
    then have "k \<in> set (present r1)" using drop_sessions_members(4) [OF r1 assms(2)] by simp
    then have "k \<in> set (present r2)" using publish_frame(2) [OF r2] S1(2) by simp
    then show "k \<in> set (present (shared S4))"
      using forget_frame(5) [OF r4] session_name_not_index [OF k(2)] S3(2) S4(2) by metis
  qed
qed

text \<open>A miss that has its session verified and is about to index it.\<close>

lemma miss_verified:
  fixes S :: fleet and w :: env
  assumes "fresh_call c S" "k \<in> set (present (shared S))" "session_of L cookie = Some k"
    and "authenticate w cookie = Verified i set_cookie" "alone w"
  obtains S' where "(fleet_step L lib x)\<^sup>*\<^sup>* S S'" "shared S' = shared S" "answered S' = answered S"
    "calls S' = (calls S)(c \<mapsto> Missing n cookie request (To_record i set_cookie k))"
proof -
  let ?S1 = "S\<lparr>calls := (calls S)(c \<mapsto> Missing n cookie request Ask)\<rparr>"
  have "fleet_step L lib x S ?S1" using assms(1) by (rule fleet_step.miss_starts)
  moreover have "miss_step L w cookie request Ask (state.truncate (view n ?S1)) =
      (state.truncate (view n ?S1), Inr (To_record i set_cookie k))" by (simp add: assms(3,4))
  then obtain S2 where "fleet_step L lib x ?S1 S2" "shared S2 = shared S"
      "calls S2 = (calls ?S1)(c \<mapsto> Missing n cookie request (To_record i set_cookie k))" "answered S2 = answered S"
    by (rule miss_goes [where c = c and x = x and lib = lib, rotated 3]) (use assms in \<open>simp_all add: vouched_def state.defs\<close>)
  ultimately show ?thesis using that [OF runs_on [OF _ r_into_rtranclp]] by simp
qed

section \<open>A session that is gone stays gone\<close>

definition no_return :: "fleet \<Rightarrow> fleet \<Rightarrow> bool" where
  "no_return S S' \<longleftrightarrow> used S \<subseteq> used S' \<and> set (present (shared S')) \<inter> used S \<subseteq> set (present (shared S))"

lemma no_return_shrinks:
  "set (present (shared S')) \<subseteq> set (present (shared S)) \<Longrightarrow> used S' = used S \<Longrightarrow> no_return S S'"
  by (auto simp: no_return_def)

lemma miss_shrinks:
  assumes "miss_step L d cookie request ph (state.truncate (view n S)) = (st, r)" "alone d"
  shows "set (present (st_redis st)) \<subseteq> set (present (shared S))"
  using steadyD(1) [OF conjunct1 [OF miss_effect [OF assms]]] by (simp add: state.defs)

lemma kill_shrinks:
  assumes "kill_step lib x e uid ph (view n S) = (s, r)"
  shows "set (present (st_redis s)) \<subseteq> set (present (shared S))"
  using steadyD(1) [OF conjunct1 [OF kill_effect [OF assms]]] by simp

lemma step_no_return: "fleet_step L lib x S S' \<Longrightarrow> no_return S S'"
proof (induction rule: fleet_step.induct)
  case (login k S)
  then show ?case by (auto simp: no_return_def)
next
  case (misses S c n cookie request ph d st r)
  show ?case using miss_shrinks [OF misses(4,2)] by (intro no_return_shrinks) (simp_all add: put_state_def)
next
  case (kills S c n uid ph e s r)
  show ?case using kill_shrinks [OF kills(2)] by (intro no_return_shrinks) simp_all
next
  case (leave_starts c S hs ok n s r)
  have "set (present (st_redis s)) \<subseteq> set (present (shared S))"
    using indexed_effect [OF leave_starts(3)] steadyD(1) by (fastforce simp: harmless_def)
  then show ?case by (intro no_return_shrinks) (simp_all split: option.split)
next
  case (leaves S c n hs ph e s r)
  show ?case using leave_effect [OF leaves(3)] steadyD(1) by (intro no_return_shrinks) fastforce+
next
  case (hits now request n S v d st r)
  show ?case
    using hits_effect [OF hits(2,3)] steadyD(1) by (intro no_return_shrinks) (fastforce simp: harmless_def)+
next
  case (serves out call S n s r)
  show ?case
    using serve_effect [OF serves(4,2)] steadyD(1) by (intro no_return_shrinks) (fastforce simp: harmless_def)+
qed (auto simp: no_return_def redis_simps)

text \<open>How far a kill that has read \<open>ks\<close> has come.\<close>

definition kill_under_way :: "nat \<Rightarrow> uuid \<Rightarrow> string list \<Rightarrow> nat \<Rightarrow> fleet \<Rightarrow> bool" where
  "kill_under_way n uid ks d S \<longleftrightarrow>
     (\<exists>ph. calls S d = Some (Killing n uid ph) \<and> (ph = Delete ks \<or> cut_keys ph = Some ks))
     \<or> calls S d = None \<and> answered S d \<noteq> None
       \<and> (answered S d = Some 200 \<longrightarrow> set ks \<subseteq> used S \<and> set ks \<inter> set (present (shared S)) = {})"

text \<open>A step of anything else.\<close>

lemma under_way_frame:
  assumes "kill_under_way n uid ks d S" "no_return S S'" "calls S' d = calls S d" "answered S' d = answered S d"
  shows "kill_under_way n uid ks d S'"
  using assms unfolding kill_under_way_def no_return_def by (elim disjE) (simp_all, blast)

text \<open>The kill's own step.\<close>

lemma under_way_kills:
  assumes "kill_under_way n uid ks d S" "fleet_ok S" "calls S d = Some (Killing m u ph)"
    and "kill_step lib x e u ph (view m S) = (s, r)"
  shows "kill_under_way n uid ks d (with_call d (map_sum status (Killing m u) r) (settle m s S))"
proof -
  have ph: "m = n" "u = uid" "ph = Delete ks \<or> cut_keys ph = Some ks"
    using assms(1,3) by (auto simp: kill_under_way_def)
  show ?thesis
  proof (cases r)
    case (Inr ph')
    then have "cut_keys ph' = Some ks"
      using assms(4) ph(3) by (cases ph) (auto simp: Let_def split: prod.splits sum.splits if_splits)
    then show ?thesis using Inr ph by (simp add: kill_under_way_def)
  next
    case (Inl reply)
    then have "status reply = 200 \<Longrightarrow> cut_keys ph = Some ks"
      using assms(4) ph(3) by (auto simp: step_failed_def with_json_def split: prod.splits sum.splits)
    then have "status reply = 200 \<Longrightarrow> set ks \<subseteq> used S \<and> set ks \<inter> set (present (shared S)) = {}"
      using fleet_okD(4,5) [OF assms(2,3)] by (cases ph) auto
    then show ?thesis
      using Inl kill_shrinks [OF assms(4)] by (auto simp: kill_under_way_def)
  qed
qed

lemma under_way_not_fresh: "kill_under_way n uid ks d S \<Longrightarrow> fresh_call c S \<Longrightarrow> c \<noteq> d"
  by (auto simp: kill_under_way_def fresh_call_def)

lemma under_way_step:
  assumes "fleet_step L lib x S S'" "fleet_ok S" "kill_under_way n uid ks d S"
  shows "kill_under_way n uid ks d S'"
  using assms(1) step_no_return [OF assms(1)] assms(2,3)
proof (induction rule: fleet_step.induct)
  case (misses S c m cookie request ph w st r)
  then have "c \<noteq> d" by (auto simp: kill_under_way_def)
  then show ?case by (intro under_way_frame [OF misses(7,5)]) (simp_all split: sum.split)
next
  case (miss_starts c S m cookie request)
  then show ?case using under_way_not_fresh [OF miss_starts(4,1)] by (intro under_way_frame [OF miss_starts(4,2)]) simp_all
next
  case (kill_starts c S m u)
  then show ?case using under_way_not_fresh [OF kill_starts(4,1)] by (intro under_way_frame [OF kill_starts(4,2)]) simp_all
next
  case (kills S c m u ph e s r)
  show ?case
  proof (cases "c = d")
    case True
    with kills under_way_kills show ?thesis by blast
  next
    case False
    then show ?thesis by (intro under_way_frame [OF kills(5,3)]) (simp_all split: sum.split)
  qed
next
  case (leave_starts c S hs ok m s r)
  then have "c \<noteq> d" using under_way_not_fresh by blast
  then show ?case by (intro under_way_frame [OF leave_starts(6,4)]) (simp_all split: option.split)
next
  case (leaves S c m hs ph e s r)
  then have "c \<noteq> d" by (auto simp: kill_under_way_def)
  then show ?case by (intro under_way_frame [OF leaves(6,4)]) (simp_all split: sum.split)
next
  case (restarts S m a)
  show ?case
  proof (cases "cut_off m d S")
    case True
    then show ?thesis by (simp add: kill_under_way_def restart_def)
  next
    case False
    then show ?thesis by (intro under_way_frame [OF restarts(3,1)]) (simp_all add: restart_def)
  qed
qed (auto elim!: under_way_frame)

lemma under_way_run:
  "(fleet_step L lib x)\<^sup>*\<^sup>* S S' \<Longrightarrow> fleet_ok S \<Longrightarrow> kill_under_way n uid ks d S \<Longrightarrow> kill_under_way n uid ks d S'"
  by (induction rule: rtranclp_induct) (auto intro: under_way_step fleet_ok_run)

section \<open>Properties\<close>




text \<open>C22: the order of the kill switch's steps leaves a wider gap than the one its comment names. A user
  whose session is live and not yet indexed makes a first request while an admin kills them: the
  index is read, then the request records the session, then the kill deletes what it had read and
  forgets the index. It answers 200, yet the session is still in Redis and in no index, so neither
  this kill nor a second one can find it.\<close>

theorem kill_can_miss_a_session:
  fixes e :: kill_env and w :: env and S :: fleet
  assumes "fresh_call c S" "fresh_call d S" "c \<noteq> d"
    and "k \<in> set (present (shared S))" "members (index_key (show_uuid lib uid)) (shared S) = []"
    and "session_of L cookie = Some k" "authenticate w cookie = Verified i set_cookie" "alone w"
    and "redis_ok w = (True, True)" "text_or_default (id_sub i) = show_uuid lib uid"
    and "\<forall>log. snd (logout_all lib (kill_world e) (ctx_keycloak x) uid log) = Inr ()"
    and "kill_read_ok e" "kill_del_ok e" "kill_publish_ok e" "kill_forget_ok e"
  shows "\<exists>S1 S2. (fleet_step L lib x)\<^sup>*\<^sup>* S S1 \<and> k \<in> set (members (index_key (show_uuid lib uid)) (shared S1))
    \<and> (fleet_step L lib x)\<^sup>*\<^sup>* S1 S2 \<and> answered S2 d = Some 200
    \<and> k \<in> set (present (shared S2)) \<and> members (index_key (show_uuid lib uid)) (shared S2) = []"
proof -
  let ?sub = "show_uuid lib uid"
  have name: "session_name k" using assms(6) by (auto simp: session_of_def bind_eq_Some_conv intro: session_key_name)
  obtain A1 where A1: "(fleet_step L lib x)\<^sup>*\<^sup>* S A1" "shared A1 = shared S" "answered A1 = answered S"
      "calls A1 = (calls S)(c \<mapsto> Missing n cookie request (To_record i set_cookie k))"
    using miss_verified [OF assms(1,4,6,7,8)] by blast
  let ?A2 = "A1\<lparr>calls := (calls A1)(d \<mapsto> Killing n uid Sign_out)\<rparr>"
  have A2: "fleet_step L lib x A1 ?A2"
    using assms(2,3) A1(3,4) by (intro fleet_step.kill_starts) (simp add: fresh_call_def)
  obtain log where "logout_all lib (kill_world e) (ctx_keycloak x) uid (sys_sent (view n ?A2)) = (log, Inr ())"
    using assms(11) by (metis prod.collapse)
  then have "kill_step lib x e uid Sign_out (view n ?A2) = ((view n ?A2)\<lparr>sys_sent := log\<rparr>, Inr Read_index)" by simp
  then obtain A3 where A3: "fleet_step L lib x ?A2 A3" "shared A3 = shared S"
      "calls A3 = (calls ?A2)(d \<mapsto> Killing n uid Read_index)"
    by (rule kill_goes [where d = d and L = L, rotated]) (use A1 in simp_all)
  have "kill_step lib x e uid Read_index (view n A3) = (view n A3, Inr (Delete []))"
    using assms(5,12) A3(2) by (simp add: sessions_def)
  then obtain A4 where A4: "fleet_step L lib x A3 A4" "shared A4 = shared S"
      "calls A4 = (calls A3)(d \<mapsto> Killing n uid (Delete []))"
    by (rule kill_goes [where d = d and L = L, rotated]) (use A3 in simp_all)
  obtain r where r: "record_session (True, True) ?sub k (shared S) = (r, Inr ())"
    by (simp add: record_session_def Let_def)
  then have "miss_step L w cookie request (To_record i set_cookie k) (state.truncate (view n A4)) =
      ((state.truncate (view n A4))\<lparr>st_redis := r\<rparr>, Inr (To_load i set_cookie))"
    using assms(9,10) A4(2) by (simp add: state.defs)
  then obtain A5 where A5: "fleet_step L lib x A4 A5" "shared A5 = r"
      "calls A5 = (calls A4)(c \<mapsto> Missing n cookie request (To_load i set_cookie))"
    by (rule miss_goes [where c = c and x = x and lib = lib, rotated 3]) (use assms(3,8) A1(4) A3(3) A4(3) in simp_all)
  have "k \<in> set (members (index_key ?sub) (shared A5))"
    using r A5(2) by (auto simp: record_session_def Let_def members_def)
  moreover have "(fleet_step L lib x)\<^sup>*\<^sup>* S A5"

    by (rule rtranclp_trans [OF A1(1) runs_on [OF A2 runs_on [OF A3(1) runs_on [OF A4(1) r_into_rtranclp [of "fleet_step L lib x", OF A5(1)]]]]])
  moreover have "calls A5 d = Some (Killing n uid (Delete []))" using assms(3) A4(3) A5(3) by simp
  then obtain A6 where "(fleet_step L lib x)\<^sup>*\<^sup>* A5 A6" "answered A6 d = Some 200"
      "members (index_key ?sub) (shared A6) = []" "k \<in> set (present (shared A6))"
    by (rule kill_finishes [where e = e]) (use assms(4,13-15) name A5(2) record_session_frame(2) [OF r] in auto)
  ultimately show ?thesis by blast
qed

section \<open>A concrete fleet\<close>

definition sample_fleet :: fleet where
  "sample_fleet = \<lparr>common = sample_system\<lparr>st_redis := sample_index\<lparr>present := []\<rparr>\<rparr>,
     procs = (\<lambda>n. \<lparr>p_cache = st_cache sample_state, p_metrics = new_metrics, p_link = Up, p_inbox = []\<rparr>),
     calls = [5 \<mapsto> Killing 0 7 (Announce [''_oauth2_proxy-a1'', ''_oauth2_proxy-b2''])], answered = Map.empty,
     used = {''_oauth2_proxy-a1'', ''_oauth2_proxy-b2''}, ticket = Map.empty, filler = (\<lambda>_ _. 0)\<rparr>"

lemma sample_fleet_ok: "fleet_ok sample_fleet"
proof -
  have "subscribed (st_cache sample_state)" using sample_run by (simp add: sample_state_def get_Some)
  then have "process_ok \<lparr>p_cache = st_cache sample_state, p_metrics = new_metrics, p_link = Up, p_inbox = []\<rparr>"
    by (simp add: process_ok_def sample_state_def cache_ok_run)
  then show ?thesis
    by (auto simp: fleet_ok_def sample_fleet_def sample_system_def sample_index_def members_def split: if_splits)
qed

lemma sample_owner: "owner sample_key (run_ops (\<lambda>_. 0) sample_ops (new_cache (audit_channel 4))) = Some ''u1''"
  by (simp add: owner_def sample_ops_def run_ops_def new_cache_def set_subscribed_def flush_all_def insert_cached_def
      insert_by_sub_def count_request_def shrink.simps CAPACITY_def TTL_def)


theorem kill_can_miss_a_session_witness:
  "\<exists>S1 S2. (fleet_step sample_libs sample_lib sample_ctx)\<^sup>*\<^sup>* S1 S2 \<and> answered S2 1 = Some 200
    \<and> ''_oauth2_proxy-a1'' \<in> set (members (index_key ''7'') (shared S1))
    \<and> ''_oauth2_proxy-a1'' \<in> set (present (shared S2)) \<and> members (index_key ''7'') (shared S2) = []"
proof -
  let ?S = "sample_fleet\<lparr>common := sample_system\<lparr>st_redis := sample_index\<rparr>, calls := Map.empty\<rparr>"
  have e: "kill_read_ok sample_kill_env" "kill_del_ok sample_kill_env" "kill_publish_ok sample_kill_env"
    "kill_forget_ok sample_kill_env" "kill_world sample_kill_env = sample_world"
    by (simp_all add: sample_kill_env_def)
  have u: "show_uuid sample_lib 7 = ''7''" by (simp add: sample_kc_def)
  have auth: "authenticate sample_return (Some sample_cookie) =
      Verified \<lparr>id_sub = ''7'', id_username = '''', id_email = '''', id_groups = ''''\<rparr> []"
    by (simp add: authenticate_def sample_return_def get_all_def)
  have w: "alone sample_return" "redis_ok sample_return = (True, True)"
    by (simp_all add: alone_def sample_return_def sample_env_def)
  have seven: "text_or_default ''7'' = ''7''" by (simp add: text_or_default_def to_str_def)
  have S: "fresh_call c ?S" "''_oauth2_proxy-a1'' \<in> set (present (shared ?S))"
    "members (index_key ''7'') (shared ?S) = []" for c
    by (simp_all add: fresh_call_def sample_fleet_def sample_system_def sample_index_def members_def index_key_def)
  from kill_can_miss_a_session [OF S(1) [of 0] S(1) [of 1] _ S(2) _ sample_session auth w(1,2),
      where lib = sample_lib and uid = 7 and x = sample_ctx and e = sample_kill_env]
  show ?thesis using e u seven S(3) sample_logout_all by auto
qed





end
