(* ===== verification/Heartbeat.thy ===== *)
theory Heartbeat
  imports Session
begin

text \<open>
  The subscriber of \<open>session.rs\<close> with its clock: the interval, the \<open>PING\<close> on the subscribed connection and
  its timeout, the pause before the next attempt. Without the clock it is the loop of \<open>Session\<close>; with
  it, the time a dead connection can go on being believed is bounded, and the bound is reached.
\<close>

section \<open>The loop, in time\<close>

text \<open>Nanoseconds, as for the age of a cache entry.\<close>

definition HEARTBEAT :: nat where
  "HEARTBEAT = 5 * 10 ^ 9"

definition RESUBSCRIBE :: nat where
  "RESUBSCRIBE = 10 ^ 9"

text \<open>Waiting until the next attempt; in \<open>select\<close>; in the arm of the tick, where the \<open>PING\<close> is answered by
  its deadline or the loop is left, and no message is read meanwhile.\<close>

datatype phase = Retrying nat | Reading | Pinging nat

record listener =
  clock :: nat
  beat :: nat
  phase :: phase
  heard :: cache
  dead_since :: "nat option"

definition leave_loop :: "listener \<Rightarrow> listener" where
  "leave_loop s = s\<lparr>phase := Retrying (clock s + RESUBSCRIBE), heard := set_subscribed False (heard s)\<rparr>"

text \<open>The instant no timer lets pass.\<close>

definition due :: "listener \<Rightarrow> nat option" where
  "due s = (case phase s of Retrying w \<Rightarrow> None | Reading \<Rightarrow> Some (beat s) | Pinging d \<Rightarrow> Some d)"

text \<open>
  A connection that has died delivers nothing, and no \<open>PONG\<close>. A tick missed during a \<open>PING\<close> is not lost: the
  interval goes on from when it was due.
\<close>

inductive timed_step :: "(string \<Rightarrow> 64 word) \<Rightarrow> listener \<Rightarrow> listener \<Rightarrow> bool" for hash where
  passes: "(case due s of None \<Rightarrow> True | Some d \<Rightarrow> clock s + t \<le> d) \<Longrightarrow> timed_step hash s (s\<lparr>clock := clock s + t\<rparr>)"
| connects: "phase s = Retrying w \<Longrightarrow> w \<le> clock s \<Longrightarrow>
    timed_step hash s (s\<lparr>phase := Reading, beat := clock s + HEARTBEAT, heard := set_subscribed True (heard s), dead_since := None\<rparr>)"
| fails: "phase s = Retrying w \<Longrightarrow> w \<le> clock s \<Longrightarrow> timed_step hash s (leave_loop s)"
| hears: "phase s = Reading \<Longrightarrow> dead_since s = None \<Longrightarrow> timed_step hash s (s\<lparr>heard := drop_sub sub (heard s)\<rparr>)"
| garbled: "phase s = Reading \<Longrightarrow> dead_since s = None \<Longrightarrow> timed_step hash s s"
| ends: "phase s = Reading \<Longrightarrow> timed_step hash s (leave_loop s)"
| ticks: "phase s = Reading \<Longrightarrow> beat s \<le> clock s \<Longrightarrow>
    timed_step hash s (s\<lparr>phase := Pinging (clock s + HEARTBEAT), beat := beat s + HEARTBEAT\<rparr>)"
| pongs: "phase s = Pinging d \<Longrightarrow> dead_since s = None \<Longrightarrow> timed_step hash s (s\<lparr>phase := Reading\<rparr>)"
| ping_fails: "phase s = Pinging d \<Longrightarrow> timed_step hash s (leave_loop s)"
| times_out: "phase s = Pinging d \<Longrightarrow> clock s = d \<Longrightarrow> timed_step hash s (leave_loop s)"
| dies: "dead_since s = None \<Longrightarrow> timed_step hash s (s\<lparr>dead_since := Some (clock s)\<rparr>)"
| works: "\<forall>b. op \<noteq> Set_subscribed b \<Longrightarrow> timed_step hash s (s\<lparr>heard := apply_op hash op (heard s)\<rparr>)"

definition listener_start :: "nat \<Rightarrow> audit \<Rightarrow> listener" where
  "listener_start t a = \<lparr>clock = t, beat = 0, phase = Retrying t, heard = new_cache a, dead_since = None\<rparr>"

section \<open>Without the clock\<close>

definition timeless :: "listener \<Rightarrow> subscriber \<times> cache" where
  "timeless s = (case phase s of Retrying w \<Rightarrow> Waiting | _ \<Rightarrow> Listening, heard s)"

lemma timeless_simps [simp]:
  "timeless (s\<lparr>clock := t\<rparr>) = timeless s" "timeless (s\<lparr>dead_since := x\<rparr>) = timeless s"
  "timeless (s\<lparr>beat := b\<rparr>) = timeless s"
  "timeless (leave_loop s) = (Waiting, set_subscribed False (heard s))"
  by (simp_all add: timeless_def leave_loop_def)

lemma timeless_step: "timed_step hash s s' \<Longrightarrow> (sub_step hash)\<^sup>=\<^sup>= (timeless s) (timeless s')"
proof (induction rule: timed_step.induct)
  case (works op s)
  then show ?case by (simp add: timeless_def sub_step.other_task)
qed (auto simp: timeless_def leave_loop_def sub_step.intros split: phase.splits)

lemma timeless_run: "(timed_step hash)\<^sup>*\<^sup>* s s' \<Longrightarrow> (sub_step hash)\<^sup>*\<^sup>* (timeless s) (timeless s')"
proof (induction rule: rtranclp_induct)
  case (step s' s'')
  from timeless_step [OF step.hyps(2)] step.IH show ?case by (auto intro: rtranclp.rtrancl_into_rtrancl)
qed simp

section \<open>No timer is late\<close>

definition timely :: "listener \<Rightarrow> bool" where
  "timely s \<longleftrightarrow>
     (\<forall>t. dead_since s = Some t \<longrightarrow> t \<le> clock s)
     \<and> (case phase s of
          Retrying w \<Rightarrow> True
        | Reading \<Rightarrow> clock s \<le> beat s \<and> beat s \<le> clock s + HEARTBEAT \<and> (\<forall>t. dead_since s = Some t \<longrightarrow> beat s \<le> t + HEARTBEAT)
        | Pinging d \<Rightarrow> clock s \<le> d \<and> d \<le> clock s + HEARTBEAT \<and> beat s = d \<and> (\<forall>t. dead_since s = Some t \<longrightarrow> d \<le> t + 2 * HEARTBEAT))"

lemma timely_start: "timely (listener_start t a)"
  by (simp add: timely_def listener_start_def)

lemma timely_step: "timed_step hash s s' \<Longrightarrow> timely s \<Longrightarrow> timely s'"
proof (induction rule: timed_step.induct)
  case (passes s t)
  then show ?case by (auto simp: timely_def due_def split: phase.splits)
next
  case (ticks s)
  then show ?case by (fastforce simp: timely_def)
qed (auto simp: timely_def leave_loop_def split: phase.splits)

lemma timely_run: "(timed_step hash)\<^sup>*\<^sup>* s s' \<Longrightarrow> timely s \<Longrightarrow> timely s'"
  by (induction rule: rtranclp_induct) (auto intro: timely_step)

lemma timely_dead: "timely s \<Longrightarrow> \<forall>w. phase s \<noteq> Retrying w \<Longrightarrow> dead_since s = Some t \<Longrightarrow> clock s \<le> t + 2 * HEARTBEAT"
  by (cases "phase s") (fastforce simp: timely_def)+

text \<open>Ten seconds can pass: the connection dies right after a beat.\<close>

lemma heartbeat_bound_is_reached:
  "\<exists>s. (timed_step hash)\<^sup>*\<^sup>* (listener_start t a) s \<and> subscribed (heard s)
     \<and> dead_since s = Some t \<and> clock s = t + 2 * HEARTBEAT"
proof -
  let ?s0 = "listener_start t a"
  let ?s1 = "?s0\<lparr>phase := Reading, beat := t + HEARTBEAT, heard := set_subscribed True (heard ?s0), dead_since := None\<rparr>"
  let ?s2 = "?s1\<lparr>dead_since := Some t\<rparr>"
  let ?s3 = "?s2\<lparr>clock := t + HEARTBEAT\<rparr>"
  let ?s4 = "?s3\<lparr>phase := Pinging (t + HEARTBEAT + HEARTBEAT), beat := t + HEARTBEAT + HEARTBEAT\<rparr>"
  let ?s5 = "?s4\<lparr>clock := t + HEARTBEAT + HEARTBEAT\<rparr>"
  have s0: "timed_step hash ?s0 ?s1" using timed_step.connects [of ?s0 t] by (simp add: listener_start_def)
  have s1: "timed_step hash ?s1 ?s2" using timed_step.dies [of ?s1] by (simp add: listener_start_def)
  have s2: "timed_step hash ?s2 ?s3"
    using timed_step.passes [of ?s2 HEARTBEAT] by (simp add: listener_start_def due_def)
  have s3: "timed_step hash ?s3 ?s4" using timed_step.ticks [of ?s3] by (simp add: listener_start_def)
  have s4: "timed_step hash ?s4 ?s5"
    using timed_step.passes [of ?s4 HEARTBEAT] by (simp add: listener_start_def due_def)
  note on = converse_rtranclp_into_rtranclp [of "timed_step hash"]
  have "(timed_step hash)\<^sup>*\<^sup>* ?s0 ?s5" 
    by (rule on [OF s0 on [OF s1 on [OF s2 on [OF s3 r_into_rtranclp [of "timed_step hash", OF s4]]]]])
  then show ?thesis by (intro exI [of _ ?s5]) simp
qed

section \<open>Properties\<close>

text \<open>The heartbeat bounds how long a dead connection is believed. In every state the subscriber reaches
  in time, an instance that answers from its cache is listening - the state is one of the untimed
  loop's - and if its connection has died, that was at most two heartbeats, ten seconds, ago.\<close>

theorem dead_connection_is_noticed:
  assumes "(timed_step hash)\<^sup>*\<^sup>* (listener_start t0 a) s" "get now k (heard s) = Some v"
  shows "(sub_step hash)\<^sup>*\<^sup>* (Waiting, new_cache a) (Listening, heard s)
    \<and> (\<forall>t. dead_since s = Some t \<longrightarrow> clock s \<le> t + 2 * HEARTBEAT)"
proof -
  have run: "(sub_step hash)\<^sup>*\<^sup>* (Waiting, new_cache a) (timeless s)"
    using timeless_run [OF assms(1)] by (simp add: timeless_def listener_start_def)
  have "fst (timeless s) = Listening"
    using sub_ok_run [OF run sub_ok_new] assms(2) by (auto simp: sub_ok_def get_Some timeless_def)
  then have "\<forall>w. phase s \<noteq> Retrying w" and t: "timeless s = (Listening, heard s)"
    by (auto simp: timeless_def split: phase.splits)
  then show ?thesis using timely_dead [OF timely_run [OF assms(1) timely_start]] run by simp
qed

theorem dead_connection_is_noticed_witness:
  "\<exists>s :: listener. get 6 sample_key (heard s) = Some sample_cached \<and> dead_since s = Some 4 \<and> clock s = 9 \<and> clock s \<le> 4 + 2 * HEARTBEAT"
proof -
  let ?s0 = "listener_start 4 (audit_channel 4)"
  let ?s1 = "?s0\<lparr>phase := Reading, beat := 4 + HEARTBEAT, heard := set_subscribed True (heard ?s0), dead_since := None\<rparr>"
  let ?s2 = "?s1\<lparr>heard := insert_cached 5 sample_key ''u1'' sample_cached (heard ?s1)\<rparr>"
  let ?s3 = "?s2\<lparr>dead_since := Some 4\<rparr>"
  let ?s4 = "?s3\<lparr>clock := 9\<rparr>"
  have s0: "timed_step (\<lambda>_. 0) ?s0 ?s1" using timed_step.connects [of ?s0 4] by (simp add: listener_start_def)
  have s1: "timed_step (\<lambda>_. 0) ?s1 ?s2"
    using timed_step.works [of "Insert 5 sample_key ''u1'' sample_cached" "\<lambda>_. 0" ?s1] by simp
  have s2: "timed_step (\<lambda>_. 0) ?s2 ?s3" using timed_step.dies [of ?s2] by (simp add: listener_start_def)
  have s3: "timed_step (\<lambda>_. 0) ?s3 ?s4"
    using timed_step.passes [of ?s3 5] by (simp add: listener_start_def due_def HEARTBEAT_def)
  note on = converse_rtranclp_into_rtranclp [of "timed_step (\<lambda>_. 0)"]
  have run: "(timed_step (\<lambda>_. 0))\<^sup>*\<^sup>* ?s0 ?s4" 
    by (rule on [OF s0 on [OF s1 on [OF s2 r_into_rtranclp [of "timed_step (\<lambda>_. 0)", OF s3]]]])
  have hit: "get 6 sample_key (heard ?s4) = Some sample_cached"
    by (simp add: listener_start_def new_cache_def set_subscribed_def flush_all_def insert_cached_def
        insert_by_sub_def shrink.simps CAPACITY_def TTL_def get_def evict_def)
  note bound = dead_connection_is_noticed [OF run hit, THEN conjunct2, rule_format, of 4]
  show ?thesis by (rule exI [of _ ?s4], intro conjI hit bound) simp_all
qed

end
