(* ===== verification/Startup.thy ===== *)
theory Startup
  imports Revocation Heartbeat Lifecycle
begin

text \<open>
  \<open>main.rs\<close> up to the listener: what the process reads from its environment, what it waits for and in
  which order, what makes it refuse to start, and the state it serves its first request in. The
  properties carry that state on: to everything one instance and a fleet of them can reach.
\<close>

section \<open>What the process finds\<close>

definition AUDIT_QUEUE :: nat where
  "AUDIT_QUEUE = 1024"

text \<open>
  The environment variables that are set, and the answers from outside: connecting to Postgres and
  applying the migrations, connecting to Redis, the month and the statements of the first retention
  pass with whether it was done within \<open>RETENTION_FIRST_PASS\<close>, the staging of nginx's files, the bind.
  A pass that runs out of time is dropped: the statements it has not sent count as refused.
\<close>

record launch =
  var :: "string \<Rightarrow> string option"
  pg_connect :: "string \<Rightarrow> string + unit"
  pg_migrate :: "string + unit"
  redis_connect :: "string \<Rightarrow> string + unit"
  this_month :: month
  pass_ok :: "statement \<Rightarrow> bool"
  pass_in_time :: bool
  startup_publish :: publish_env
  bind_listener :: "string + unit"

text \<open>What outlives the process.\<close>

record lasting =
  l_redis :: redis
  l_applications :: "application list"
  l_entitlements :: "entitlement list"
  l_volume :: volume
  l_audit :: audit_db

record running =
  run_ctx :: ctx
  run_proxy :: string
  run_months :: nat
  run_system :: system
  run_audit :: audit_db
  run_log :: "string list"

section \<open>Configuration\<close>

text \<open>Both give the message the process exits with.\<close>

definition required :: "launch \<Rightarrow> string \<Rightarrow> string + string" where
  "required w name = (case var w name of None \<Rightarrow> Inl (name @ '' is not set'') | Some v \<Rightarrow> Inr v)"

definition var_or :: "launch \<Rightarrow> string \<Rightarrow> string \<Rightarrow> string" where
  "var_or w name fallback = (case var w name of None \<Rightarrow> fallback | Some v \<Rightarrow> v)"

definition no_slash :: "string \<Rightarrow> string" where
  "no_slash = trim_end_on (\<lambda>c. c = CHR ''/'')"

definition configured :: "launch \<Rightarrow> string + string \<times> ctx" where
  "configured w =
     and_then (required w ''OAUTH2_PROXY_URL'') (\<lambda>upstream.
     and_then (required w ''KEYCLOAK_URL'') (\<lambda>keycloak.
     and_then (required w ''KEYCLOAK_CLIENT_SECRET'') (\<lambda>secret.
     and_then (required w ''PORTAL_ORIGIN'') (\<lambda>origin.
       Inr (no_slash upstream,
         \<lparr>ctx_keycloak = new_keycloak (no_slash keycloak) (var_or w ''KEYCLOAK_REALM'' ''openberat'')
            (var_or w ''KEYCLOAK_CLIENT_ID'' ''openberat-backend'') secret,
          admin_group = var_or w ''ADMIN_GROUP'' ''OpenBerat-Admins'',
          auditor_group = var_or w ''AUDITOR_GROUP'' ''OpenBerat-Auditors'',
          portal_origin = no_slash origin, nginx_conf_dir = var w ''NGINX_CONF_DIR''\<rparr>)))))"

section \<open>Starting\<close>

definition connect :: "launch \<Rightarrow> string \<Rightarrow> string + unit" where
  "connect w url = and_then (pg_connect w url) (\<lambda>_. pg_migrate w)"

text \<open>Up to the retention setting: the two stores and the number of months. Nothing has been deleted yet.\<close>

definition stores_ready :: "launch \<Rightarrow> string + nat" where
  "stores_ready w =
     and_then (required w ''DATABASE_URL'') (\<lambda>url.
     case connect w url of
       Inl e \<Rightarrow> Inl (''cannot connect or apply migrations, refusing to start: '' @ e)
     | Inr _ \<Rightarrow>
         and_then (required w ''REDIS_URL'') (\<lambda>url.
         case redis_connect w url of
           Inl e \<Rightarrow> Inl (''cannot reach Redis, refusing to start: '' @ e)
         | Inr _ \<Rightarrow> retention_months (var w ''AUDIT_RETENTION_MONTHS'')))"

definition first_pass :: "(month \<Rightarrow> time) \<Rightarrow> launch \<Rightarrow> nat \<Rightarrow> audit_db \<Rightarrow> audit_db \<times> string list" where
  "first_pass midnight w months db =
     (case maintain_audit midnight (pass_ok w) (this_month w) months db of
        (db, finished) \<Rightarrow>
          (db, if \<not> pass_in_time w then [''the first audit retention pass did not finish in time; serving anyway, the daily run will retry'']
               else if finished then [] else [''audit retention did not finish'']))"

text \<open>The state the tasks are spawned with: the cache is new, so no subscription is up.\<close>

definition first_state :: "lasting \<Rightarrow> system" where
  "first_state d = \<lparr>st_cache = new_cache (audit_channel AUDIT_QUEUE), st_metrics = new_metrics, st_redis = l_redis d,
     sys_applications = l_applications d, sys_entitlements = l_entitlements d, sys_sent = [], sys_volume = l_volume d\<rparr>"

definition startup :: "url_parser \<Rightarrow> (month \<Rightarrow> time) \<Rightarrow> launch \<Rightarrow> lasting \<Rightarrow> lasting \<times> (string + running)" where
  "startup parse midnight w d =
     (case stores_ready w of
        Inl why \<Rightarrow> (d, Inl why)
      | Inr months \<Rightarrow>
          (case first_pass midnight w months (l_audit d) of
             (db, log) \<Rightarrow>
               (let d = d\<lparr>l_audit := db\<rparr>
                in case configured w of
                     Inl why \<Rightarrow> (d, Inl why)
                   | Inr (upstream, x) \<Rightarrow>
                       (case publish parse x (startup_publish w) (first_state d) of
                          (s, staged) \<Rightarrow>
                            (let d = d\<lparr>l_volume := sys_volume s\<rparr>;
                                 log = log @ (case staged of
                                   Inl e \<Rightarrow> [''generating nginx configuration at startup failed: '' @ e] | Inr _ \<Rightarrow> [])
                             in case bind_listener w of
                                  Inl e \<Rightarrow> (d, Inl (''cannot listen on 0.0.0.0:8081: '' @ e))
                                | Inr _ \<Rightarrow>
                                    (d, Inr \<lparr>run_ctx = x, run_proxy = upstream, run_months = months, run_system = s,
                                       run_audit = db, run_log = log\<rparr>))))))"

text \<open>The daily task: one pass per tick, in the month it falls in, with the statements that went through; an
  error is logged and the next tick tries again.\<close>

fun daily_passes :: "(month \<Rightarrow> time) \<Rightarrow> nat \<Rightarrow> (month \<times> (statement \<Rightarrow> bool)) list \<Rightarrow> audit_db \<Rightarrow> audit_db" where
  "daily_passes midnight months [] db = db"
| "daily_passes midnight months ((m, ok) # ticks) db =
     daily_passes midnight months ticks (fst (maintain_audit midnight ok m months db))"

section \<open>Lemmas\<close>

lemma required_Inr [simp]: "required w name = Inr v \<longleftrightarrow> var w name = Some v"
  by (simp add: required_def split: option.split)

lemma configured_Inr:
  "(\<exists>c. configured w = Inr c) \<longleftrightarrow>
     list_all (\<lambda>name. var w name \<noteq> None) [''OAUTH2_PROXY_URL'', ''KEYCLOAK_URL'', ''KEYCLOAK_CLIENT_SECRET'', ''PORTAL_ORIGIN'']"
  by (auto simp: configured_def and_then_eq_Inr)

lemma stores_ready_Inr:
  "stores_ready w = Inr months \<longleftrightarrow>
     (\<exists>url. var w ''DATABASE_URL'' = Some url \<and> connect w url = Inr ())
     \<and> (\<exists>url. var w ''REDIS_URL'' = Some url \<and> redis_connect w url = Inr ())
     \<and> retention_months (var w ''AUDIT_RETENTION_MONTHS'') = Inr months"
  by (cases "var w ''DATABASE_URL''"; cases "var w ''REDIS_URL''"; cases "connect w (the (var w ''DATABASE_URL''))";
      cases "redis_connect w (the (var w ''REDIS_URL''))") (simp_all add: stores_ready_def required_def)

lemma publish_fields:
  "publish parse x p s = (s', res) \<Longrightarrow> s' = s\<lparr>sys_volume := sys_volume s'\<rparr>"
  by (auto simp: publish_def split: option.splits prod.splits)

lemma startup_cases:
  assumes "startup parse midnight w d = (d', r)"
  obtains (early) why where "stores_ready w = Inl why" "d' = d" "r = Inl why"
  | (unset) months db log why where "stores_ready w = Inr months" "first_pass midnight w months (l_audit d) = (db, log)"
      "configured w = Inl why" "d' = d\<lparr>l_audit := db\<rparr>" "r = Inl why"
  | (unbound) months db log upstream x s e where "stores_ready w = Inr months"
      "first_pass midnight w months (l_audit d) = (db, log)" "configured w = Inr (upstream, x)"
      "s = fst (publish parse x (startup_publish w) (first_state (d\<lparr>l_audit := db\<rparr>)))"
      "bind_listener w = Inl e" "d' = d\<lparr>l_audit := db, l_volume := sys_volume s\<rparr>" "\<exists>why. r = Inl why"
  | (up) months db log upstream x s run where "stores_ready w = Inr months"
      "first_pass midnight w months (l_audit d) = (db, log)" "configured w = Inr (upstream, x)"
      "s = fst (publish parse x (startup_publish w) (first_state (d\<lparr>l_audit := db\<rparr>)))"
      "bind_listener w = Inr ()" "d' = d\<lparr>l_audit := db, l_volume := sys_volume s\<rparr>" "r = Inr run"
      "run_ctx run = x" "run_proxy run = upstream" "run_months run = months" "run_system run = s" "run_audit run = db"
proof (cases "stores_ready w")
  case (Inl why)
  then show ?thesis using assms early by (simp add: startup_def)
next
  case months: (Inr months)
  obtain db log where pass: "first_pass midnight w months (l_audit d) = (db, log)" by force
  show ?thesis
  proof (cases "configured w")
    case (Inl why)
    then show ?thesis using assms months pass unset by (simp add: startup_def Let_def)
  next
    case (Inr c)
    obtain upstream x where c: "configured w = Inr (upstream, x)" using Inr by (cases c) simp
    obtain s staged where p: "publish parse x (startup_publish w) (first_state (d\<lparr>l_audit := db\<rparr>)) = (s, staged)" by force
    then show ?thesis
      using assms months pass c unbound [OF months pass c, of s] up [OF months pass c, of s]
      by (cases "bind_listener w") (auto simp: startup_def Let_def)
  qed
qed

text \<open>A served process starts as it must.\<close>

lemma first_state_simps [simp]:
  "st_cache (first_state d) = new_cache (audit_channel AUDIT_QUEUE)" "st_metrics (first_state d) = new_metrics"
  "st_redis (first_state d) = l_redis d" "sys_applications (first_state d) = l_applications d"
  "sys_entitlements (first_state d) = l_entitlements d"
  by (simp_all add: first_state_def)

lemma published_state:
  assumes "s = fst (publish parse x p (first_state d))"
  shows "st_cache s = new_cache (audit_channel AUDIT_QUEUE)" "st_metrics s = new_metrics" "st_redis s = l_redis d"
    "sys_applications s = l_applications d" "sys_entitlements s = l_entitlements d"
proof -
  have s: "s = (first_state d)\<lparr>sys_volume := sys_volume s\<rparr>"
    using publish_fields [OF surjective_pairing] assms by blast
  show "st_cache s = new_cache (audit_channel AUDIT_QUEUE)" "st_metrics s = new_metrics" "st_redis s = l_redis d"
    "sys_applications s = l_applications d" "sys_entitlements s = l_entitlements d"
    by (subst s; simp)+
qed

lemma server_ok_started:
  assumes "startup parse midnight w d = (d', Inr run)"
    and "index_ok (l_redis d)" "tables_ok parse (portal_origin (run_ctx run)) (l_applications d) (l_entitlements d)"
  shows "server_ok parse (run_ctx run) (run_system run)"
  using assms(1)
proof (cases rule: startup_cases)
  case (up months db log upstream x s run')
  note st = published_state [OF up(4)]
  have "run_system run = s" using up by simp
  then show ?thesis
    using assms(2,3) st by (simp add: server_ok_def cache_ok_new entries_all_def metrics_ok_new) (simp add: new_cache_def)
qed simp_all

lemma first_cache_empty: "get now k (new_cache a) = None"
  by (simp add: get_def new_cache_def)

text \<open>What a process needs to come up, apart from the order it looks for it in.\<close>

definition launchable :: "launch \<Rightarrow> bool" where
  "launchable w \<longleftrightarrow>
     list_all (\<lambda>name. var w name \<noteq> None) [''DATABASE_URL'', ''REDIS_URL'', ''OAUTH2_PROXY_URL'', ''KEYCLOAK_URL'',
       ''KEYCLOAK_CLIENT_SECRET'', ''PORTAL_ORIGIN'']
     \<and> pg_connect w (the (var w ''DATABASE_URL'')) = Inr () \<and> pg_migrate w = Inr ()
     \<and> redis_connect w (the (var w ''REDIS_URL'')) = Inr ()
     \<and> (\<exists>months. retention_months (var w ''AUDIT_RETENTION_MONTHS'') = Inr months)
     \<and> bind_listener w = Inr ()"

lemma launchable_alt:
  "launchable w \<longleftrightarrow> (\<exists>months. stores_ready w = Inr months) \<and> (\<exists>c. configured w = Inr c) \<and> bind_listener w = Inr ()"
  unfolding configured_Inr by (auto simp: launchable_def stores_ready_Inr connect_def and_then_eq_Inr)

lemma launchable_starts: "launchable w \<longleftrightarrow> (\<exists>run. snd (startup parse midnight w d) = Inr run)"
proof -
  obtain d' r where s: "startup parse midnight w d = (d', r)" by force
  then have "launchable w \<longleftrightarrow> (\<exists>run. r = Inr run)"
    by (cases rule: startup_cases) (auto simp: launchable_alt)
  then show ?thesis by (simp add: s)
qed

lemma no_slash_end: "\<not> suffix ''/'' (no_slash s)"
proof
  assume "suffix ''/'' (no_slash s)"
  then obtain zs where "rev (dropWhile (\<lambda>c. c = CHR ''/'') (rev s)) = zs @ ''/''"
    by (auto simp: no_slash_def trim_end_on_def suffix_def)
  then have "dropWhile (\<lambda>c. c = CHR ''/'') (rev s) = CHR ''/'' # rev zs" by (metis rev.simps(2) rev_rev_ident rev_append append_Cons append_Nil)
  then show False using hd_dropWhile [of "\<lambda>c. c = CHR ''/''" "rev s"] by simp
qed

lemma configured_trims:
  assumes "configured w = Inr (upstream, x)"
  shows "\<not> suffix ''/'' upstream" "\<not> suffix ''/'' (portal_origin x)" "\<not> suffix ''/'' (base (ctx_keycloak x))"
  using assms by (auto simp: configured_def and_then_eq_Inr new_keycloak_def no_slash_end simp flip: no_slash_def)

text \<open>Retention over the life of a process.\<close>

lemma one_pass_keeps:
  assumes "mono midnight" "audit_db_ok midnight db" "int months \<le> m" "m < 119999" "m \<le> now"
  shows "filter (\<lambda>ts. midnight (now - int months) \<le> ts) (audit_rows (fst (maintain_audit midnight ok m months db))) =
      filter (\<lambda>ts. midnight (now - int months) \<le> ts) (audit_rows db)"
    "audit_db_ok midnight (fst (maintain_audit midnight ok m months db))"
proof -
  note pass = maintain_audit_retains [OF assms(1-4) surjective_pairing, of ok]
  have edge: "midnight (m - int months) \<le> midnight (now - int months)" using assms(1,5) by (simp add: monoD)
  have narrow: "filter (\<lambda>ts. midnight (now - int months) \<le> ts) xs =
      filter (\<lambda>ts. midnight (now - int months) \<le> ts) (filter (\<lambda>ts. midnight (m - int months) \<le> ts) xs)" for xs
    using edge by (auto intro!: filter_cong simp: filter_filter)
  show "filter (\<lambda>ts. midnight (now - int months) \<le> ts) (audit_rows (fst (maintain_audit midnight ok m months db))) =
      filter (\<lambda>ts. midnight (now - int months) \<le> ts) (audit_rows db)"
    using pass(1) by (subst (1 2) narrow) simp
  show "audit_db_ok midnight (fst (maintain_audit midnight ok m months db))" by (rule pass(2))
qed

lemma daily_passes_keep:
  assumes "mono midnight" "audit_db_ok midnight db"
    and "\<forall>t\<in>set ticks. int months \<le> fst t \<and> fst t < 119999 \<and> fst t \<le> now"
  shows "filter (\<lambda>ts. midnight (now - int months) \<le> ts) (audit_rows (daily_passes midnight months ticks db)) =
    filter (\<lambda>ts. midnight (now - int months) \<le> ts) (audit_rows db)"
  using assms(2,3)
proof (induction ticks arbitrary: db)
  case (Cons t ticks)
  obtain m ok where t: "t = (m, ok)" by force
  have m: "int months \<le> m" "m < 119999" "m \<le> now" using Cons.prems(2) by (simp_all add: t)
  note one = one_pass_keeps [OF assms(1) Cons.prems(1) m, of ok]
  show ?case using Cons.IH [OF one(2)] Cons.prems(2) one(1) by (simp add: t)
qed simp

section \<open>Every instance just started\<close>

definition started_process :: "running \<Rightarrow> process" where
  "started_process run = \<lparr>p_cache = st_cache (run_system run), p_metrics = st_metrics (run_system run),
     p_link = Down, p_inbox = []\<rparr>"

definition started_fleet :: "(nat \<Rightarrow> running) \<Rightarrow> system \<Rightarrow> string set \<Rightarrow> fleet" where
  "started_fleet runs s ks = \<lparr>common = s, procs = (\<lambda>n. started_process (runs n)), calls = Map.empty,
     answered = Map.empty, used = ks, ticket = Map.empty, filler = (\<lambda>_ _. 0)\<rparr>"

lemma started_process_new:
  assumes "snd (startup parse midnight w d) = Inr run"
  shows "started_process run = new_process (audit_channel AUDIT_QUEUE)"
proof -
  obtain d' where "startup parse midnight w d = (d', Inr run)" using assms by (metis prod.collapse)
  then show ?thesis
  proof (cases rule: startup_cases)
    case (up months db log upstream x s run')
    then have "run_system run = s" by simp
    then show ?thesis using published_state [OF up(4)] by (simp add: started_process_def new_process_def)
  qed simp_all
qed

lemma started_fleet_ok:
  assumes "\<And>n. \<exists>w d. snd (startup parse midnight w d) = Inr (runs n)"
    and "set (present (st_redis s)) \<subseteq> ks" "\<And>sub. set (members (index_key sub) (st_redis s)) \<subseteq> ks"
  shows "fleet_ok (started_fleet runs s ks)"
proof -
  have "started_process (runs n) = new_process (audit_channel AUDIT_QUEUE)" for n
    using assms(1) [of n] started_process_new by blast
  then show ?thesis using assms(2,3) by (simp add: fleet_ok_def started_fleet_def)
qed

section \<open>Properties\<close>

text \<open>C24: a process comes up exactly when its six required settings are there, both stores answer and are
  migrated, the retention setting is a positive number or absent, and the port is free; whatever else
  goes wrong - the first retention pass, staging nginx's files - it serves. Up or refused, Redis and the
  tables are as they were, and a process stopped before its retention is known has deleted nothing.
  One that came up keeps at least a month, compares origins with no trailing slash, and answers no
  request from its cache yet.\<close>

theorem startup_refuses_or_serves:
  assumes "startup parse midnight w d = (d', r)"
  shows "((\<exists>run. r = Inr run) \<longleftrightarrow> launchable w)
    \<and> l_redis d' = l_redis d \<and> l_applications d' = l_applications d \<and> l_entitlements d' = l_entitlements d
    \<and> ((\<exists>why. stores_ready w = Inl why) \<longrightarrow> d' = d)
    \<and> (case r of Inl why \<Rightarrow> True
       | Inr run \<Rightarrow> 0 < run_months run \<and> \<not> suffix ''/'' (run_proxy run) \<and> \<not> suffix ''/'' (portal_origin (run_ctx run))
           \<and> (\<forall>now k. get now k (st_cache (run_system run)) = None))"
  using assms
proof (cases rule: startup_cases)
  case (up months db log upstream x s run)
  have "0 < months" using up(1) retention_months_positive by (auto simp: stores_ready_Inr)
  then show ?thesis
    using up configured_trims [OF up(3)] published_state(1) [OF up(4)] launchable_alt [of w] by (simp add: first_cache_empty)
qed (use launchable_alt [of w] in auto)

definition sample_launch :: launch where
  "sample_launch = \<lparr>var = (\<lambda>name. if name \<in> set [''DATABASE_URL'', ''REDIS_URL'', ''OAUTH2_PROXY_URL'', ''KEYCLOAK_URL'',
       ''KEYCLOAK_CLIENT_SECRET'', ''PORTAL_ORIGIN''] then Some ''https://portal/'' else None),
     pg_connect = (\<lambda>_. Inr ()), pg_migrate = Inr (), redis_connect = (\<lambda>_. Inr ()), this_month = 6,
     pass_ok = (\<lambda>_. True), pass_in_time = True, startup_publish = sample_publish, bind_listener = Inr ()\<rparr>"

definition sample_lasting :: lasting where
  "sample_lasting = \<lparr>l_redis = sample_index, l_applications = [], l_entitlements = [], l_volume = Map.empty, l_audit = sample_db\<rparr>"

lemma sample_launchable: "launchable sample_launch"
  by (simp add: launchable_def sample_launch_def retention_months_def)

theorem startup_refuses_or_serves_witness:
  "\<exists>run. snd (startup sample_parser (\<lambda>m. 10 * m) sample_launch sample_lasting) = Inr run \<and> 0 < run_months run"
proof -
  let ?s = "startup sample_parser (\<lambda>m. 10 * m) sample_launch sample_lasting"
  note start = startup_refuses_or_serves [of sample_parser "\<lambda>m. 10 * m" sample_launch sample_lasting "fst ?s" "snd ?s"]
  then obtain run where "snd ?s = Inr run" using sample_launchable by auto
  then show ?thesis using start [OF prod.collapse [symmetric]] by auto
qed

text \<open>C10: what an instance starts with stays well formed: from a Redis whose index holds session names and
  tables the validation could have written, whatever calls are served and whatever the background tasks
  do in between, the cache's structures agree and every entry is its owner's, the index holds session
  names only, the counters have all their rows, and both tables keep their constraints.\<close>

theorem started_server_stays_well_formed:
  assumes "startup parse midnight w d = (d', Inr run)"
    and "index_ok (l_redis d)" "tables_ok parse (portal_origin (run_ctx run)) (l_applications d) (l_entitlements d)"
    and "(server_step L parse (run_ctx run))\<^sup>*\<^sup>* (run_system run) s"
  shows "cache_ok (st_cache s) \<and> entries_all attributed (st_cache s) \<and> index_ok (st_redis s) \<and> metrics_ok (st_metrics s)
    \<and> tables_ok parse (portal_origin (run_ctx run)) (sys_applications s) (sys_entitlements s)"
  using server_stays_well_formed [OF assms(4) server_ok_started [OF assms(1-3)]] by (simp add: server_ok_def)



theorem started_server_stays_well_formed_witness:
  "\<exists>run s. snd (startup sample_parser (\<lambda>m. 10 * m) sample_launch sample_lasting) = Inr run
     \<and> s = (run_system run)\<lparr>st_cache := flush_all (st_cache (run_system run))\<rparr> \<and> cache_ok (st_cache s)"
proof -
  obtain d' run where run: "startup sample_parser (\<lambda>m. 10 * m) sample_launch sample_lasting = (d', Inr run)"
    using sample_launchable launchable_starts [of sample_launch sample_parser "\<lambda>m. 10 * m" sample_lasting]
    by (metis prod.collapse)
  let ?s = "(run_system run)\<lparr>st_cache := flush_all (st_cache (run_system run))\<rparr>"
  have "server_step sample_libs sample_parser (run_ctx run) (run_system run) ?s"
    using server_step.cache_task [of Flush_all sample_libs sample_parser "run_ctx run" "run_system run"] by simp
  from started_server_stays_well_formed [OF run _ _ r_into_rtranclp [of "server_step _ _ _", OF this]]
  have "cache_ok (st_cache ?s)"
    by (simp add: sample_lasting_def sample_index_ok tables_ok_def)
  then show ?thesis using run by auto
qed


text \<open>C23: an instance never shortens the audit record below the months it was configured to keep: whatever
  statements of the first pass and of the daily ones fail, and even when the first is cut off, every
  row no older than the edge of the last month a pass ran in is still there.\<close>

theorem audit_record_outlives_the_process:
  assumes "mono midnight" "audit_db_ok midnight (l_audit d)" "startup parse midnight w d = (d', Inr run)"
    and "\<forall>t\<in>set ((this_month w, pass_ok w) # ticks). int (run_months run) \<le> fst t \<and> fst t < 119999 \<and> fst t \<le> now"
    and "edge = midnight (now - int (run_months run))"
  shows "filter (\<lambda>ts. edge \<le> ts) (audit_rows (daily_passes midnight (run_months run) ticks (l_audit d'))) =
    filter (\<lambda>ts. edge \<le> ts) (audit_rows (l_audit d))"
  using assms(3)
proof (cases rule: startup_cases)
  case (up months db log upstream x s run')
  then have d': "l_audit d' = fst (maintain_audit midnight (pass_ok w) (this_month w) (run_months run) (l_audit d))"
    by (simp add: first_pass_def split: prod.splits)
  have m: "int (run_months run) \<le> this_month w" "this_month w < 119999" "this_month w \<le> now" using assms(4) by simp_all
  note first = one_pass_keeps [OF assms(1,2) m, of "pass_ok w"]
  show ?thesis using daily_passes_keep [OF assms(1) first(2), of ticks "run_months run" now] first(1) assms(4,5) d' by simp
qed simp_all

theorem audit_record_outlives_the_process_witness:
  "\<exists>run d'. startup sample_parser (\<lambda>m. 10 * m) (sample_launch\<lparr>this_month := 12\<rparr>) (sample_lasting\<lparr>l_audit := sample_db\<rparr>) = (d', Inr run)
     \<and> filter (\<lambda>ts. 10 \<le> ts) (audit_rows (daily_passes (\<lambda>m. 10 * m) 12 [(12, \<lambda>_. False), (13, \<lambda>_. True)] (l_audit d'))) = [35, 51, 12, 57]"
proof -
  let ?w = "sample_launch\<lparr>this_month := 12\<rparr>" and ?d = "sample_lasting\<lparr>l_audit := sample_db\<rparr>"
  have ok: "audit_db_ok (\<lambda>m. 10 * m) (l_audit ?d)"
    unfolding audit_db_ok_def sample_db_def by (auto intro: exI [of _ 3] exI [of _ 5])
  have "launchable ?w" by (simp add: launchable_def sample_launch_def retention_months_def)
  then obtain d' run where run: "startup sample_parser (\<lambda>m. 10 * m) ?w ?d = (d', Inr run)"
    using launchable_starts [of ?w sample_parser "\<lambda>m. 10 * m" ?d] by (metis prod.collapse)
  have months: "run_months run = 12"
    using run by (cases rule: startup_cases)
      (auto simp: stores_ready_Inr sample_launch_def retention_months_def RETENTION_MONTHS_def)
  from audit_record_outlives_the_process [OF _ ok run, of "[(12, \<lambda>_. False), (13, \<lambda>_. True)]" 13 10]
  have "filter (\<lambda>ts. 10 \<le> ts) (audit_rows (daily_passes (\<lambda>m. 10 * m) 12 [(12, \<lambda>_. False), (13, \<lambda>_. True)] (l_audit d'))) =
      filter (\<lambda>ts. 10 \<le> ts) (audit_rows sample_db)"
    by (simp add: months mono_def sample_launch_def)
  also have "\<dots> = [35, 51, 12, 57]" by (simp add: sample_db_def audit_rows_def)
  finally show ?thesis using run by blast
qed

end
