(* ===== verification/Publishing.thy ===== *)
theory Publishing
  imports Store
begin

text \<open>
  Publishes that overlap (\<open>nginx.rs\<close>): every management call on an application publishes, and so does
  every instance when it starts, all into the same files of one volume and with nothing that keeps
  them apart. Here the volume has inodes, a write is an open that truncates followed by writes of any
  sizes, and the publishes interleave at every call. Alone, a publish is \<open>publish_conf\<close> of \<open>Nginx\<close>; two of
  them can show the reloader half a file, and can leave the older table staged.
\<close>

section \<open>The volume\<close>

record disk =
  names :: "string \<rightharpoonup> nat"
  data :: "nat \<Rightarrow> string"
  next_inode :: nat

definition contents :: "disk \<Rightarrow> volume" where
  "contents fs p = map_option (data fs) (names fs p)"

text \<open>\<open>File::create\<close>, a \<open>write\<close> at the descriptor's own offset, \<open>rename\<close>.\<close>

definition open_truncated :: "string \<Rightarrow> disk \<Rightarrow> disk \<times> nat" where
  "open_truncated p fs =
     (case names fs p of
        Some i \<Rightarrow> (fs\<lparr>data := (data fs)(i := '''')\<rparr>, i)
      | None \<Rightarrow>
          (let i = next_inode fs
           in (fs\<lparr>names := (names fs)(p \<mapsto> i), data := (data fs)(i := ''''), next_inode := i + 1\<rparr>, i)))"

definition overwrite :: "nat \<Rightarrow> string \<Rightarrow> string \<Rightarrow> string" where
  "overwrite off chunk s =
     take off (s @ replicate (off - length s) (CHR 0x00)) @ chunk @ drop (off + length chunk) s"

definition write_at :: "nat \<Rightarrow> nat \<Rightarrow> string \<Rightarrow> disk \<Rightarrow> disk" where
  "write_at i off chunk fs = fs\<lparr>data := (data fs)(i := overwrite off chunk (data fs i))\<rparr>"

definition rename_file :: "string \<Rightarrow> string \<Rightarrow> disk \<Rightarrow> disk option" where
  "rename_file p q fs =
     (case names fs p of
        None \<Rightarrow> None
      | Some i \<Rightarrow> Some (fs\<lparr>names := (names fs)(p := None, q \<mapsto> i)\<rparr>))"

section \<open>A publish, call by call\<close>

text \<open>Files still to stage are pairs of a name and a body; what is being written is an inode, the offset
  reached and the rest of the body.\<close>

datatype job =
    Querying
  | Opening string string "(string \<times> string) list"
  | Writing nat nat string string "(string \<times> string) list"
  | Renaming string "(string \<times> string) list"
  | Finished "string + unit"

datatype io = Fails string | Does nat

definition writing_path :: "string \<Rightarrow> string \<Rightarrow> string" where
  "writing_path dir name = path_join dir (name @ ''.writing'')"

definition staged_path :: "string \<Rightarrow> string \<Rightarrow> string" where
  "staged_path dir name = path_join dir (name @ ''.staged'')"

definition next_file :: "(string \<times> string) list \<Rightarrow> job" where
  "next_file rest = (case rest of [] \<Rightarrow> Finished (Inr ()) | (name, body) # rest \<Rightarrow> Opening name body rest)"

definition bodies :: "url_parser \<Rightarrow> string \<Rightarrow> application list \<Rightarrow> (string \<times> string) list" where
  "bodies parse origin as =
     [(''apps.conf'', render_apps_conf parse as origin), (''breakglass.apps'', render_breakglass_conf parse as origin)]"

text \<open>\<open>Does n\<close> writes \<open>n\<close> bytes more than one, or what is left; a rename whose file is gone is an error.\<close>

fun job_step ::
  "url_parser \<Rightarrow> string \<Rightarrow> string \<Rightarrow> io \<Rightarrow> application list \<Rightarrow> job \<Rightarrow> disk \<Rightarrow> disk \<times> job" where
  "job_step parse origin dir (Fails e) as Querying fs = (fs, Finished (Inl (''reading applications: '' @ e)))"
| "job_step parse origin dir (Does n) as Querying fs = (fs, next_file (bodies parse origin as))"
| "job_step parse origin dir (Fails e) as (Opening name body rest) fs =
     (fs, Finished (Inl (''writing '' @ writing_path dir name @ '': '' @ e)))"
| "job_step parse origin dir (Does n) as (Opening name body rest) fs =
     (case open_truncated (writing_path dir name) fs of
        (fs, i) \<Rightarrow> (fs, if body = '''' then Renaming name rest else Writing i 0 body name rest))"
| "job_step parse origin dir (Fails e) as (Writing i off body name rest) fs =
     (fs, Finished (Inl (''writing '' @ writing_path dir name @ '': '' @ e)))"
| "job_step parse origin dir (Does n) as (Writing i off body name rest) fs =
     (let chunk = take (Suc n) body; left = drop (Suc n) body
      in (write_at i off chunk fs,
          if left = '''' then Renaming name rest else Writing i (off + length chunk) left name rest))"
| "job_step parse origin dir (Fails e) as (Renaming name rest) fs =
     (fs, Finished (Inl (''staging '' @ staged_path dir name @ '': '' @ e)))"
| "job_step parse origin dir (Does n) as (Renaming name rest) fs =
     (case rename_file (writing_path dir name) (staged_path dir name) fs of
        None \<Rightarrow> (fs, Finished (Inl (''staging '' @ staged_path dir name @ '': No such file or directory (os error 2)'')))
      | Some fs \<Rightarrow> (fs, next_file rest))"
| "job_step parse origin dir _ as (Finished r) fs = (fs, Finished r)"

text \<open>The table as \<open>order by slug\<close> returns it, the volume and the publishes under way. The query gives the rows of
  that moment.\<close>

record publishing =
  table :: "application list"
  files :: disk
  jobs :: "nat \<Rightarrow> job option"

inductive publish_step :: "url_parser \<Rightarrow> string \<Rightarrow> string \<Rightarrow> publishing \<Rightarrow> publishing \<Rightarrow> bool" for parse origin dir where
  changes: "publish_step parse origin dir W (W\<lparr>table := as\<rparr>)"
| begins: "jobs W c = None \<Longrightarrow> publish_step parse origin dir W (W\<lparr>jobs := (jobs W)(c \<mapsto> Querying)\<rparr>)"
| runs: "jobs W c = Some j \<Longrightarrow> job_step parse origin dir io (table W) j (files W) = (fs, j') \<Longrightarrow>
    publish_step parse origin dir W (W\<lparr>files := fs, jobs := (jobs W)(c \<mapsto> j')\<rparr>)"


section \<open>The volume, by path\<close>

definition disk_ok :: "disk \<Rightarrow> bool" where
  "disk_ok fs \<longleftrightarrow>
     (\<forall>p q i. names fs p = Some i \<and> names fs q = Some i \<longrightarrow> p = q) \<and> (\<forall>p i. names fs p = Some i \<longrightarrow> i < next_inode fs)"

lemma disk_okD:
  assumes "disk_ok fs"
  shows "names fs p = Some i \<Longrightarrow> names fs q = Some i \<Longrightarrow> p = q" "names fs p = Some i \<Longrightarrow> i < next_inode fs"
  using assms by (auto simp: disk_ok_def)

lemma opened:
  assumes "open_truncated p fs = (fs', i)" "disk_ok fs"
  shows "disk_ok fs'" "names fs' p = Some i" "contents fs' = (contents fs)(p \<mapsto> '''')"
proof -
  have fresh: "names fs q \<noteq> Some (next_inode fs)" for q using disk_okD(2) [OF assms(2), of q] by auto
  then show "disk_ok fs'" "names fs' p = Some i"
    using assms by (auto simp: open_truncated_def disk_ok_def Let_def less_Suc_eq split: option.splits if_splits)
  show "contents fs' = (contents fs)(p \<mapsto> '''')"
  proof
    fix q
    show "contents fs' q = ((contents fs)(p \<mapsto> '''')) q"
      using assms(1) disk_okD(1) [OF assms(2)] fresh [of q]
      by (cases "names fs q") (auto simp: open_truncated_def contents_def Let_def split: option.splits)
  qed
qed

lemma written:
  assumes "names fs p = Some i" "disk_ok fs"
  shows "disk_ok (write_at i off chunk fs)" "names (write_at i off chunk fs) = names fs"
    "contents (write_at i off chunk fs) = (contents fs)(p \<mapsto> overwrite off chunk (data fs i))"
proof -
  show "disk_ok (write_at i off chunk fs)" "names (write_at i off chunk fs) = names fs"
    using assms(2) by (simp_all add: write_at_def disk_ok_def)
  show "contents (write_at i off chunk fs) = (contents fs)(p \<mapsto> overwrite off chunk (data fs i))"
  proof
    fix q
    show "contents (write_at i off chunk fs) q = ((contents fs)(p \<mapsto> overwrite off chunk (data fs i))) q"
      using assms(1) disk_okD(1) [OF assms(2)] by (cases "names fs q") (auto simp: write_at_def contents_def)
  qed
qed

lemma renamed:
  assumes "rename_file p q fs = Some fs'" "disk_ok fs" "p \<noteq> q"
  shows "disk_ok fs'" "contents fs' = (contents fs)(q := contents fs p, p := None)"
proof -
  obtain i where i: "names fs p = Some i" "fs' = fs\<lparr>names := (names fs)(p := None, q \<mapsto> i)\<rparr>"
    using assms(1) by (auto simp: rename_file_def split: option.splits)
  show "disk_ok fs'"
    using i disk_okD [OF assms(2)] unfolding disk_ok_def by (auto split: if_splits)
  show "contents fs' = (contents fs)(q := contents fs p, p := None)"
    using i assms(3) by (auto simp: contents_def)
qed

lemma overwrite_end [simp]: "overwrite (length s) chunk s = s @ chunk"
  by (simp add: overwrite_def)

lemma paths_differ [simp]: "writing_path dir a \<noteq> staged_path dir b" "staged_path dir b \<noteq> writing_path dir a"
proof -
  have "last (writing_path dir a) = CHR ''g''" "last (staged_path dir b) = CHR ''d''"
    by (simp_all add: writing_path_def staged_path_def path_join_def last_append)
  then show "writing_path dir a \<noteq> staged_path dir b" "staged_path dir b \<noteq> writing_path dir a" by auto
qed

section \<open>A publish on its own\<close>

fun job_run ::
  "url_parser \<Rightarrow> string \<Rightarrow> string \<Rightarrow> application list \<Rightarrow> io list \<Rightarrow> job \<Rightarrow> disk \<Rightarrow> disk \<times> job" where
  "job_run parse origin dir as [] j fs = (fs, j)"
| "job_run parse origin dir as (io # ios) j fs =
     (case job_step parse origin dir io as j fs of (fs, j) \<Rightarrow> job_run parse origin dir as ios j fs)"

text \<open>What staging a list of files can come to, by \<open>stage\<close>.\<close>

inductive staged_as :: "string \<Rightarrow> volume \<Rightarrow> (string \<times> string) list \<Rightarrow> volume \<Rightarrow> string + unit \<Rightarrow> bool" for dir where
  staged_all: "staged_as dir V [] V (Inr ())"
| staged_one: "stage Written Renamed dir name body V = (V1, Inr ()) \<Longrightarrow> staged_as dir V1 rest V' r \<Longrightarrow>
    staged_as dir V ((name, body) # rest) V' r"
| staged_not: "stage w r dir name body V = (V', Inl e) \<Longrightarrow> staged_as dir V ((name, body) # rest) V' (Inl e)"

text \<open>Where a publish of \<open>files\<close> into the volume \<open>V\<close> is.\<close>

fun stands_at :: "string \<Rightarrow> volume \<Rightarrow> (string \<times> string) list \<Rightarrow> disk \<Rightarrow> job \<Rightarrow> bool" where
  "stands_at dir V todo fs Querying = False"
| "stands_at dir V todo fs (Opening name body rest) \<longleftrightarrow> contents fs = V \<and> todo = (name, body) # rest"
| "stands_at dir V todo fs (Writing i off body name rest) \<longleftrightarrow>
     (\<exists>done_already. contents fs = V(writing_path dir name \<mapsto> done_already) \<and> names fs (writing_path dir name) = Some i
        \<and> off = length done_already \<and> todo = (name, done_already @ body) # rest)"
| "stands_at dir V todo fs (Renaming name rest) \<longleftrightarrow>
     (\<exists>body. contents fs = V(writing_path dir name \<mapsto> body) \<and> todo = (name, body) # rest)"
| "stands_at dir V todo fs (Finished r) \<longleftrightarrow> staged_as dir V todo (contents fs) r"

lemma next_file_stands: "contents fs = V \<Longrightarrow> stands_at dir V rest fs (next_file rest)"
  by (cases rest) (auto simp: next_file_def staged_all)

lemma staged_rename:
  "stage Written Renamed dir name body V =
     (V(writing_path dir name \<mapsto> body, staged_path dir name \<mapsto> body, writing_path dir name := None), Inr ())"
  by (auto simp: stage_def writing_path_def staged_path_def Let_def)

text \<open>One call leaves it there, or brings it to the next file.\<close>

lemma stands_step:
  assumes "stands_at dir V todo fs j" "disk_ok fs" "job_step parse origin dir io as j fs = (fs', j')"
  shows "disk_ok fs' \<and> (stands_at dir V todo fs' j' \<or>
    (\<exists>name body rest V1. todo = (name, body) # rest \<and> stage Written Renamed dir name body V = (V1, Inr ())
       \<and> stands_at dir V1 rest fs' j'))"
proof (cases j)
  case (Opening name body rest)
  show ?thesis
  proof (cases io)
    case (Fails e)
    have "stage (Write_failed e (V (writing_path dir name))) Renamed dir name body V =
        (V, Inl (''writing '' @ writing_path dir name @ '': '' @ e))"
      by (simp add: stage_def writing_path_def Let_def)
    then show ?thesis using assms Opening Fails by (auto intro: staged_not)
  next
    case (Does n)
    obtain fs1 i where o: "open_truncated (writing_path dir name) fs = (fs1, i)" by force
    note eff = opened [OF o assms(2)]
    show ?thesis using assms Opening Does o eff by auto
  qed
next
  case (Writing i off body name rest)
  then obtain pre where at: "contents fs = V(writing_path dir name \<mapsto> pre)" "names fs (writing_path dir name) = Some i"
    "off = length pre" "todo = (name, pre @ body) # rest" using assms(1) by auto
  show ?thesis
  proof (cases io)
    case (Fails e)
    have "stage (Write_failed e (Some pre)) Renamed dir name (pre @ body) V =
        (V(writing_path dir name \<mapsto> pre), Inl (''writing '' @ writing_path dir name @ '': '' @ e))"
      by (simp add: stage_def writing_path_def Let_def)
    then show ?thesis using assms Writing Fails at by (auto intro: staged_not)
  next
    case (Does n)
    have "contents fs (writing_path dir name) = Some pre" using at(1) by simp
    then have "data fs i = pre" using at(2) by (simp add: contents_def)
    then have "contents (write_at i off (take (Suc n) body) fs) = V(writing_path dir name \<mapsto> pre @ take (Suc n) body)"
      using written(3) [OF at(2) assms(2), of off "take (Suc n) body"] at(1,3) by simp
    then show ?thesis
      using assms(3) Writing Does at written(1,2) [OF at(2) assms(2), of off "take (Suc n) body"]
      by (auto simp: Let_def intro!: exI [of _ "pre @ take (Suc n) body"])
  qed
next
  case (Renaming name rest)
  then obtain body where at: "contents fs = V(writing_path dir name \<mapsto> body)" "todo = (name, body) # rest"
    using assms(1) by auto
  show ?thesis
  proof (cases io)
    case (Fails e)
    have "stage Written (Rename_failed e) dir name body V =
        (V(writing_path dir name \<mapsto> body), Inl (''staging '' @ staged_path dir name @ '': '' @ e))"
      by (simp add: stage_def writing_path_def staged_path_def Let_def)
    then show ?thesis using assms Renaming Fails at by (auto intro: staged_not)
  next
    case (Does n)
    have "contents fs (writing_path dir name) = Some body" using at(1) by simp
    then have "names fs (writing_path dir name) \<noteq> None" by (auto simp: contents_def)
    then obtain fs1 where r: "rename_file (writing_path dir name) (staged_path dir name) fs = Some fs1"
      by (auto simp: rename_file_def)
    note eff = renamed [OF r assms(2) paths_differ(1)]
    have "fs' = fs1" "j' = next_file rest" using assms(3) Renaming Does r by auto
    moreover have "contents fs1 = V(writing_path dir name \<mapsto> body, staged_path dir name \<mapsto> body, writing_path dir name := None)"
      using eff(2) at(1) by (auto simp: fun_eq_iff)
    ultimately show ?thesis using eff(1) at(2) staged_rename next_file_stands by auto
  qed
qed (use assms in auto)

lemma stands_run:
  assumes "stands_at dir V todo fs j" "disk_ok fs" "job_run parse origin dir as ios j fs = (fs', Finished r)"
  shows "staged_as dir V todo (contents fs') r"
  using assms
proof (induction ios arbitrary: V todo fs j)
  case (Cons io ios)
  obtain fs1 j1 where one: "job_step parse origin dir io as j fs = (fs1, j1)" by force
  then have run: "job_run parse origin dir as ios j1 fs1 = (fs', Finished r)" using Cons.prems(3) by simp
  note step = stands_step [OF Cons.prems(1,2) one]
  show ?case
  proof (cases "stands_at dir V todo fs1 j1")
    case True
    then show ?thesis using Cons.IH run step by blast
  next
    case False
    with step obtain name body rest V1 where "todo = (name, body) # rest"
      "stage Written Renamed dir name body V = (V1, Inr ())" "stands_at dir V1 rest fs1 j1" "disk_ok fs1" by blast
    then show ?thesis using Cons.IH run staged_one by blast
  qed
qed simp


text \<open>It ends: every call brings it nearer.\<close>

definition work_left :: "(string \<times> string) list \<Rightarrow> nat" where
  "work_left todo = (\<Sum>(name, body)\<leftarrow>todo. 3 + length body)"

fun work :: "url_parser \<Rightarrow> string \<Rightarrow> application list \<Rightarrow> job \<Rightarrow> nat" where
  "work parse origin as Querying = 1 + work_left (bodies parse origin as)"
| "work parse origin as (Opening name body rest) = 3 + length body + work_left rest"
| "work parse origin as (Writing i off body name rest) = 2 + length body + work_left rest"
| "work parse origin as (Renaming name rest) = 1 + work_left rest"
| "work parse origin as (Finished r) = 0"

lemma work_next_file: "work parse origin as (next_file todo) = work_left todo"
  by (cases todo) (auto simp: next_file_def work_left_def)

lemma work_step:
  assumes "job_step parse origin dir io as j fs = (fs', j')" "\<nexists>r. j = Finished r"
  shows "work parse origin as j' < work parse origin as j"
proof (cases j)
  case (Writing i off body name rest)
  then show ?thesis using assms(1) by (cases io) (auto simp: Let_def intro!: diff_less)
qed (use assms in \<open>cases io; auto simp: work_next_file split: prod.splits option.splits\<close>)+

lemma job_run_ends: "work parse origin as j \<le> length ios \<Longrightarrow> \<exists>r. snd (job_run parse origin dir as ios j fs) = Finished r"
proof (induction ios arbitrary: j fs)
  case Nil
  then show ?case by (cases j) auto
next
  case (Cons io ios)
  obtain fs1 j1 where one: "job_step parse origin dir io as j fs = (fs1, j1)" by force
  show ?case
  proof (cases "\<exists>r. j = Finished r")
    case True
    then have "j1 = j" using one by (cases io) auto
    then have "work parse origin as j1 = 0" using True by auto
    then show ?thesis using Cons.IH [of j1 fs1] one by simp
  next
    case False
    then show ?thesis using Cons.IH [of j1 fs1] Cons.prems work_step [OF one] one by simp
  qed
qed

lemma staged_as_two:
  assumes "staged_as dir V [(n1, b1), (n2, b2)] V' r"
  shows "\<exists>io1 io2. (case stage (fst io1) (snd io1) dir n1 b1 V of
      (V1, Inl e) \<Rightarrow> (V1, Inl e) | (V1, Inr _) \<Rightarrow> stage (fst io2) (snd io2) dir n2 b2 V1) = (V', r)"
  using assms
proof (cases rule: staged_as.cases)
  case (staged_one V1)
  from staged_one(2) show ?thesis
  proof (cases rule: staged_as.cases)
    case (staged_one V2)
    then have "V2 = V'" "r = Inr ()" by (auto elim: staged_as.cases)
    with staged_one(1) \<open>stage Written Renamed dir n1 b1 V = (V1, Inr ())\<close> show ?thesis
      by (intro exI [of _ "(Written, Renamed)"]) simp
  next
    case (staged_not w x e)
    with \<open>stage Written Renamed dir n1 b1 V = (V1, Inr ())\<close> show ?thesis
      by (intro exI [of _ "(Written, Renamed)"] exI [of _ "(w, x)"]) simp
  qed
next
  case (staged_not w x e)
  then show ?thesis by (intro exI [of _ "(w, x)"] exI [of _ "(Written, Renamed)"]) simp
qed

section \<open>Runs\<close>

lemma job_runs:
  assumes "jobs W c = Some j" "job_run parse origin dir (table W) ios j (files W) = (fs, j')"
  obtains W' where "(publish_step parse origin dir)\<^sup>*\<^sup>* W W'" "files W' = fs" "jobs W' = (jobs W)(c \<mapsto> j')" "table W' = table W"
proof -
  have "\<exists>W'. (publish_step parse origin dir)\<^sup>*\<^sup>* W W' \<and> files W' = fs \<and> jobs W' = (jobs W)(c \<mapsto> j') \<and> table W' = table W"
    using assms
  proof (induction ios arbitrary: W j)
    case Nil
    then show ?case by (intro exI [of _ W]) auto
  next
    case (Cons io ios)
    obtain fs1 j1 where one: "job_step parse origin dir io (table W) j (files W) = (fs1, j1)" by force
    let ?W = "W\<lparr>files := fs1, jobs := (jobs W)(c \<mapsto> j1)\<rparr>"
    have first: "publish_step parse origin dir W ?W" using Cons.prems(1) one by (rule publish_step.runs)
    have "jobs ?W c = Some j1" "job_run parse origin dir (table ?W) ios j1 (files ?W) = (fs, j')"
      using Cons.prems(2) one by simp_all
    from Cons.IH [OF this] obtain W' where "(publish_step parse origin dir)\<^sup>*\<^sup>* ?W W'" "files W' = fs"
      "jobs W' = (jobs ?W)(c \<mapsto> j')" "table W' = table ?W" by blast
    then show ?case
      using converse_rtranclp_into_rtranclp [of "publish_step parse origin dir", OF first] by (intro exI [of _ W']) simp
  qed
  then show ?thesis using that by blast
qed

lemma bodies_alt: "bodies parse origin as =
    [(''apps.conf'', render_apps_conf parse as origin), (''breakglass.apps'', render_breakglass_conf parse as origin)]"
  by (rule bodies_def)

lemma out_lines_more: "foldl (\<lambda>out row. out @ f row) s rows = s @ concat (map f rows)"
  by (induction rows arbitrary: s) simp_all

lemma bodies_not_empty: "render_apps_conf parse as origin \<noteq> ''''" "render_breakglass_conf parse as origin \<noteq> ''''"
  by (simp_all add: render_apps_conf_def render_breakglass_conf_def out_lines_more apps_header_def breakglass_header_def
      out_lines_def)

text \<open>A whole file, in one write.\<close>

lemma whole_file:
  assumes "disk_ok fs" "body \<noteq> ''''"
  shows "\<exists>fs'. job_run parse origin dir as [Does 0, Does (length body), Does 0] (Opening name body rest) fs = (fs', next_file rest)
    \<and> contents fs' = (contents fs)(writing_path dir name := None, staged_path dir name \<mapsto> body) \<and> disk_ok fs'"
proof -
  let ?w = "writing_path dir name" and ?s = "staged_path dir name"
  obtain fs1 i where o: "open_truncated ?w fs = (fs1, i)" by force
  note first = opened [OF o assms(1)]
  let ?fs2 = "write_at i 0 body fs1"
  note full = written [OF first(2,1), of 0 body]
  obtain fs3 where r: "rename_file ?w ?s ?fs2 = Some fs3" using first(2) full(2) by (simp add: rename_file_def)
  note last = renamed [OF r full(1) paths_differ(1)]
  have "contents fs1 ?w = Some ''''" using first(3) by simp
  then have "data fs1 i = ''''" using first(2) by (simp add: contents_def)
  then have "contents fs3 = (contents fs)(?w := None, ?s \<mapsto> body)"
    using last(2) full(3) first(3) overwrite_end [of "''''" body] by (auto simp: fun_eq_iff)
  moreover have "job_run parse origin dir as [Does 0, Does (length body), Does 0] (Opening name body rest) fs =
      (fs3, next_file rest)"
    using o assms(2) r by (simp add: Let_def)
  ultimately show ?thesis using last(1) by blast
qed

lemma staged_apart [simp]: "staged_path dir ''apps.conf'' \<noteq> staged_path dir ''breakglass.apps''"
  by (simp add: staged_path_def path_join_def)

lemma job_run_append:
  "job_run parse origin dir as (ios @ ios') j fs =
     (case job_run parse origin dir as ios j fs of (fs, j) \<Rightarrow> job_run parse origin dir as ios' j fs)"
  by (induction ios arbitrary: j fs) (simp_all split: prod.split)

text \<open>Both files of rows already read.\<close>

lemma stage_both:
  assumes "disk_ok fs"
  obtains ios fs' where "job_run parse origin dir now ios (next_file (bodies parse origin as)) fs = (fs', Finished (Inr ()))"
    "contents fs' (staged_path dir ''apps.conf'') = Some (render_apps_conf parse as origin)"
    "contents fs' (staged_path dir ''breakglass.apps'') = Some (render_breakglass_conf parse as origin)" "disk_ok fs'"
proof -
  let ?apps = "render_apps_conf parse as origin" and ?glass = "render_breakglass_conf parse as origin"
  obtain fs1 where one: "job_run parse origin dir now [Does 0, Does (length ?apps), Does 0]
        (Opening ''apps.conf'' ?apps [(''breakglass.apps'', ?glass)]) fs = (fs1, next_file [(''breakglass.apps'', ?glass)])"
      "contents fs1 = (contents fs)(writing_path dir ''apps.conf'' := None, staged_path dir ''apps.conf'' \<mapsto> ?apps)" "disk_ok fs1"
    using whole_file [OF assms bodies_not_empty(1)] by blast
  obtain fs2 where two: "job_run parse origin dir now [Does 0, Does (length ?glass), Does 0]
        (Opening ''breakglass.apps'' ?glass []) fs1 = (fs2, next_file [])"
      "contents fs2 = (contents fs1)(writing_path dir ''breakglass.apps'' := None, staged_path dir ''breakglass.apps'' \<mapsto> ?glass)" "disk_ok fs2"
    using whole_file [OF one(3) bodies_not_empty(2)] by blast
  have "next_file [(''breakglass.apps'', ?glass)] = Opening ''breakglass.apps'' ?glass []" "next_file [] = Finished (Inr ())"
    "next_file (bodies parse origin as) = Opening ''apps.conf'' ?apps [(''breakglass.apps'', ?glass)]"
    by (simp_all add: next_file_def bodies_def)
  then have run: "job_run parse origin dir now ([Does 0, Does (length ?apps), Does 0] @ [Does 0, Does (length ?glass), Does 0])
      (next_file (bodies parse origin as)) fs = (fs2, Finished (Inr ()))"
    unfolding job_run_append using one(1) two(1) by simp
  show ?thesis by (rule that [OF run]) (use two(2,3) one(2) in simp_all)
qed

section \<open>Properties\<close>

text \<open>C29: a publish nobody interrupts is \<open>publish_conf\<close>, however the system splits its writes and whichever
  call fails: it finishes within a bounded number of calls, and the volume and the answer are then
  those of \<open>publish_conf\<close> for some outcomes of its query and its two stagings.\<close>

theorem lone_publish_is_publish_conf:
  assumes "disk_ok fs" "work parse origin as Querying \<le> length ios"
  shows "\<exists>fs' r fetched io1 io2. job_run parse origin dir as ios Querying fs = (fs', Finished r)
    \<and> (fetched = Inr as \<or> (\<exists>e. fetched = Inl e))
    \<and> publish_conf parse fetched io1 io2 dir origin (contents fs) = (contents fs', r)"
proof -
  obtain fs' r where run: "job_run parse origin dir as ios Querying fs = (fs', Finished r)"
    using job_run_ends [OF assms(2)] by (metis prod.collapse)
  from assms(2) obtain io rest where ios: "ios = io # rest" by (cases ios) auto
  show ?thesis
  proof (cases io)
    case (Fails e)
    have "job_run parse origin dir as ios (Finished x) fs = (fs, Finished x)" for ios x
      by (induction ios) simp_all
    then have "fs' = fs" "r = Inl (''reading applications: '' @ e)" using run ios Fails by auto
    then show ?thesis using run
      by (intro exI [of _ fs'] exI [of _ r] exI [of _ "Inl e"]) (simp add: publish_conf_def)
  next
    case (Does n)
    have "stands_at dir (contents fs) (bodies parse origin as) fs (next_file (bodies parse origin as))"
      by (rule next_file_stands) simp
    from stands_run [OF this assms(1)] run ios Does
    have "staged_as dir (contents fs) (bodies parse origin as) (contents fs') r" by simp
    from staged_as_two [OF this [unfolded bodies_def]] obtain io1 io2 where
      "publish_conf parse (Inr as) io1 io2 dir origin (contents fs) = (contents fs', r)"
      by (auto simp: publish_conf_def)
    then show ?thesis using run by blast
  qed
qed

text \<open>C30: two publishes at once can show the reloader half a file. The comment above \<open>stage\<close> rules that out by
  the rename, but both write the same name: one opens it, which empties it, between the other's last
  write and its rename, and what is renamed is then an empty file. No call has failed up to there. If
  the second one's write then does, the file stays empty, and the first answers that it has staged.\<close>

theorem publishes_can_tear_a_file:
  assumes "disk_ok (files W)" "jobs W c = Some Querying" "jobs W d = Some Querying" "c \<noteq> d"
  shows "\<exists>W1 W2. (publish_step parse origin dir)\<^sup>*\<^sup>* W W1 \<and> (publish_step parse origin dir)\<^sup>*\<^sup>* W1 W2
    \<and> contents (files W1) (staged_path dir ''apps.conf'') = Some ''''
    \<and> (\<forall>r. jobs W1 c \<noteq> Some (Finished r) \<and> jobs W1 d \<noteq> Some (Finished r))
    \<and> contents (files W2) (staged_path dir ''apps.conf'') = Some '''' \<and> jobs W2 c = Some (Finished (Inr ()))
    \<and> table W2 = table W"
proof -
  let ?w = "writing_path dir ''apps.conf''" and ?s = "staged_path dir ''apps.conf''"
  let ?body = "render_apps_conf parse (table W) origin" and ?glass = "render_breakglass_conf parse (table W) origin"
  let ?rest = "[(''breakglass.apps'', ?glass)]"
  obtain fs1 i where open1: "open_truncated ?w (files W) = (fs1, i)" by force
  note first = opened [OF open1 assms(1)]
  let ?fs2 = "write_at i 0 ?body fs1"
  note full = written [OF first(2,1), of 0 ?body]
  have "job_run parse origin dir (table W) [Does 0, Does 0, Does (length ?body)] Querying (files W) =
      (?fs2, Renaming ''apps.conf'' ?rest)"
    using open1 bodies_not_empty(1) by (simp add: bodies_def next_file_def Let_def)
  with assms(2) obtain W1 where W1: "(publish_step parse origin dir)\<^sup>*\<^sup>* W W1" "files W1 = ?fs2"
      "jobs W1 = (jobs W)(c \<mapsto> Renaming ''apps.conf'' ?rest)" "table W1 = table W" by (rule job_runs)
  obtain fs3 j where open2: "open_truncated ?w ?fs2 = (fs3, j)" by force
  have "names ?fs2 ?w = Some i" using first(2) full(2) by simp
  note emptied = opened [OF open2 full(1)]
  have "jobs W1 d = Some Querying" using assms(3,4) W1(3) by simp
  moreover have "job_run parse origin dir (table W1) [Does 0, Does 0] Querying (files W1) =
      (fs3, Writing j 0 ?body ''apps.conf'' ?rest)"
    using open2 bodies_not_empty(1) W1(2,4) by (simp add: bodies_def next_file_def)
  ultimately obtain W2 where W2: "(publish_step parse origin dir)\<^sup>*\<^sup>* W1 W2" "files W2 = fs3"
      "jobs W2 = (jobs W1)(d \<mapsto> Writing j 0 ?body ''apps.conf'' ?rest)" "table W2 = table W1"
    by (rule job_runs)
  obtain fs4 where rename: "rename_file ?w ?s fs3 = Some fs4" using emptied(2) by (simp add: rename_file_def)
  note torn = renamed [OF rename emptied(1) paths_differ(1)]
  have "jobs W2 c = Some (Renaming ''apps.conf'' ?rest)" using assms(4) W1(3) W2(3) by simp
  moreover have "job_run parse origin dir (table W2) [Does 0] (Renaming ''apps.conf'' ?rest) (files W2) =
      (fs4, Opening ''breakglass.apps'' ?glass [])"
    using rename W2(2) by (simp add: next_file_def)
  ultimately obtain W3 where W3: "(publish_step parse origin dir)\<^sup>*\<^sup>* W2 W3" "files W3 = fs4"
      "jobs W3 = (jobs W2)(c \<mapsto> Opening ''breakglass.apps'' ?glass [])" "table W3 = table W2"
    by (rule job_runs)
  have empty: "contents fs4 ?s = Some ''''" using torn(2) emptied(3) by simp
  have d: "jobs W3 d = Some (Writing j 0 ?body ''apps.conf'' ?rest)" using assms(4) W2(3) W3(3) by simp
  have "job_run parse origin dir (table W3) [Fails ''disk full''] (Writing j 0 ?body ''apps.conf'' ?rest) (files W3) =
      (fs4, Finished (Inl (''writing '' @ ?w @ '': disk full'')))" using W3(2) by simp
  with d obtain W4 where W4: "(publish_step parse origin dir)\<^sup>*\<^sup>* W3 W4" "files W4 = fs4"
      "jobs W4 = (jobs W3)(d \<mapsto> Finished (Inl (''writing '' @ ?w @ '': disk full'')))" "table W4 = table W3"
    by (rule job_runs)
  obtain fs5 where glass: "job_run parse origin dir (table W4) [Does 0, Does (length ?glass), Does 0]
        (Opening ''breakglass.apps'' ?glass []) fs4 = (fs5, next_file [])"
      "contents fs5 = (contents fs4)(writing_path dir ''breakglass.apps'' := None, staged_path dir ''breakglass.apps'' \<mapsto> ?glass)"
    using whole_file [OF torn(1) bodies_not_empty(2)] by blast
  have "jobs W4 c = Some (Opening ''breakglass.apps'' ?glass [])" using assms(4) W3(3) W4(3) by simp
  moreover note glass(1) [folded W4(2)]
  ultimately obtain W5 where W5: "(publish_step parse origin dir)\<^sup>*\<^sup>* W4 W5" "files W5 = fs5"
      "jobs W5 = (jobs W4)(c \<mapsto> next_file [])" "table W5 = table W4" by (rule job_runs)
  show ?thesis
  proof (intro exI conjI)
    show "(publish_step parse origin dir)\<^sup>*\<^sup>* W W3" by (rule rtranclp_trans [OF W1(1) rtranclp_trans [OF W2(1) W3(1)]])
    show "(publish_step parse origin dir)\<^sup>*\<^sup>* W3 W5" by (rule rtranclp_trans [OF W4(1) W5(1)])
    show "contents (files W3) ?s = Some ''''" using empty W3(2) by simp
    show "\<forall>r. jobs W3 c \<noteq> Some (Finished r) \<and> jobs W3 d \<noteq> Some (Finished r)" using d W3(3) by simp
    show "contents (files W5) ?s = Some ''''" using empty glass(2) W5(2) by simp
    show "jobs W5 c = Some (Finished (Inr ()))" using W5(3) by (simp add: next_file_def)
    show "table W5 = table W" using W1(4) W2(4) W3(4) W4(4) W5(4) by simp
  qed
qed

text \<open>C31: and two publishes that fail in nothing can leave the older table staged. One reads the rows, the
  table changes, the other publishes the change whole, and the first then stages what it had read:
  both answer that they have staged, and what is staged is the table of before the change, until the
  next publish or the next start.\<close>

theorem publishes_can_leave_the_older_table:
  assumes "disk_ok (files W)" "jobs W c = Some Querying" "jobs W d = Some Querying" "c \<noteq> d"
  shows "\<exists>W1 W2. (publish_step parse origin dir)\<^sup>*\<^sup>* W W1 \<and> (publish_step parse origin dir)\<^sup>*\<^sup>* W1 W2
    \<and> contents (files W1) (staged_path dir ''apps.conf'') = Some (render_apps_conf parse later origin)
    \<and> table W2 = later \<and> jobs W2 c = Some (Finished (Inr ())) \<and> jobs W2 d = Some (Finished (Inr ()))
    \<and> contents (files W2) (staged_path dir ''apps.conf'') = Some (render_apps_conf parse (table W) origin)
    \<and> contents (files W2) (staged_path dir ''breakglass.apps'') = Some (render_breakglass_conf parse (table W) origin)"
proof -
  let ?read = "next_file (bodies parse origin (table W))"
  have "job_run parse origin dir (table W) [Does 0] Querying (files W) = (files W, ?read)" by simp
  with assms(2) obtain W1 where W1: "(publish_step parse origin dir)\<^sup>*\<^sup>* W W1" "files W1 = files W"
      "jobs W1 = (jobs W)(c \<mapsto> ?read)" "table W1 = table W" by (rule job_runs)
  let ?W2 = "W1\<lparr>table := later\<rparr>"
  have W2: "publish_step parse origin dir W1 ?W2" by (rule publish_step.changes)
  obtain ios fs3 where d: "job_run parse origin dir later ios (next_file (bodies parse origin later)) (files W) = (fs3, Finished (Inr ()))"
      "contents fs3 (staged_path dir ''apps.conf'') = Some (render_apps_conf parse later origin)" "disk_ok fs3"
    using stage_both [OF assms(1)] by metis
  have "jobs ?W2 d = Some Querying" using assms(3,4) W1(3) by simp
  moreover have "job_run parse origin dir (table ?W2) (Does 0 # ios) Querying (files ?W2) = (fs3, Finished (Inr ()))"
    using d(1) W1(2) by simp
  ultimately obtain W3 where W3: "(publish_step parse origin dir)\<^sup>*\<^sup>* ?W2 W3" "files W3 = fs3"
      "jobs W3 = (jobs ?W2)(d \<mapsto> Finished (Inr ()))" "table W3 = table ?W2" by (rule job_runs)
  obtain ios' fs4 where c: "job_run parse origin dir later ios' ?read fs3 = (fs4, Finished (Inr ()))"
      "contents fs4 (staged_path dir ''apps.conf'') = Some (render_apps_conf parse (table W) origin)"
      "contents fs4 (staged_path dir ''breakglass.apps'') = Some (render_breakglass_conf parse (table W) origin)"
    using stage_both [OF d(3)] by metis
  have "jobs W3 c = Some ?read" using assms(4) W1(3) W3(3) by simp
  moreover have "job_run parse origin dir (table W3) ios' ?read (files W3) = (fs4, Finished (Inr ()))"
    using c(1) W3(2,4) by simp
  ultimately obtain W4 where W4: "(publish_step parse origin dir)\<^sup>*\<^sup>* W3 W4" "files W4 = fs4"
      "jobs W4 = (jobs W3)(c \<mapsto> Finished (Inr ()))" "table W4 = table W3" by (rule job_runs)
  have run: "(publish_step parse origin dir)\<^sup>*\<^sup>* W W3"
    by (rule rtranclp_trans [OF W1(1) converse_rtranclp_into_rtranclp [of "publish_step parse origin dir", OF W2 W3(1)]])
  show ?thesis
  proof (intro exI conjI)
    show "(publish_step parse origin dir)\<^sup>*\<^sup>* W W3" by (rule run)
    show "(publish_step parse origin dir)\<^sup>*\<^sup>* W3 W4" by (rule W4(1))
  qed (use d(2) c(2,3) W3 W4 assms(4) in simp_all)
qed

section \<open>A concrete volume\<close>

definition sample_publishing :: publishing where
  "sample_publishing = \<lparr>table = [sample_app], files = \<lparr>names = Map.empty, data = (\<lambda>_. ''''), next_inode = 0\<rparr>,
     jobs = [0 \<mapsto> Querying, 1 \<mapsto> Querying]\<rparr>"

lemma sample_publishing_ok: "disk_ok (files sample_publishing)" "jobs sample_publishing 0 = Some Querying"
  "jobs sample_publishing 1 = Some Querying"
  by (simp_all add: sample_publishing_def disk_ok_def)

theorem lone_publish_is_publish_conf_witness:
  "\<exists>fs' r. job_run sample_parser ''https://portal'' ''gen'' [sample_app]
      (replicate (work sample_parser ''https://portal'' [sample_app] Querying) (Does 7)) Querying
      (files sample_publishing) = (fs', Finished r)"
  using lone_publish_is_publish_conf [OF sample_publishing_ok(1), of sample_parser "''https://portal''" "[sample_app]"
      "replicate (work sample_parser ''https://portal'' [sample_app] Querying) (Does 7)" "''gen''"]
  by (simp only: length_replicate order_refl) blast

theorem publishes_can_tear_a_file_witness:
  "\<exists>W. (publish_step sample_parser ''https://portal'' ''gen'')\<^sup>*\<^sup>* sample_publishing W \<and> table W = [sample_app]
     \<and> jobs W 0 = Some (Finished (Inr ())) \<and> contents (files W) (staged_path ''gen'' ''apps.conf'') = Some ''''"
proof -
  from publishes_can_tear_a_file [OF sample_publishing_ok, of sample_parser "''https://portal''" "''gen''"]
  show ?thesis by (auto simp: sample_publishing_def intro: rtranclp_trans)
qed

theorem publishes_can_leave_the_older_table_witness:
  "\<exists>W. (publish_step sample_parser ''https://portal'' ''gen'')\<^sup>*\<^sup>* (sample_publishing\<lparr>table := []\<rparr>) W \<and> table W = [sample_app]
     \<and> jobs W 0 = Some (Finished (Inr ())) \<and> jobs W 1 = Some (Finished (Inr ()))
     \<and> contents (files W) (staged_path ''gen'' ''apps.conf'') = Some (render_apps_conf sample_parser [] ''https://portal'')"
proof -
  let ?W = "sample_publishing\<lparr>table := []\<rparr>"
  have ok: "disk_ok (files ?W)" "jobs ?W 0 = Some Querying" "jobs ?W 1 = Some Querying" "(0::nat) \<noteq> 1"
    using sample_publishing_ok by simp_all
  from publishes_can_leave_the_older_table [OF ok, of sample_parser "''https://portal''" "''gen''" "[sample_app]"]
  show ?thesis by (elim exE conjE) (intro exI conjI, erule rtranclp_trans, simp_all)
qed

end
