(* ===== verification/Deadlines.thy ===== *)
theory Deadlines
  imports Revocation Heartbeat
begin

text \<open>
  One clock for the whole fleet (\<open>session.rs\<close>, \<open>cache.rs\<close>): the steps of \<open>Fleet\<close> take no time, time passes
  between them, and the subscriber of every instance keeps the timers of \<open>Heartbeat\<close>. What the cache
  stamps and what the timers bound then say by when a kill has taken effect.
\<close>

section \<open>The fleet in time\<close>

text \<open>The timers of one instance's subscriber; since when its connection has been dead and believed.\<close>

record watch =
  w_beat :: nat
  w_phase :: phase
  w_dead :: "nat option"

record timed_fleet =
  fleet_now :: fleet
  instant :: nat
  watches :: "nat \<Rightarrow> watch"

abbreviation link_of :: "nat \<Rightarrow> fleet \<Rightarrow> link" where
  "link_of n S \<equiv> p_link (procs S n)"

text \<open>One instance of it is the listener of \<open>Heartbeat\<close>.\<close>

definition as_listener :: "nat \<Rightarrow> timed_fleet \<Rightarrow> listener" where
  "as_listener n T = \<lparr>clock = instant T, beat = w_beat (watches T n), phase = w_phase (watches T n),
     heard = cache_of n (fleet_now T), dead_since = w_dead (watches T n)\<rparr>"

definition believed :: "link \<Rightarrow> bool" where
  "believed l \<longleftrightarrow> l = Up \<or> l = Wedged"

text \<open>
  What a step at \<open>t\<close> does to the timers: the flag is raised, and the interval starts; the loop is left,
  and the pause before the next attempt starts; the connection dies.
\<close>

definition rewound :: "nat \<Rightarrow> link \<Rightarrow> link \<Rightarrow> watch \<Rightarrow> watch" where
  "rewound t l l' w =
     (if \<not> believed l \<and> believed l' then
        w\<lparr>w_phase := Reading, w_beat := t + HEARTBEAT, w_dead := (if l' = Wedged then Some t else None)\<rparr>
      else if believed l \<and> \<not> believed l' then w\<lparr>w_phase := Retrying (t + RESUBSCRIBE), w_dead := None\<rparr>
      else if l = Up \<and> l' = Wedged then w\<lparr>w_dead := Some t\<rparr>
      else w)"

text \<open>And what it has to wait for: an attempt to subscribe for the end of the pause, and reading a message
  for the loop to be in \<open>select\<close>.\<close>

definition on_time :: "nat \<Rightarrow> watch \<Rightarrow> process \<Rightarrow> process \<Rightarrow> bool" where
  "on_time t w p p' \<longleftrightarrow>
     (p_link p = Down \<and> p_link p' = Joined \<longrightarrow> (case w_phase w of Retrying r \<Rightarrow> r \<le> t | _ \<Rightarrow> False))
     \<and> (p_link p' = p_link p \<and> length (p_inbox p') < length (p_inbox p) \<longrightarrow> w_phase w = Reading)"

text \<open>What a step puts into a cache bears the instant of the step, \<open>Instant::now\<close> in \<open>insert\<close>.\<close>

definition stamps_at :: "nat \<Rightarrow> fleet \<Rightarrow> fleet \<Rightarrow> bool" where
  "stamps_at t S S' \<longleftrightarrow>
     (\<forall>m key sub u. stamp key (cache_of m S') = Some (sub, u) \<longrightarrow> stamp key (cache_of m S) = Some (sub, u) \<or> u = t)"

inductive timed_fleet_step :: "libs \<Rightarrow> kc_libs \<Rightarrow> ctx \<Rightarrow> timed_fleet \<Rightarrow> timed_fleet \<Rightarrow> bool" for L lib x where
  elapses: "(\<And>n. case due (as_listener n T) of None \<Rightarrow> True | Some d \<Rightarrow> instant T + t \<le> d) \<Longrightarrow>
    timed_fleet_step L lib x T (T\<lparr>instant := instant T + t\<rparr>)"
| acts: "fleet_step L lib x (fleet_now T) S \<Longrightarrow> stamps_at (instant T) (fleet_now T) S \<Longrightarrow>
    (\<And>n. on_time (instant T) (watches T n) (procs (fleet_now T) n) (procs S n)) \<Longrightarrow>
    timed_fleet_step L lib x T (T\<lparr>fleet_now := S,
      watches := (\<lambda>n. rewound (instant T) (link_of n (fleet_now T)) (link_of n S) (watches T n))\<rparr>)"
| beats: "w_phase (watches T n) = Reading \<Longrightarrow> w_beat (watches T n) \<le> instant T \<Longrightarrow>
    timed_fleet_step L lib x T (T\<lparr>watches := (watches T)(n := (watches T n)\<lparr>
      w_phase := Pinging (instant T + HEARTBEAT), w_beat := w_beat (watches T n) + HEARTBEAT\<rparr>)\<rparr>)"
| answers: "w_phase (watches T n) = Pinging d \<Longrightarrow> w_dead (watches T n) = None \<Longrightarrow>
    timed_fleet_step L lib x T (T\<lparr>watches := (watches T)(n := (watches T n)\<lparr>w_phase := Reading\<rparr>)\<rparr>)"

text \<open>Leaving time out, it is the fleet.\<close>

lemma timed_step_fleet:
  "timed_fleet_step L lib x T T' \<Longrightarrow> (fleet_step L lib x)\<^sup>=\<^sup>= (fleet_now T) (fleet_now T')"
  by (induction rule: timed_fleet_step.induct) auto

lemma timed_run_fleet:
  "(timed_fleet_step L lib x)\<^sup>*\<^sup>* T T' \<Longrightarrow> (fleet_step L lib x)\<^sup>*\<^sup>* (fleet_now T) (fleet_now T')"
proof (induction rule: rtranclp_induct)
  case (step T' T'')
  from timed_step_fleet [OF step.hyps(2)] step.IH show ?case by (auto intro: rtranclp.rtrancl_into_rtrancl)
qed simp

section \<open>Nothing is late, and no entry is from the future\<close>

definition awake :: "watch \<Rightarrow> bool" where
  "awake w \<longleftrightarrow> (case w_phase w of Retrying r \<Rightarrow> False | _ \<Rightarrow> True)"

definition timed_ok :: "timed_fleet \<Rightarrow> bool" where
  "timed_ok T \<longleftrightarrow> fleet_ok (fleet_now T)
     \<and> (\<forall>m key sub u. stamp key (cache_of m (fleet_now T)) = Some (sub, u) \<longrightarrow> u \<le> instant T)
     \<and> (\<forall>n. timely (as_listener n T) \<and> (awake (watches T n) \<longleftrightarrow> believed (link_of n (fleet_now T)))
          \<and> (link_of n (fleet_now T) = Wedged \<longrightarrow> w_dead (watches T n) \<noteq> None))"

lemma timed_okI:
  assumes "fleet_ok (fleet_now T)"
    and "\<And>m key sub u. stamp key (cache_of m (fleet_now T)) = Some (sub, u) \<Longrightarrow> u \<le> instant T"
    and "\<And>n. timely (as_listener n T)" "\<And>n. awake (watches T n) \<longleftrightarrow> believed (link_of n (fleet_now T))"
    and "\<And>n. link_of n (fleet_now T) = Wedged \<Longrightarrow> w_dead (watches T n) \<noteq> None"
  shows "timed_ok T"
  using assms by (simp add: timed_ok_def)

lemma timed_okD:
  assumes "timed_ok T"
  shows "fleet_ok (fleet_now T)" "stamp key (cache_of m (fleet_now T)) = Some (sub, u) \<Longrightarrow> u \<le> instant T"
    "timely (as_listener n T)" "awake (watches T n) \<longleftrightarrow> believed (link_of n (fleet_now T))"
    "link_of n (fleet_now T) = Wedged \<Longrightarrow> w_dead (watches T n) \<noteq> None"
  using assms by (simp_all add: timed_ok_def)

text \<open>It holds of a fleet nobody has connected yet.\<close>

definition asleep :: "nat \<Rightarrow> fleet \<Rightarrow> timed_fleet" where
  "asleep t S = \<lparr>fleet_now = S, instant = t, watches = (\<lambda>_. \<lparr>w_beat = 0, w_phase = Retrying t, w_dead = None\<rparr>)\<rparr>"

lemma timed_ok_asleep:
  assumes "fleet_ok S" "\<And>n. link_of n S = Down" "\<And>n. entries (inner (cache_of n S)) = []"
  shows "timed_ok (asleep t S)"
  using assms by (intro timed_okI) (simp_all add: asleep_def stamp_def timely_def as_listener_def awake_def believed_def)

text \<open>The timers of one instance after a step.\<close>

lemma timely_rewound:
  assumes "timely \<lparr>clock = t, beat = w_beat w, phase = w_phase w, heard = c, dead_since = w_dead w\<rparr>" "awake w \<longleftrightarrow> believed l"
  shows "timely \<lparr>clock = t, beat = w_beat (rewound t l l' w), phase = w_phase (rewound t l l' w), heard = c',
      dead_since = w_dead (rewound t l l' w)\<rparr>"
  using assms by (auto simp: timely_def rewound_def awake_def believed_def split: phase.splits)

lemma awake_rewound: "awake w \<longleftrightarrow> believed l \<Longrightarrow> awake (rewound t l l' w) \<longleftrightarrow> believed l'"
  by (auto simp: rewound_def awake_def)

lemma dead_rewound:
  "l = Wedged \<longrightarrow> w_dead w \<noteq> None \<Longrightarrow> l' = Wedged \<Longrightarrow> w_dead (rewound t l l' w) \<noteq> None"
  by (cases l) (auto simp: rewound_def believed_def)

lemma timed_ok_step:
  assumes "timed_fleet_step L lib x T T'" "timed_ok T"
  shows "timed_ok T'"
  using assms
proof (induction rule: timed_fleet_step.induct)
  case (elapses T t)
  have "as_listener n (T\<lparr>instant := instant T + t\<rparr>) = (as_listener n T)\<lparr>clock := clock (as_listener n T) + t\<rparr>" for n
    by (simp add: as_listener_def)
  moreover have "timely ((as_listener n T)\<lparr>clock := clock (as_listener n T) + t\<rparr>)" for n
  proof (rule timely_step [OF timed_step.passes [where hash = "\<lambda>_. 0"]])
    show "case due (as_listener n T) of None \<Rightarrow> True | Some d \<Rightarrow> clock (as_listener n T) + t \<le> d"
      using elapses(1) [of n] by (simp add: as_listener_def split: option.splits)
  qed (rule timed_okD(3) [OF elapses(2)])
  ultimately show ?case
    using timed_okD [OF elapses(2)] by (intro timed_okI) (auto intro: trans_le_add1)
next
  case (acts T S)
  note ok = timed_okD [OF acts(4)]
  show ?case
  proof (rule timed_okI)
    show "fleet_ok (fleet_now (T\<lparr>fleet_now := S, watches := w\<rparr>))" for w using fleet_ok_step [OF acts(1) ok(1)] by simp
  next
    fix m key sub u w assume "stamp key (cache_of m (fleet_now (T\<lparr>fleet_now := S, watches := w\<rparr>))) = Some (sub, u)"
    then have "stamp key (cache_of m (fleet_now T)) = Some (sub, u) \<or> u = instant T"
      using acts(2) by (auto simp: stamps_at_def)
    then show "u \<le> instant (T\<lparr>fleet_now := S, watches := w\<rparr>)" using ok(2) by auto
  next
    fix n
    show "timely (as_listener n (T\<lparr>fleet_now := S,
        watches := \<lambda>n. rewound (instant T) (link_of n (fleet_now T)) (link_of n S) (watches T n)\<rparr>))"
      using timely_rewound [OF ok(3) [of n, unfolded as_listener_def] ok(4)] by (simp add: as_listener_def)
  qed (use ok(4,5) in \<open>simp_all add: awake_rewound dead_rewound\<close>)
next
  case (beats T n)
  note ok = timed_okD [OF beats(3)]
  let ?T = "T\<lparr>watches := (watches T)(n := (watches T n)\<lparr>w_phase := Pinging (instant T + HEARTBEAT),
      w_beat := w_beat (watches T n) + HEARTBEAT\<rparr>)\<rparr>" and ?s = "as_listener n T"
  have "timely (?s\<lparr>phase := Pinging (clock ?s + HEARTBEAT), beat := beat ?s + HEARTBEAT\<rparr>)"
    using beats(1,2) ok(3) [of n] by (intro timely_step [OF timed_step.ticks [where hash = "\<lambda>_. 0"]]) (simp_all add: as_listener_def)
  then have "timely (as_listener m ?T)" for m using ok(3) [of m] by (cases "m = n") (simp_all add: as_listener_def)
  moreover have "awake (watches T n) \<longleftrightarrow> believed (link_of n (fleet_now T))" by (rule ok(4))
  ultimately show ?case using ok beats(1) by (intro timed_okI) (auto simp: awake_def)
next
  case (answers T n d)
  note ok = timed_okD [OF answers(3)]
  let ?T = "T\<lparr>watches := (watches T)(n := (watches T n)\<lparr>w_phase := Reading\<rparr>)\<rparr>" and ?s = "as_listener n T"
  have "timely (?s\<lparr>phase := Reading\<rparr>)"
    using answers(1,2) ok(3) [of n] by (intro timely_step [OF timed_step.pongs [where hash = "\<lambda>_. 0"]]) (simp_all add: as_listener_def)
  then have "timely (as_listener m ?T)" for m using ok(3) [of m] by (cases "m = n") (simp_all add: as_listener_def)
  moreover have "awake (watches T n) \<longleftrightarrow> believed (link_of n (fleet_now T))" by (rule ok(4))
  ultimately show ?case using ok answers(1) by (intro timed_okI) (auto simp: awake_def)
qed

lemma timed_ok_run: "(timed_fleet_step L lib x)\<^sup>*\<^sup>* T T' \<Longrightarrow> timed_ok T \<Longrightarrow> timed_ok T'"
  by (induction rule: rtranclp_induct) (auto intro: timed_ok_step)

lemma wedged_not_long:
  assumes "timed_ok T" "link_of n (fleet_now T) = Wedged"
  obtains died where "w_dead (watches T n) = Some died" "died \<le> instant T" "instant T \<le> died + 2 * HEARTBEAT"
proof -
  obtain died where died: "w_dead (watches T n) = Some died" using timed_okD(5) [OF assms] by auto
  have "awake (watches T n)" using timed_okD(4) [OF assms(1), of n] assms(2) by (simp add: believed_def)
  then have "\<forall>w. phase (as_listener n T) \<noteq> Retrying w" by (auto simp: as_listener_def awake_def)
  from timely_dead [OF timed_okD(3) [OF assms(1)] this, of died] died
  have "instant T \<le> died + 2 * HEARTBEAT" by (simp add: as_listener_def)
  moreover have "died \<le> instant T"
    using timed_okD(3) [OF assms(1), of n] died by (simp add: timely_def as_listener_def)
  ultimately show thesis using died by (intro that)
qed

text \<open>What is served of a user whose sessions \<open>ks\<close> were deleted and who was announced at \<open>T0\<close>.\<close>

lemma served_in_time:
  assumes "timed_ok T0" "kept_since ks sub (fleet_now T0) (fleet_now T0)" "(timed_fleet_step L lib x)\<^sup>*\<^sup>* T0 T1"
    and "get (instant T1) key (cache_of m (fleet_now T1)) = Some v" "owner key (cache_of m (fleet_now T1)) = Some sub"
  shows "instant T1 < instant T0 + TTL
      \<and> (sub \<in> set (p_inbox (procs (fleet_now T1) m))
         \<or> (\<exists>died. w_dead (watches T1 m) = Some died \<and> died \<le> instant T1 \<and> instant T1 \<le> died + 2 * HEARTBEAT))
    \<or> calls (fleet_now T0) (filler (fleet_now T1) m key) \<noteq> None
    \<or> (\<exists>k. ticket (fleet_now T1) (filler (fleet_now T1) m key) = Some k \<and> k \<notin> ks)"
  using served_since [OF kept_since_run [OF timed_run_fleet [OF assms(3)] assms(2)] assms(4,5)]
    timed_okD(2) [OF assms(1)] wedged_not_long [OF timed_ok_run [OF assms(3,1)], of m]
  by (metis add_le_cancel_right order_less_le_trans)

section \<open>Properties\<close>


text \<open>A sign-out takes effect by the same time.\<close>

lemma sign_out_takes_effect_in_time:
  assumes "timed_ok T" "calls (fleet_now T) d = Some (Leaving n hs (Tell c k))" "named_truly L hs (used (fleet_now T))"
    and "logout_step L (portal_origin x) e hs (Tell c k) (view n (fleet_now T)) = (s, Inr (Drop_here c k True))"
    and "timed_fleet_step L lib x T T0"
    and "fleet_now T0 = with_call d (Inr (Leaving n hs (Drop_here c k True))) (settle n s (fleet_now T))"
    and "(timed_fleet_step L lib x)\<^sup>*\<^sup>* T0 T1"
    and "get (instant T1) key (cache_of m (fleet_now T1)) = Some v"
    and "owner key (cache_of m (fleet_now T1)) = Some (caller_sub c)"
  shows "instant T1 < instant T0 + TTL
      \<and> (caller_sub c \<in> set (p_inbox (procs (fleet_now T1) m))
         \<or> (\<exists>died. w_dead (watches T1 m) = Some died \<and> died \<le> instant T1 \<and> instant T1 \<le> died + 2 * HEARTBEAT))
    \<or> calls (fleet_now T0) (filler (fleet_now T1) m key) \<noteq> None
    \<or> (\<exists>k'. ticket (fleet_now T1) (filler (fleet_now T1) m key) = Some k' \<and> k' \<notin> {k})"
  using timed_ok_step [OF assms(5,1)] kept_since_signed_out [OF timed_okD(1) [OF assms(1)] assms(2-4,6)] assms(7-9)
  by (rule served_in_time)

section \<open>A concrete run\<close>

definition sample_timed :: timed_fleet where
  "sample_timed = \<lparr>fleet_now = sample_fleet, instant = 5,
     watches = (\<lambda>_. \<lparr>w_beat = 5 + HEARTBEAT, w_phase = Reading, w_dead = None\<rparr>)\<rparr>"

lemma sample_stamp: "stamp key (st_cache sample_state) = (if key = sample_key then Some (''u1'', 5) else None)"
  by (simp add: stamp_def sample_state_def sample_ops_def run_ops_def new_cache_def set_subscribed_def flush_all_def
      insert_cached_def insert_by_sub_def count_request_def shrink.simps CAPACITY_def TTL_def)

lemma sample_timed_ok: "timed_ok sample_timed"
proof (rule timed_okI)
  show "fleet_ok (fleet_now sample_timed)" by (simp add: sample_timed_def sample_fleet_ok)
qed (auto simp: sample_timed_def sample_fleet_def sample_stamp timely_def as_listener_def awake_def believed_def split: if_splits)


end
