(* ===== verification/Policy_Tests.thy ===== *)
theory Policy_Tests
  imports Policy
begin

text \<open>
  The unit tests of \<open>policy.rs\<close>, run on the model: a definition per \<open>#[test]\<close>, under its name, holding the
  assertions of its body, and a proof by evaluation that they hold of the definitions of \<open>Uri\<close> and
  \<open>Policy\<close>. What the authors wrote down of the intended behaviour, attacks included, the model shows too.
\<close>

section \<open>What the tests share\<close>

text \<open>\<open>rule\<close>, the instants of the tests in nanoseconds, and the application that is open but for \<open>/admin/*\<close>.\<close>

definition test_rule :: "effect \<Rightarrow> string \<Rightarrow> rule" where
  "test_rule e pattern = \<lparr>effect = e, path_pattern = pattern, expires_at = None\<rparr>"

definition test_now :: time where
  "test_now = 1788696000 * 1000000000"

definition ran_out :: "effect \<Rightarrow> string \<Rightarrow> rule" where
  "ran_out e pattern = (test_rule e pattern)\<lparr>expires_at := Some (1788695999 * 1000000000)\<rparr>"

definition admin_denied :: "rule list" where
  "admin_denied = [test_rule Effect_Allow '''', test_rule Effect_Deny ''/admin/*'']"

definition decision_of :: "string \<Rightarrow> decision" where
  "decision_of uri = decide True admin_denied uri test_now"

definition backslash :: char where
  "backslash = CHR 0x5C"

section \<open>Paths\<close>

definition every_deny_reason_sits_at_its_own_discriminant :: bool where
  "every_deny_reason_sits_at_its_own_discriminant \<longleftrightarrow>
     list_all (\<lambda>(index, reason). deny_index reason = index) (enumerate 0 deny_all)"

definition deny_rule_survives_a_rewritten_path :: bool where
  "deny_rule_survives_a_rewritten_path \<longleftrightarrow>
     list_all (\<lambda>uri. decision_of uri = Deny ExplicitDeny)
       [''/admin/users'', ''/%61dmin/users'', ''//admin/users'', ''/x/../admin/users'', ''/admin'', ''/admin/'',
        ''/./admin/users'', ''/ADMIN/users'', ''/admin/users?next=/public'', ''/x/..//./admin/'',
        ''/admin%2fusers'', ''/%2e%2e/admin/'', ''/public/../admin/'']"

definition backslash_is_a_separator :: bool where
  "backslash_is_a_separator \<longleftrightarrow>
     list_all (\<lambda>uri. decision_of uri = Deny ExplicitDeny)
       [''/admin'' @ [backslash] @ ''users'', ''/%5cadmin/'', ''/x'' @ [backslash] @ ''..'' @ [backslash] @ ''admin/'']"

definition an_allow_subtree_cannot_be_escaped_by_any_reading :: bool where
  "an_allow_subtree_cannot_be_escaped_by_any_reading \<longleftrightarrow>
     (let public_only = [test_rule Effect_Allow ''/public/*'']
      in list_all (\<lambda>uri. decide True public_only uri test_now \<noteq> Allow)
           [''/admin/..%2Fpublic/x'', ''/admin/..%2fpublic/x'', ''/admin/..%5Cpublic/x'',
            ''/admin/x'' @ [backslash] @ ''..'' @ [backslash] @ ''..'' @ [backslash] @ ''public/y'',
            ''/public/..;/admin/'', ''/public/..;x/admin/'', ''/admin/secret#/../../public/'']
         \<and> decide True public_only ''/public/a;jsessionid=1'' test_now = Allow
         \<and> decide True [test_rule Effect_Allow ''''] ''/job/feature%2Ffoo/'' test_now = Allow)"

definition a_path_parameter_does_not_hide_a_segment_from_a_deny_rule :: bool where
  "a_path_parameter_does_not_hide_a_segment_from_a_deny_rule \<longleftrightarrow>
     list_all (\<lambda>uri. decision_of uri = Deny ExplicitDeny) [''/admin;x/users'', ''/admin;jsessionid=1/'', ''/ADMIN;/x'']"

definition matching_stops_at_a_segment_boundary :: bool where
  "matching_stops_at_a_segment_boundary \<longleftrightarrow>
     list_all (\<lambda>uri. decision_of uri = Allow) [''/adminx'', ''/administration/'', ''/public/admin-notes'']"

definition double_encoding_is_refused :: bool where
  "double_encoding_is_refused \<longleftrightarrow>
     list_all (\<lambda>uri. decision_of uri = Deny MalformedUri) [''/%2561dmin/'', ''/%25'', ''/a%252e%252e/admin/'']"

definition control_bytes_and_invalid_utf8_are_refused :: bool where
  "control_bytes_and_invalid_utf8_are_refused \<longleftrightarrow>
     list_all (\<lambda>uri. decision_of uri = Deny MalformedUri)
       [''/admin%00.png'', ''/admin%0a/x'', ''/admin%09'', ''/%ff%fe'', ''/%c0%af'', ''/admin%c2%80'']"

definition malformed_percent_escapes_are_refused :: bool where
  "malformed_percent_escapes_are_refused \<longleftrightarrow>
     list_all (\<lambda>uri. decision_of uri = Deny MalformedUri) [''/%zz'', ''/%a'', ''/%'', ''/admin/%g0'']"

definition a_uri_that_is_not_a_path_is_refused :: bool where
  "a_uri_that_is_not_a_path_is_refused \<longleftrightarrow>
     list_all (\<lambda>uri. decision_of uri = Deny MalformedUri) ['''', ''*'', ''http://elsewhere/admin/'', ''admin/'']"

definition the_query_string_is_not_part_of_the_path :: bool where
  "the_query_string_is_not_part_of_the_path \<longleftrightarrow>
     decision_of ''/public?next=/admin/'' = Allow \<and> decision_of ''/admin/?next=/public'' = Deny ExplicitDeny"

section \<open>Rules\<close>

definition no_matching_rule_is_a_deny :: bool where
  "no_matching_rule_is_a_deny \<longleftrightarrow>
     decide True [] ''/'' test_now = Deny NoMatchingGrant
     \<and> decide True [test_rule Effect_Allow ''/reports/*''] ''/payroll/'' test_now = Deny NoMatchingGrant"

definition deny_beats_allow_whatever_the_order :: bool where
  "deny_beats_allow_whatever_the_order \<longleftrightarrow>
     list_all (\<lambda>rules. decide True rules ''/admin/'' test_now = Deny ExplicitDeny)
       [[test_rule Effect_Allow '''', test_rule Effect_Deny ''/admin/*''],
        [test_rule Effect_Deny ''/admin/*'', test_rule Effect_Allow '''']]
     \<and> decide True [test_rule Effect_Allow ''/admin/reports/*'', test_rule Effect_Deny ''/admin/*'']
          ''/admin/reports/q1'' test_now = Deny ExplicitDeny"

definition an_expired_entitlement_is_ignored :: bool where
  "an_expired_entitlement_is_ignored \<longleftrightarrow>
     decide True [ran_out Effect_Allow ''''] ''/'' test_now = Deny NoMatchingGrant
     \<and> decide True [test_rule Effect_Allow '''', ran_out Effect_Deny ''/admin/*''] ''/admin/'' test_now = Allow
     \<and> decide True [(test_rule Effect_Allow '''')\<lparr>expires_at := Some (1788696001 * 1000000000)\<rparr>] ''/'' test_now = Allow"

definition a_disabled_application_denies_everyone :: bool where
  "a_disabled_application_denies_everyone \<longleftrightarrow>
     decide False [test_rule Effect_Allow ''''] ''/'' test_now = Deny ApplicationDisabled"

definition an_empty_pattern_is_the_whole_application :: bool where
  "an_empty_pattern_is_the_whole_application \<longleftrightarrow>
     list_all (\<lambda>uri. decide True [test_rule Effect_Allow ''''] uri test_now = Allow)
       [''/'', ''/anything/at/all'', ''/admin-ish'']"

section \<open>Groups\<close>

definition admin_group_membership_is_an_exact_match :: bool where
  "admin_group_membership_is_an_exact_match \<longleftrightarrow>
     in_group [''OpenBerat-Admins''] ''OpenBerat-Admins''
     \<and> in_group [''OpenBerat-Finance'', ''OpenBerat-Admins''] ''OpenBerat-Admins''
     \<and> list_all (\<lambda>not_admin. \<not> in_group not_admin ''OpenBerat-Admins'')
         [[], [''OpenBerat-Finance''], [''openberat-admins''], [''OpenBerat-Admins-Readonly''], [''Domain Admins'']]"

definition the_auditor_group_reads_the_management_plane_and_writes_nothing :: bool where
  "the_auditor_group_reads_the_management_plane_and_writes_nothing \<longleftrightarrow>
     (let may = (\<lambda>names. may_manage names ''OpenBerat-Admins'' ''OpenBerat-Auditors'')
      in may [''OpenBerat-Auditors''] True \<and> \<not> may [''OpenBerat-Auditors''] False
         \<and> may [''OpenBerat-Admins''] True \<and> may [''OpenBerat-Admins''] False
         \<and> may [''OpenBerat-Auditors'', ''OpenBerat-Admins''] False
         \<and> list_all (\<lambda>pretender. \<not> may pretender True \<and> \<not> may pretender False)
             [[], [''OpenBerat-Finance''], [''openberat-auditors''], [''OpenBerat-Auditors-Write'']]
         \<and> \<not> may_manage [''''] '''' '''' True \<and> \<not> may_manage [''''] ''OpenBerat-Admins'' '''' True)"

definition a_second_factor_reset_refuses_self_and_privileged_targets :: bool where
  "a_second_factor_reset_refuses_self_and_privileged_targets \<longleftrightarrow>
     (let may = (\<lambda>caller target names.
            may_reset_second_factor caller target names ''OpenBerat-Admins'' ''OpenBerat-Auditors'' = Inr ())
      in may ''admin-sub'' ''user-sub'' [''OpenBerat-Finance''] \<and> may ''admin-sub'' ''user-sub'' []
         \<and> \<not> may ''admin-sub'' ''admin-sub'' [''OpenBerat-Finance'']
         \<and> \<not> may ''admin-sub'' ''t'' [''OpenBerat-Admins''] \<and> \<not> may ''admin-sub'' ''t'' [''OpenBerat-Auditors'']
         \<and> \<not> may ''admin-sub'' ''t'' [''OpenBerat-Finance'', ''OpenBerat-Admins''] \<and> \<not> may '''' '''' [])"

section \<open>Explain\<close>

definition explain_never_disagrees_with_decide :: bool where
  "explain_never_disagrees_with_decide \<longleftrightarrow>
     list_all (\<lambda>rules. list_all (\<lambda>app_enabled. list_all (\<lambda>uri.
         trace_decision (explain app_enabled rules uri test_now) = decide app_enabled rules uri test_now)
       [''/'', ''/admin/'', ''/%61dmin/'', ''/x/../admin/'', ''/adminx'', ''/%2561dmin/'', ''/admin%00'', ''/%zz'', '''',
        ''/reports/q1'', ''/admin/users?next=/public'']) [True, False])
       [admin_denied, [], [test_rule Effect_Allow ''''], [test_rule Effect_Allow ''/reports/*''],
        [ran_out Effect_Allow ''''], [test_rule Effect_Allow '''', ran_out Effect_Deny ''/admin/*'']]"

definition explain_names_the_rules_that_matched :: bool where
  "explain_names_the_rules_that_matched \<longleftrightarrow>
     explain True admin_denied ''/x/../admin/users'' test_now =
       \<lparr>trace_decision = Deny ExplicitDeny, trace_path = Some ''/admin/users'',
        trace_rules = [\<lparr>matched = True, expired = False\<rparr>, \<lparr>matched = True, expired = False\<rparr>]\<rparr>
     \<and> trace_decision (explain True admin_denied ''/public/'' test_now) = Allow
     \<and> trace_rules (explain True admin_denied ''/public/'' test_now) =
         [\<lparr>matched = True, expired = False\<rparr>, \<lparr>matched = False, expired = False\<rparr>]"

definition an_expired_grant_is_reported_as_expired_not_as_absent :: bool where
  "an_expired_grant_is_reported_as_expired_not_as_absent \<longleftrightarrow>
     (let t = explain True [ran_out Effect_Allow ''''] ''/'' test_now
      in trace_decision t = Deny NoMatchingGrant \<and> trace_rules t = [\<lparr>matched = True, expired = True\<rparr>])"

definition a_malformed_uri_is_matched_against_nothing :: bool where
  "a_malformed_uri_is_matched_against_nothing \<longleftrightarrow>
     (let t = explain True admin_denied ''/%2561dmin/'' test_now
      in trace_decision t = Deny MalformedUri \<and> trace_path t = None \<and> list_all (\<lambda>r. \<not> matched r) (trace_rules t))"

definition a_disabled_application_still_shows_its_rules :: bool where
  "a_disabled_application_still_shows_its_rules \<longleftrightarrow>
     (let t = explain False admin_denied ''/'' test_now
      in trace_decision t = Deny ApplicationDisabled \<and> trace_path t = Some ''/'' \<and> matched (trace_rules t ! 0))"

section \<open>They pass\<close>

text \<open>The loops of the tests are unrolled first.\<close>

lemma every_deny_reason_sits_at_its_own_discriminant_passes: "every_deny_reason_sits_at_its_own_discriminant"
  unfolding every_deny_reason_sits_at_its_own_discriminant_def list.pred_inject by code_simp

lemma deny_rule_survives_a_rewritten_path_passes: "deny_rule_survives_a_rewritten_path"
  unfolding deny_rule_survives_a_rewritten_path_def list.pred_inject by code_simp

lemma backslash_is_a_separator_passes: "backslash_is_a_separator"
  unfolding backslash_is_a_separator_def list.pred_inject by code_simp

lemma an_allow_subtree_cannot_be_escaped_by_any_reading_passes: "an_allow_subtree_cannot_be_escaped_by_any_reading"
  unfolding an_allow_subtree_cannot_be_escaped_by_any_reading_def list.pred_inject by code_simp

lemma a_path_parameter_does_not_hide_a_segment_from_a_deny_rule_passes: "a_path_parameter_does_not_hide_a_segment_from_a_deny_rule"
  unfolding a_path_parameter_does_not_hide_a_segment_from_a_deny_rule_def list.pred_inject by code_simp

lemma matching_stops_at_a_segment_boundary_passes: "matching_stops_at_a_segment_boundary"
  unfolding matching_stops_at_a_segment_boundary_def list.pred_inject by code_simp

lemma double_encoding_is_refused_passes: "double_encoding_is_refused"
  unfolding double_encoding_is_refused_def list.pred_inject by code_simp

lemma control_bytes_and_invalid_utf8_are_refused_passes: "control_bytes_and_invalid_utf8_are_refused"
  unfolding control_bytes_and_invalid_utf8_are_refused_def list.pred_inject by code_simp

lemma malformed_percent_escapes_are_refused_passes: "malformed_percent_escapes_are_refused"
  unfolding malformed_percent_escapes_are_refused_def list.pred_inject by code_simp

lemma a_uri_that_is_not_a_path_is_refused_passes: "a_uri_that_is_not_a_path_is_refused"
  unfolding a_uri_that_is_not_a_path_is_refused_def list.pred_inject by code_simp

lemma the_query_string_is_not_part_of_the_path_passes: "the_query_string_is_not_part_of_the_path"
  unfolding the_query_string_is_not_part_of_the_path_def list.pred_inject by code_simp

lemma no_matching_rule_is_a_deny_passes: "no_matching_rule_is_a_deny"
  unfolding no_matching_rule_is_a_deny_def list.pred_inject by code_simp

lemma deny_beats_allow_whatever_the_order_passes: "deny_beats_allow_whatever_the_order"
  unfolding deny_beats_allow_whatever_the_order_def list.pred_inject by code_simp

lemma an_expired_entitlement_is_ignored_passes: "an_expired_entitlement_is_ignored"
  unfolding an_expired_entitlement_is_ignored_def list.pred_inject by code_simp

lemma a_disabled_application_denies_everyone_passes: "a_disabled_application_denies_everyone"
  unfolding a_disabled_application_denies_everyone_def list.pred_inject by code_simp

lemma an_empty_pattern_is_the_whole_application_passes: "an_empty_pattern_is_the_whole_application"
  unfolding an_empty_pattern_is_the_whole_application_def list.pred_inject by code_simp

lemma admin_group_membership_is_an_exact_match_passes: "admin_group_membership_is_an_exact_match"
  unfolding admin_group_membership_is_an_exact_match_def list.pred_inject by code_simp

lemma the_auditor_group_reads_the_management_plane_and_writes_nothing_passes: "the_auditor_group_reads_the_management_plane_and_writes_nothing"
  unfolding the_auditor_group_reads_the_management_plane_and_writes_nothing_def list.pred_inject by code_simp

lemma a_second_factor_reset_refuses_self_and_privileged_targets_passes: "a_second_factor_reset_refuses_self_and_privileged_targets"
  unfolding a_second_factor_reset_refuses_self_and_privileged_targets_def list.pred_inject by code_simp

lemma explain_never_disagrees_with_decide_passes: "explain_never_disagrees_with_decide"
  by (simp add: explain_never_disagrees_with_decide_def explain_def Let_def)

lemma explain_names_the_rules_that_matched_passes: "explain_names_the_rules_that_matched"
  unfolding explain_names_the_rules_that_matched_def list.pred_inject by code_simp

lemma an_expired_grant_is_reported_as_expired_not_as_absent_passes: "an_expired_grant_is_reported_as_expired_not_as_absent"
  unfolding an_expired_grant_is_reported_as_expired_not_as_absent_def list.pred_inject by code_simp

lemma a_malformed_uri_is_matched_against_nothing_passes: "a_malformed_uri_is_matched_against_nothing"
  unfolding a_malformed_uri_is_matched_against_nothing_def list.pred_inject by code_simp

lemma a_disabled_application_still_shows_its_rules_passes: "a_disabled_application_still_shows_its_rules"
  unfolding a_disabled_application_still_shows_its_rules_def list.pred_inject by code_simp

end
