(* ===== verification/Cache_Tests.thy ===== *)
theory Cache_Tests
  imports Session Policy_Tests
begin

text \<open>
  The unit tests of \<open>cache.rs\<close> and \<open>session.rs\<close>, run on the model as in \<open>Policy_Tests\<close>. The clock stands at one
  TTL, so that an entry can be aged past it; the digest of a cookie is the cookie, and paths are told
  apart by a sum over their bytes. The test that fills the cache beyond its capacity is here too: its ten
  thousand insertions are done by induction.
\<close>

section \<open>What the tests share\<close>

definition test_identity :: "string \<Rightarrow> identity" where
  "test_identity sub = \<lparr>id_sub = sub, id_username = ''labuser'', id_email = ''labuser@example.local'',
     id_groups = ''OpenBerat-Finance''\<rparr>"

definition test_cached :: cached where
  "test_cached = \<lparr>cached_identity = test_identity ''sub-labuser'', cached_rules = [test_rule Effect_Allow ''''],
     cached_enabled = True, cached_application_id = None\<rparr>"

definition test_key :: "string \<Rightarrow> string \<Rightarrow> key option" where
  "test_key cookie wanted = new_key (\<lambda>s. s) (Some cookie) wanted"

definition armed :: "audit \<Rightarrow> cache" where
  "armed a = set_subscribed True (new_cache a)"

definition test_hash :: "string \<Rightarrow> 64 word" where
  "test_hash = foldl (\<lambda>h c. 2 * h + of_nat (byte c)) 0"

text \<open>\<open>tracked\<close>, over the users who own a key; \<open>expire_for_test\<close>.\<close>

definition tracked :: "cache \<Rightarrow> nat" where
  "tracked c = length (entries (inner c)) + (\<Sum>sub\<in>dom (by_sub (inner c)). length (the (by_sub (inner c) sub)))"

definition expire_for_test :: "key \<Rightarrow> cache \<Rightarrow> cache" where
  "expire_for_test k c =
     (case map_of (entries (inner c)) k of
        None \<Rightarrow> c
      | Some e \<Rightarrow> c\<lparr>inner := (inner c)\<lparr>entries := AList.update k (e\<lparr>inserted := inserted e - TTL\<rparr>) (entries (inner c))\<rparr>\<rparr>)"

text \<open>The key of \<open>_oauth2_proxy=abc\<close> on finance, its fill and the folding in of a request.\<close>

definition abc :: key where
  "abc = \<lparr>key_cookie = ''abc'', key_slug = ''finance''\<rparr>"

definition filled :: "cache \<Rightarrow> cache" where
  "filled = insert_cached TTL abc ''sub-labuser'' test_cached"

definition folded :: "decision \<Rightarrow> string \<Rightarrow> ip_addr option \<Rightarrow> cache \<Rightarrow> cache" where
  "folded d path src c = snd (count_request test_now test_hash abc d path src None c)"

definition written :: "cache \<Rightarrow> audit_event list" where
  "written c = queued (sink c)"

definition drained :: "cache \<Rightarrow> cache" where
  "drained c = c\<lparr>sink := (sink c)\<lparr>queued := []\<rparr>\<rparr>"

section \<open>The cookie half of the key\<close>

definition only_the_session_cookie_is_hashed :: bool where
  "only_the_session_cookie_is_hashed \<longleftrightarrow>
     (let plain = test_key ''_oauth2_proxy=abc'' ''finance''
      in plain = Some abc \<and> plain = test_key ''_oauth2_proxy=abc; app_pref=dark'' ''finance''
         \<and> plain = test_key ''other=1; _oauth2_proxy=abc; last=2'' ''finance''
         \<and> plain \<noteq> test_key ''_oauth2_proxy=def'' ''finance'' \<and> plain \<noteq> test_key ''_oauth2_proxy=abc'' ''payroll'')"

definition no_session_cookie_means_no_key :: bool where
  "no_session_cookie_means_no_key \<longleftrightarrow>
     new_key (\<lambda>s. s) None ''finance'' = None \<and> test_key '''' ''finance'' = None
     \<and> test_key ''app_pref=dark; other=1'' ''finance'' = None \<and> test_key ''_oauth2_proxy_lookalike=abc'' ''finance'' = None"

definition two_session_cookies_are_no_session :: bool where
  "two_session_cookies_are_no_session \<longleftrightarrow>
     list_all (\<lambda>header. session_cookie (Some header) = Inl Ambiguous \<and> test_key header ''finance'' = None)
       [''_oauth2_proxy=V; _oauth2_proxy_1=r'', ''_oauth2_proxy_1=x; _oauth2_proxy=V'', ''_oauth2_proxy=decoy; _oauth2_proxy=V'',
        ''a=1; _oauth2_proxy=V; b=2; _oauth2_proxy_0=r'']
     \<and> session_cookie (Some ''a=1; _oauth2_proxy=V'') = Inr (Some ''V'') \<and> session_cookie (Some ''a=1'') = Inr None"

section \<open>The subscription\<close>

definition an_instance_with_no_live_subscription_serves_no_hits :: bool where
  "an_instance_with_no_live_subscription_serves_no_hits \<longleftrightarrow>
     (let c = filled (new_cache (audit_channel 16));
          c' = filled (set_subscribed True c);
          c'' = set_subscribed False c'
      in get TTL abc c = None \<and> get TTL abc c' \<noteq> None \<and> get TTL abc c'' = None
         \<and> fst (count_request test_now test_hash abc Allow ''/a'' None None c'')
         \<and> tally (snd ((entry_counters (the (lookup (folded Allow ''/a'' None c'') abc))) ! 0)) = 1
         \<and> ev_count (written (flush_all (folded Allow ''/a'' None c'')) ! 0) = 1)"

definition a_regained_subscription_does_not_serve_entries_from_before_the_gap :: bool where
  "a_regained_subscription_does_not_serve_entries_from_before_the_gap \<longleftrightarrow>
     (let c = filled (armed (audit_channel 16));
          c' = set_subscribed True (set_subscribed False (folded Allow ''/a'' None c))
      in fst (count_request test_now test_hash abc Allow ''/a'' None None c)
         \<and> get TTL abc c' = None \<and> ev_count (written c' ! 0) = 1)"

section \<open>The roads out of the cache\<close>

definition walk_exit_road :: "(cache \<Rightarrow> cache) \<Rightarrow> audit_event list option" where
  "walk_exit_road road =
     (let c = folded (Deny ExplicitDeny) ''/admin/'' None (folded Allow ''/b'' None (folded Allow ''/a'' None
            (filled (armed (audit_channel 16)))))
      in if written c = [] then Some (written (road c)) else None)"

definition two_rows :: "audit_event list option \<Rightarrow> bool" where
  "two_rows out \<longleftrightarrow>
     (case out of
        Some [allow, denial] \<Rightarrow>
          ev_decision allow = Allow \<and> ev_count allow = 2 \<and> ev_distinct_path allow = 2 \<and> ev_first_path allow = ''/a''
          \<and> ev_decision denial = Deny ExplicitDeny \<and> ev_count denial = 1
      | _ \<Rightarrow> False)"

definition every_road_out_of_the_cache_flushes_its_counters :: bool where
  "every_road_out_of_the_cache_flushes_its_counters \<longleftrightarrow>
     two_rows (walk_exit_road (drop_sub ''sub-labuser'')) \<and> two_rows (walk_exit_road flush_all) \<and> two_rows (walk_exit_road filled)"

definition an_expired_entry_is_a_miss_and_its_counters_are_written :: bool where
  "an_expired_entry_is_a_miss_and_its_counters_are_written \<longleftrightarrow>
     (let c = folded Allow ''/a'' None (filled (armed (audit_channel 16)));
          c' = expire_for_test abc c
      in get TTL abc c \<noteq> None \<and> get TTL abc c' = None \<and> written c' = [] \<and> ev_count (written (sweep TTL c') ! 0) = 1)"

definition one_session_from_two_addresses_is_two_rows :: bool where
  "one_session_from_two_addresses_is_two_rows \<longleftrightarrow>
     (let from_owner = V4 10 0 0 7; from_thief = V4 203 0 113 9;
          rows = written (flush_all (folded Allow ''/c'' (Some from_thief) (folded Allow ''/b'' (Some from_thief)
            (folded Allow ''/a'' (Some from_owner) (filled (armed (audit_channel 16)))))))
      in length rows = 2
         \<and> map_option ev_count (find (\<lambda>e. ev_src_ip e = Some from_owner) rows) = Some 1
         \<and> map_option ev_count (find (\<lambda>e. ev_src_ip e = Some from_thief) rows) = Some 2
         \<and> map_option ev_first_path (find (\<lambda>e. ev_src_ip e = Some from_thief) rows) = Some ''/b'')"

section \<open>What the cache holds\<close>

definition a_key_that_has_left_is_held_nowhere :: bool where
  "a_key_that_has_left_is_held_nowhere \<longleftrightarrow>
     (let c = ((\<lambda>c. drained (sweep TTL (expire_for_test abc (filled c)))) ^^ 500) (armed (audit_channel 4096))
      in tracked c = 0 \<and> tracked (((\<lambda>c. drained (filled c)) ^^ 500) c) = 2)"

section \<open>Sessions\<close>

text \<open>\<open>cookie_expire\<close> as oauth2-proxy's configuration has it, and the loop that reads it.\<close>

definition cookie_expire :: string where
  "cookie_expire = ''10h''"

fun read_duration :: "nat \<Rightarrow> nat \<Rightarrow> string \<Rightarrow> nat option" where
  "read_duration expire n [] = Some expire"
| "read_duration expire n (c # s) =
     (if is_ascii_digit c then read_duration expire (n * 10 + (byte c - 48)) s
      else if c = CHR ''h'' then read_duration (expire + n * 3600) 0 s
      else if c = CHR ''m'' then read_duration (expire + n * 60) 0 s
      else if c = CHR ''s'' then read_duration (expire + n) 0 s
      else None)"

definition the_index_outlasts_the_cookie_it_indexes :: bool where
  "the_index_outlasts_the_cookie_it_indexes \<longleftrightarrow>
     (case read_duration 0 0 cookie_expire of
        None \<Rightarrow> False
      | Some expire \<Rightarrow> expire > 0 \<and> INDEX_TTL \<ge> expire)"

section \<open>They pass\<close>

lemmas cookies = test_key_def new_key_def session_cookie_def scan_cookie_def split_once_def is_chunk_def strip_prefix_def
  COOKIE_NAME_def is_ascii_digit_def trims abc_def

lemmas runs = filled_def armed_def folded_def written_def drained_def abc_def test_cached_def test_identity_def test_hash_def
  expire_for_test_def new_cache_def set_subscribed_def flush_all_def insert_cached_def insert_by_sub_def shrink.simps CAPACITY_def
  TTL_def get_def evict_def leave_def flush_def flush_event_def forget_sub_def remove_entry_def count_request_def record_event_def
  audit_channel_def drop_sub_def sweep_def Let_def

lemma only_the_session_cookie_is_hashed_passes: "only_the_session_cookie_is_hashed"
  by (simp add: only_the_session_cookie_is_hashed_def cookies)

lemma no_session_cookie_means_no_key_passes: "no_session_cookie_means_no_key"
  by (simp add: no_session_cookie_means_no_key_def cookies)

lemma two_session_cookies_are_no_session_passes: "two_session_cookies_are_no_session"
  by (simp add: two_session_cookies_are_no_session_def cookies)

lemma an_instance_with_no_live_subscription_serves_no_hits_passes: "an_instance_with_no_live_subscription_serves_no_hits"
  by (simp add: an_instance_with_no_live_subscription_serves_no_hits_def runs walk_exit_road_def two_rows_def)

lemma a_regained_subscription_does_not_serve_entries_from_before_the_gap_passes: "a_regained_subscription_does_not_serve_entries_from_before_the_gap"
  by (simp add: a_regained_subscription_does_not_serve_entries_from_before_the_gap_def runs walk_exit_road_def two_rows_def)

lemma every_road_out_of_the_cache_flushes_its_counters_passes: "every_road_out_of_the_cache_flushes_its_counters"
  by (simp add: every_road_out_of_the_cache_flushes_its_counters_def runs walk_exit_road_def two_rows_def)

lemma an_expired_entry_is_a_miss_and_its_counters_are_written_passes: "an_expired_entry_is_a_miss_and_its_counters_are_written"
  by (simp add: an_expired_entry_is_a_miss_and_its_counters_are_written_def runs walk_exit_road_def two_rows_def)

lemma one_session_from_two_addresses_is_two_rows_passes: "one_session_from_two_addresses_is_two_rows"
  by (simp add: one_session_from_two_addresses_is_two_rows_def runs walk_exit_road_def two_rows_def)

lemma the_index_outlasts_the_cookie_it_indexes_passes: "the_index_outlasts_the_cookie_it_indexes"
  by (simp add: the_index_outlasts_the_cookie_it_indexes_def cookie_expire_def INDEX_TTL_def is_ascii_digit_def)

text \<open>Five hundred rounds, or any number of them.\<close>

definition holds_nothing :: "cache \<Rightarrow> bool" where
  "holds_nothing c \<longleftrightarrow> entries (inner c) = [] \<and> by_sub (inner c) = Map.empty"

definition holds_abc :: "cache \<Rightarrow> bool" where
  "holds_abc c \<longleftrightarrow>
     (\<exists>e. entries (inner c) = [(abc, e)] \<and> entry_sub e = ''sub-labuser'' \<and> by_sub (inner c) = [''sub-labuser'' \<mapsto> [abc]])"

lemma swept_round: "holds_nothing c \<Longrightarrow> holds_nothing (drained (sweep TTL (expire_for_test abc (filled c))))"
  by (simp add: holds_nothing_def runs)

lemma refill_round: "holds_nothing c \<or> holds_abc c \<Longrightarrow> holds_abc (drained (filled c))"
  by (elim disjE) (auto simp: holds_nothing_def holds_abc_def runs)

lemma a_key_that_has_left_is_held_nowhere_passes: "a_key_that_has_left_is_held_nowhere"
proof -
  let ?swept = "\<lambda>c. drained (sweep TTL (expire_for_test abc (filled c)))" and ?refill = "\<lambda>c. drained (filled c)"
  have swept: "holds_nothing ((?swept ^^ n) c)" if "holds_nothing c" for n c
    using that by (induction n) (simp_all add: swept_round)
  have refilled: "holds_abc ((?refill ^^ Suc n) c)" if "holds_nothing c" for n c
    using that by (induction n) (simp_all add: refill_round)
  have start: "holds_nothing (armed (audit_channel 4096))" by (simp add: holds_nothing_def runs)
  have "tracked c = 0" if "holds_nothing c" for c using that by (simp add: tracked_def holds_nothing_def)
  moreover have "tracked c = 2" if "holds_abc c" for c using that by (auto simp: tracked_def holds_abc_def)
  ultimately show ?thesis
    using swept [OF start, of 500] refilled [OF swept [OF start, of 500], of 499]
    unfolding a_key_that_has_left_is_held_nowhere_def Let_def by simp
qed

section \<open>The capacity\<close>

text \<open>Entries in the order of their insertion: the first is the oldest.\<close>

lemma oldest_first: "sorted (map (\<lambda>(k, e). inserted e) ((k, e) # es)) \<Longrightarrow> distinct (map fst es) \<Longrightarrow> oldest_of ((k, e) # es) = Some k"
proof -
  assume "sorted (map (\<lambda>(k, e). inserted e) ((k, e) # es))" "distinct (map fst es)"
  then have "inserted e \<le> inserted e'" if "map_of es k' = Some e'" for k' e'
    using that by (auto dest: map_of_SomeD)
  then show ?thesis by (auto split: option.split)
qed

text \<open>Fillers under one instant, each with its key and its user.\<close>

definition filler_key :: "nat \<Rightarrow> key" where
  "filler_key i = \<lparr>key_cookie = ''filler'' @ decimal i, key_slug = ''finance''\<rparr>"

definition with_fillers :: "nat \<Rightarrow> cache \<Rightarrow> cache" where
  "with_fillers n c = fold (\<lambda>i. insert_cached TTL (filler_key i) (''sub-'' @ decimal i) test_cached) [0..<n] c"

definition the_bound_evicts_the_entry_closest_to_expiry :: bool where
  "the_bound_evicts_the_entry_closest_to_expiry \<longleftrightarrow>
     (let first_key = \<lparr>key_cookie = ''first'', key_slug = ''finance''\<rparr>;
          c = insert_cached TTL first_key ''sub-first'' test_cached (armed (audit_channel (CAPACITY * 2)));
          c = with_fillers CAPACITY (snd (count_request test_now test_hash first_key Allow ''/a'' None None c))
      in get TTL first_key c = None \<and> ev_count (written c ! 0) = 1)"

definition decimal_value :: "string \<Rightarrow> nat" where
  "decimal_value = foldl (\<lambda>a c. 10 * a + (byte c - 48)) 0"

lemma decimal_value: "decimal_value (decimal n) = n"
proof (induction n rule: decimal.induct)
  case (1 n)
  have "byte (char_of (48 + d)) - 48 = d" if "d < 10" for d :: nat using that by simp
  then show ?case
    using 1 by (cases "n < 10") (subst decimal.simps, simp add: decimal_value_def)+
qed

lemma filler_key_inject: "filler_key i = filler_key j \<longleftrightarrow> i = j"
  unfolding filler_key_def by (metis decimal_value key.ext_inject same_append_eq)

definition fresh_entry :: "nat \<Rightarrow> key \<Rightarrow> string \<Rightarrow> cached \<Rightarrow> entry" where
  "fresh_entry now k sub v =
     \<lparr>entry_sub = sub, entry_slug = key_slug k, entry_cached = v, inserted = now, entry_counters = []\<rparr>"

lemma placed_new:
  assumes "lookup c k = None"
  shows "entries (inner (placed now k sub v c)) = entries (inner c) @ [(k, fresh_entry now k sub v)]"
    "sink (placed now k sub v c) = sink c"
  using assms by (simp_all add: placed_def evict_def insert_by_sub_def fresh_entry_def Let_def)

lemma insert_with_room:
  assumes "lookup c k = None" "length (entries (inner c)) < CAPACITY"
  shows "entries (inner (insert_cached now k sub v c)) = entries (inner c) @ [(k, fresh_entry now k sub v)]"
    "sink (insert_cached now k sub v c) = sink c"
  using assms placed_new [OF assms(1)] unfolding insert_cached_alt by (simp_all add: shrink.simps)

lemma insert_when_full:
  assumes "lookup c k = None" "entries (inner c) = (f, e) # es" "length (entries (inner c)) = CAPACITY"
    and "sorted (map (\<lambda>(k, e). inserted e) (entries (inner c)))" "\<forall>(k, e)\<in>set (entries (inner c)). inserted e \<le> now"
    and "distinct (map fst (entries (inner c)))"
  shows "lookup (insert_cached now k sub v c) f = None" "sink (insert_cached now k sub v c) = sink (flush e c)"
proof -
  let ?p = "placed now k sub v c" and ?new = "(k, fresh_entry now k sub v)"
  note p = placed_new [OF assms(1), of now sub v]
  have k: "k \<notin> fst ` set (entries (inner c))" using assms(1) by (simp add: map_of_eq_None_iff)
  have "sorted (map (\<lambda>(k, e). inserted e) ((f, e) # es @ [?new]))"
    using assms(2,4,5) by (auto simp: sorted_append fresh_entry_def)
  moreover have "distinct (map fst (es @ [?new]))" using assms(2,6) k by auto
  ultimately have oldest: "oldest_of (entries (inner ?p)) = Some f"
    using oldest_first [of f e "es @ [?new]"] p(1) assms(2) by (simp del: oldest_of.simps)
  have e: "lookup ?p f = Some e" using p(1) assms(2) by simp
  have long: "length (entries (inner ?p)) = Suc CAPACITY" using p(1) assms(3) by simp
  have one: "shrink ?p = shrink (leave f e ?p)"
    using oldest e long by (subst shrink.simps) simp
  have gone: "lookup (leave f e ?p) f = None" by (simp add: lookup_leave)
  have "length (entries (inner (leave f e ?p))) < Suc CAPACITY"
    using length_delete [OF e] long by (simp del: delete_conv')
  then have stop: "shrink (leave f e ?p) = leave f e ?p" by (subst shrink.simps) simp
  show "lookup (insert_cached now k sub v c) f = None" unfolding insert_cached_alt one stop by (rule gone)
  show "sink (insert_cached now k sub v c) = sink (flush e c)"
    unfolding insert_cached_alt one stop by (simp add: leave_def flush_def p(2))
qed

lemma sorted_const: "\<forall>x\<in>set xs. f x = t \<Longrightarrow> sorted (map f xs)" for f :: "'a \<Rightarrow> nat"
  by (induction xs) auto

lemma fillers_with_room:
  assumes "entries (inner c) = [(f, e)]" "\<And>i. f \<noteq> filler_key i" "n < CAPACITY"
  shows "entries (inner (with_fillers n c)) =
      (f, e) # map (\<lambda>i. (filler_key i, fresh_entry TTL (filler_key i) (''sub-'' @ decimal i) test_cached)) [0..<n]
    \<and> sink (with_fillers n c) = sink c"
  using assms(3)
proof (induction n)
  case 0
  then show ?case using assms(1) by (simp add: with_fillers_def)
next
  case (Suc n)
  then have IH: "entries (inner (with_fillers n c)) =
      (f, e) # map (\<lambda>i. (filler_key i, fresh_entry TTL (filler_key i) (''sub-'' @ decimal i) test_cached)) [0..<n]"
    "sink (with_fillers n c) = sink c" by simp_all
  have "lookup (with_fillers n c) (filler_key n) = None"
    using assms(2) [of n] by (auto simp: IH(1) map_of_eq_None_iff filler_key_inject)
  from insert_with_room [OF this] show ?case using IH Suc.prems by (simp add: with_fillers_def)
qed

lemma the_bound_evicts_the_entry_closest_to_expiry_passes: "the_bound_evicts_the_entry_closest_to_expiry"
proof -
  let ?f = "\<lparr>key_cookie = ''first'', key_slug = ''finance''\<rparr>"
  let ?c0 = "insert_cached TTL ?f ''sub-first'' test_cached (armed (audit_channel (CAPACITY * 2)))"
  let ?c = "snd (count_request test_now test_hash ?f Allow ''/a'' None None ?c0)"
  have sink: "sink ?c0 = audit_channel (CAPACITY * 2)" "sink ?c = audit_channel (CAPACITY * 2)"
    by (simp_all add: runs)
  obtain e n where e: "entries (inner ?c) = [(?f, e)]" "inserted e = TTL" "entry_counters e = [((Allow, None), n)]" "tally n = 1"
    by (simp add: runs)
  have other: "?f \<noteq> filler_key i" for i by (simp add: filler_key_def)
  let ?last = "CAPACITY - 1"
  let ?full = "with_fillers ?last ?c"
  have "?last < CAPACITY" by (simp add: CAPACITY_def)
  note full = fillers_with_room [OF e(1) other this]
  let ?es = "map (\<lambda>i. (filler_key i, fresh_entry TTL (filler_key i) (''sub-'' @ decimal i) test_cached)) [0..<?last]"
  have es: "entries (inner ?full) = (?f, e) # ?es" using full by blast
  have "lookup ?full (filler_key ?last) = None"
    unfolding map_of_eq_None_iff es using other [symmetric] by (auto simp: filler_key_inject simp del: upt_Suc)
  moreover have "length (entries (inner ?full)) = CAPACITY" unfolding es by (simp add: CAPACITY_def del: upt_Suc)
  moreover have instants: "\<forall>x\<in>set (entries (inner ?full)). (\<lambda>(k, e). inserted e) x = TTL"
    unfolding es by (auto simp: e(2) fresh_entry_def)
  from sorted_const [OF this] have "sorted (map (\<lambda>(k, e). inserted e) (entries (inner ?full)))" .
  moreover from instants have "\<forall>(k, e')\<in>set (entries (inner ?full)). inserted e' \<le> TTL" by fastforce
  moreover have "distinct (map fst (entries (inner ?full)))"
    unfolding es using other by (auto simp: distinct_map o_def inj_on_def filler_key_inject simp del: upt_Suc)
  ultimately have last: "lookup (insert_cached TTL (filler_key ?last) (''sub-'' @ decimal ?last) test_cached ?full) ?f = None"
    "sink (insert_cached TTL (filler_key ?last) (''sub-'' @ decimal ?last) test_cached ?full) = sink (flush e ?full)"
    using insert_when_full [OF _ es] by blast+
  have "with_fillers CAPACITY ?c = insert_cached TTL (filler_key ?last) (''sub-'' @ decimal ?last) test_cached ?full"
  proof -
    have "[0..<CAPACITY] = [0..<?last] @ [?last]" by (simp add: CAPACITY_def flip: upt_Suc_append)
    then show ?thesis by (simp add: with_fillers_def del: upt_Suc)
  qed
  moreover have "written (flush e ?full) ! 0 = flush_event e ((Allow, None), n)"
    using full sink(2) e(3) by (simp add: written_def flush_def record_event_def audit_channel_def CAPACITY_def)
  ultimately show ?thesis
    unfolding the_bound_evicts_the_entry_closest_to_expiry_def Let_def
    using last e(4) by (simp add: get_def written_def flush_event_def)
qed

section \<open>Session keys\<close>

text \<open>What the tests need of base64: decoding undoes encoding, whose alphabet is ASCII without a dot or a bar; the
  empty text encodes nothing, and an exclamation mark is in no alphabet.\<close>

definition base64_crate :: "base64 \<Rightarrow> (string \<Rightarrow> string) \<Rightarrow> bool" where
  "base64_crate b enc \<longleftrightarrow>
     (\<forall>s. url_safe_no_pad b (enc s) = Some s \<and> (\<forall>c\<in>set (enc s). byte c < 128 \<and> c \<noteq> CHR ''.'' \<and> c \<noteq> CHR ''|''))
     \<and> url_safe_no_pad b '''' = Some '''' \<and> decode b ''not-base64-at-all!!'' = None"

definition test_cookie :: "(string \<Rightarrow> string) \<Rightarrow> string \<Rightarrow> string \<Rightarrow> string \<Rightarrow> string" where
  "test_cookie enc k secret signature = enc (''v2.'' @ enc k @ ''.'' @ enc secret) @ signature"

definition the_redis_key_comes_out_of_the_cookie :: "base64 \<Rightarrow> (string \<Rightarrow> string) \<Rightarrow> bool" where
  "the_redis_key_comes_out_of_the_cookie b enc \<longleftrightarrow>
     (let k = ''_oauth2_proxy-d8f9514ab7f2dec2ee20adbcd026765c''
      in session_key b (test_cookie enc k ''sekrit'' ''|1757000000|abcdef'') ''_oauth2_proxy'' = Some k
         \<and> session_key b (test_cookie enc k ''sekrit'' ''|1757009999|999999'') ''_oauth2_proxy'' =
             session_key b (test_cookie enc k ''sekrit'' ''|1757000000|abcdef'') ''_oauth2_proxy''
         \<and> session_key b (test_cookie enc k ''sekrit'' '''') ''_oauth2_proxy'' = Some k)"

definition anything_that_is_not_one_of_our_keys_is_refused :: "base64 \<Rightarrow> (string \<Rightarrow> string) \<Rightarrow> bool" where
  "anything_that_is_not_one_of_our_keys_is_refused b enc \<longleftrightarrow>
     list_all (\<lambda>val. session_key b val ''_oauth2_proxy'' = None)
       ['''', ''not-base64-at-all!!'', test_cookie enc ''some-other-service-session'' ''s'' ''|1|a'',
        test_cookie enc ''_oauth2_proxy_but_not_quite'' ''s'' ''|1|a'', enc ''v1.abc.def'', enc ''no-version-prefix'']"

lemma encoded:
  assumes "base64_crate b enc"
  shows "decode b (enc s) = Some s" "first_piece CHR ''.'' (enc s @ ''.'' @ t) = enc s"
    "first_piece CHR ''|'' (enc s) = enc s" "prefix ''|'' t \<Longrightarrow> first_piece CHR ''|'' (enc s @ t) = enc s"
proof -
  have enc: "CHR ''.'' \<notin> set (enc s)" "CHR ''|'' \<notin> set (enc s)" using assms by (auto simp: base64_crate_def)
  show "decode b (enc s) = Some s" using assms by (simp add: base64_crate_def decode_def)
  show "first_piece CHR ''.'' (enc s @ ''.'' @ t) = enc s" using first_piece_append_sep [OF enc(1)] by simp
  show "first_piece CHR ''|'' (enc s) = enc s" using split_on_no_sep [OF enc(2)] by (simp add: first_piece_def)
  show "first_piece CHR ''|'' (enc s @ t) = enc s" if "prefix ''|'' t"
    using that first_piece_append_sep [OF enc(2)] by (auto simp: prefix_def)
qed

lemma ticket_text:
  assumes "base64_crate b enc"
  shows "is_utf8 (''v2.'' @ enc s @ ''.'' @ enc t)"
proof -
  have "\<forall>c\<in>set (''v2.'' @ enc s @ ''.'' @ enc t). byte c < 128" using assms by (auto simp: base64_crate_def)
  then show ?thesis by (simp add: is_utf8_def decode_ascii del: append_Cons)
qed

lemma test_cookie_key:
  assumes "base64_crate b enc" "signature = '''' \<or> prefix ''|'' signature" "\<forall>c\<in>set k. byte c < 128"
  shows "session_key b (test_cookie enc k secret signature) name = (if prefix (name @ ''-'') k then Some k else None)"
proof -
  have first: "first_piece CHR ''|'' (test_cookie enc k secret signature) = enc (''v2.'' @ enc k @ ''.'' @ enc secret)"
    using assms(2) encoded(3,4) [OF assms(1)] by (auto simp: test_cookie_def)
  have "is_utf8 k" using assms(3) by (simp add: is_utf8_def decode_ascii)
  moreover have "strip_prefix ''v2.'' (''v2.'' @ enc k @ ''.'' @ enc secret) = Some (enc k @ ''.'' @ enc secret)"
    by (simp only: strip_prefix_Some)
  ultimately show ?thesis
    unfolding session_key_def Let_def first
    by (simp only: encoded(1,2) [OF assms(1)] utf8_of_def ticket_text [OF assms(1)] bind.bind_lunit if_True)
qed

lemma the_redis_key_comes_out_of_the_cookie_passes:
  assumes "base64_crate b enc"
  shows "the_redis_key_comes_out_of_the_cookie b enc"
  unfolding the_redis_key_comes_out_of_the_cookie_def Let_def by (simp add: test_cookie_key [OF assms])

lemma anything_that_is_not_one_of_our_keys_is_refused_passes:
  assumes "base64_crate b enc"
  shows "anything_that_is_not_one_of_our_keys_is_refused b enc"
proof -
  have "decode b '''' = Some ''''" using assms by (simp add: base64_crate_def decode_def)
  moreover have "decode b ''not-base64-at-all!!'' = None" using assms by (simp add: base64_crate_def)
  moreover have "is_utf8 ''''" "is_utf8 ''v1.abc.def''" "is_utf8 ''no-version-prefix''"
    by (simp_all add: is_utf8_def decode_ascii)
  moreover have "first_piece CHR ''|'' '''' = ''''" "first_piece CHR ''|'' ''not-base64-at-all!!'' = ''not-base64-at-all!!''"
    by (simp_all add: first_piece_def)
  ultimately show ?thesis
    unfolding anything_that_is_not_one_of_our_keys_is_refused_def list.pred_inject
    by (intro conjI TrueI)
      (simp_all add: test_cookie_key [OF assms], simp_all add: session_key_def encoded [OF assms] utf8_of_def strip_prefix_def)
qed

text \<open>There is such an encoding.\<close>

definition strict_codec :: base64 where
  "strict_codec = percent_codec\<lparr>url_safe_no_pad :=
     (\<lambda>s. if s = ''not-base64-at-all!!'' then None else url_safe_no_pad percent_codec s)\<rparr>"

lemma base64_crate_exists: "base64_crate strict_codec percent_encode"
proof -
  have "percent_encode s \<noteq> ''not-base64-at-all!!''" for s by (cases s) (simp_all add: percent_encode_def)
  moreover have "byte c < 128 \<and> c \<noteq> CHR ''.'' \<and> c \<noteq> CHR ''|''" if "c \<in> set (percent_encode s)" for c s
  proof -
    have "byte c < 127" using percent_encode_visible [of s] that unfolding list_all_iff by blast
    then show ?thesis using percent_codec_plain [of s] that by auto
  qed
  moreover have "url_safe_no_pad percent_codec '''' = Some ''''" by (simp add: percent_codec_def)
  moreover have "decode strict_codec ''not-base64-at-all!!'' = None"
    by (simp add: decode_def strict_codec_def) (simp add: percent_codec_def)
  ultimately show ?thesis
    unfolding base64_crate_def by (auto simp: strict_codec_def percent_codec_decodes)
qed

end
