(* ===== verification/Spec2Isabelle.thy ===== *)
theory Spec2Isabelle
  imports Startup Publishing Deadlines Validate_Tests Cache_Tests
begin

text \<open>
  A verification of the OpenBerat backend (\<open>src/backend/src\<close>), the policy decision point behind nginx:
  nginx asks \<open>/decide\<close> about every request to a protected application, people call \<open>/api\<close> through the
  portal, administrators change the tables and cut sessions, and Postgres, Redis, oauth2-proxy and
  Keycloak are the services around it.

  Parts, in the order the theories import each other:

    \<^item> \<open>Prelude\<close> and \<open>Rust_Str\<close>: what the Rust sources use of the standard library. A Rust string is the
      list of its bytes; \<open>trim\<close>, \<open>split\<close>, case folding, UTF-8 decoding and \<open>to_str\<close> of a header are
      functions on it. Errors are sums, \<open>?\<close> is \<open>and_then\<close>.
    \<^item> \<open>Uri\<close> and \<open>Policy\<close> (\<open>policy.rs\<close>): percent decoding, dot segments, the normal form of a path and its
      three readings; rules, \<open>decide\<close>, \<open>explain\<close> and the group tests.
    \<^item> \<open>Validate\<close> (\<open>validate.rs\<close>): what a row may hold, beside the constraints of the schema.
    \<^item> \<open>Nginx\<close> (\<open>nginx.rs\<close>): the two generated files line by line, and staging them.
    \<^item> \<open>Store\<close> (\<open>store.rs\<close>): the queries as filters of the tables' rows, the bounded audit channel, its
      writer, the monthly retention.
    \<^item> \<open>Publishing\<close> (\<open>nginx.rs\<close> again): publishes call by call over inodes, and what two of them at once
      can do to the staged files.
    \<^item> \<open>Cache\<close> (\<open>cache.rs\<close>): the session cookie, and the decision cache with one step per operation, since
      each holds the mutex from start to end.
    \<^item> \<open>Session\<close> (\<open>session.rs\<close>): session keys, the kill switch's index in Redis, the subscriber.
    \<^item> \<open>Metrics\<close> (\<open>metrics.rs\<close>): the counters and their exposition.
    \<^item> \<open>Decide\<close> (\<open>decide.rs\<close>): the handler of \<open>/decide\<close> with every early return.
    \<^item> \<open>Keycloak\<close> (\<open>keycloak.rs\<close>): the admin client, over the log of the requests it has sent.
    \<^item> \<open>Api\<close> (\<open>api.rs\<close>), \<open>Portal\<close> (\<open>portal.rs\<close>), \<open>Audit_View\<close> (\<open>audit.rs\<close>): who is calling, the middleware
      that indexes the session first, sign-out, the application list, the read-only screens.
    \<^item> \<open>Kill_Switch\<close> and \<open>Tables\<close> (\<open>admin.rs\<close>): the guard, the kill switch, users and second factors;
      applications and entitlements with the statements they run.
    \<^item> \<open>Server\<close> (the routers of \<open>api.rs\<close> and \<open>admin.rs\<close>): one function from a request and what it meets to the
      next state and the reply, and the step relation of the process.
    \<^item> \<open>Heartbeat\<close> (\<open>session.rs\<close>): the subscriber's loop with its clock, the \<open>PING\<close> and its timeout; without
      the clock it is the loop of \<open>Session\<close>.
    \<^item> \<open>Steps\<close>: the kill switch, the miss of \<open>/decide\<close> and the sign-out cut at every await, one step being
      what runs between two; run without interruption they are the handlers of \<open>Kill_Switch\<close>, \<open>Decide\<close>
      and \<open>Portal\<close>.
    \<^item> \<open>Fleet\<close> and \<open>Revocation\<close>: several instances over one Redis. Each has its cache, its counters, its
      subscription (\<open>link\<close>) and the messages on their way to it; logins, calls, kills, sign-outs, lost
      connections and restarts interleave. \<open>Fleet\<close> holds the step relation and its invariant, \<open>Revocation\<close>
      what a kill achieves across the instances.
    \<^item> \<open>Deadlines\<close>: the fleet with one clock, every instance's subscriber being a listener of \<open>Heartbeat\<close>; by
      when a kill and a sign-out have taken effect.
    \<^item> \<open>Lifecycle\<close> and \<open>Startup\<close> (\<open>main.rs\<close>): the retention setting and the shutdown; everything up to the
      listener, the daily retention task, and the state the first request meets.
    \<^item> \<open>Policy_Tests\<close>, \<open>Validate_Tests\<close> and \<open>Cache_Tests\<close> (the \<open>#[cfg(test)]\<close> modules of \<open>policy.rs\<close>,
      \<open>validate.rs\<close> and \<open>nginx.rs\<close>, \<open>cache.rs\<close> and \<open>session.rs\<close>): the assertions of each unit test as a
      definition under the test's name.

  State. \<open>cache\<close>, \<open>metrics\<close> and \<open>redis\<close> are the records of their components; \<open>state\<close> puts them together for
  \<open>/decide\<close>, and \<open>system\<close> extends it by the two tables, the files of the nginx volume and the requests
  sent to Keycloak. A handler takes the state and returns it with its reply. A \<open>fleet\<close> is one \<open>system\<close> for
  what the instances share and a \<open>process\<close> for each of them, with the calls in flight; three fields are
  history: the sessions ever made, the session a call was verified by, the call that filled an entry.

  What is not in the sources is an argument: the \<open>url\<close>, \<open>uuid\<close>, \<open>serde_json\<close> and base64 crates, SHA-256 and
  the hash of a path, axum's matching and extraction, the clocks, the order the database returns rows
  in where a query leaves it open, and the answer of each service to each call. A task that runs while
  a handler waits appears as a list of cache operations at that await. What a property needs of such an
  argument is a named hypothesis (\<open>complete_url\<close>, \<open>routes_by_table\<close>, a permutation, \<open>own_tasks\<close>), and its
  witness gives a function that satisfies it.

  Contracts, as locales: a stored value that goes into a configuration line (\<open>config_value\<close>, for slugs,
  hostnames and upstreams), the bounded audit channel (\<open>audit_sink\<close>), the decision cache
  (\<open>decision_cache\<close>) and a revocation that is retried until it succeeds (\<open>revocation\<close>, for the kill switch
  and the sign-out), each with its client lemmas proved once and interpreted on the model's operations.

  What the lemmas show:

    \<^item> Policy: the decision is allowed-and-not-denied under all three readings; rewriting a path does not
      escape a deny; a grant stays inside its subtree.
    \<^item> Validation and generation: labels are the schema's language, an accepted upstream is not
      infrastructure, no stored value becomes nginx syntax, every generated server has its guard, a
      failed publish leaves old or new files; a publish call by call is that publish, and the two runs in
      which overlapping publishes stage an empty file or the older table.
    \<^item> Tables: rows stay valid under any calls, a refusal changes nothing, enabled applications are served.
    \<^item> Decisions: never a 5xx; a 200 is justified by a live cache entry or a verified, indexed session; one
      outcome and one audit count for each request; the screens and the portal agree with \<open>/decide\<close>.
    \<^item> Cache and index: every hit has an origin with nothing in between that should have removed it;
      structures agree; counters are conserved up to the drained queue at shutdown.
    \<^item> Revocation: what a kill, a sign-out and a reset leave and do not touch, that retrying succeeds, and
      that the next decision asks oauth2-proxy again.
    \<^item> The process: it refuses to start for stated reasons only, answers nothing from its cache until it is
      subscribed, and keeps the configured months of the audit record whatever fails; only an
      administrator changes anything; every state reachable from the start is well formed.
    \<^item> The fleet: hits need a subscription believed up; a kill that answers 200 has deleted every session it
      read, on every interleaving; once it or a sign-out is announced an instance serves that user only
      with the message undelivered or the connection dead (for two heartbeats at most), and not beyond the
      TTL, or from a miss that was in flight or of another session since; and the run in which a kill
      misses a session, which the comment above \<open>kill\<close> does not speak of.
    \<^item> The unit tests: \<open><test>_passes\<close> says that the model meets every assertion of that test, whatever parser
      or codec agrees with the crate on the values the test feeds it.

  Termination and bounds. All definitions are total, so there is no fuel: recursion is structural, or by a
  measure (\<open>decimal\<close>, \<open>shrink\<close> of the cache, the segments of a path), or, for the writer's loop, a
  \<open>while_option\<close> proved to end. The \<open>i32\<close> counters of the audit and the \<open>u64\<close> counters of the metrics are
  words and wrap. The age of an entry, \<open>Instant::elapsed\<close>, is a difference of
  natural numbers, zero when the clock has not moved.

  Not modelled: the contents of log lines, beyond the message a process exits with; connection pools,
  TLS and timeouts, beyond a call getting no answer; the intervals of the timers and the last wait in
  \<open>main.rs\<close>; memory order inside one cache operation, which the mutex makes one step; the reloader and
  the other services' own code; the frontend; the unit test of \<open>metrics.rs\<close>. In \<open>Server\<close> two requests interleave at the awaits through
  the cache operations that run there; in \<open>Fleet\<close> the kill switch, the miss and the sign-out interleave
  with everything, the other endpoints run in one step. \<open>SADD\<close> and \<open>EXPIRE\<close> of one index write are one step.
  What \<open>Fleet\<close> assumes of oauth2-proxy: it vouches for a cookie only while its session is in Redis, and
  never makes a key twice.

  Still to do: the statements of the tables cut at their awaits.
\<close>

end
